(* ===== verification/C_Prelude.thy ===== *)
theory C_Prelude
  imports Main "HOL-Library.Word" "HOL-Library.Monad_Syntax"
begin

text \<open>
  What the C programs of the repository share: the machine integer types, character
  buffers and NUL-terminated strings, and the libc string functions the code calls.

  Conventions of the whole development:
  \<^item> \<open>None\<close> as the result of an operation means that the C code has no defined result
    there: it dereferences \<open>NULL\<close> or an unmapped address, it reads or writes outside an
    array, or one of its loops does not end. A theorem that an operation returns
    \<open>Some r\<close> therefore says that it is memory safe and that it ends. Errors that the
    code detects and reports are values inside the \<open>Some\<close>.
  \<^item> a \<open>char *\<close> into a buffer is the offset of the byte it points at, a \<open>NULL\<close> pointer
    is \<open>None\<close>; a string that the code only reads is the list of its bytes without the NUL.
\<close>

section \<open>Integer types\<close>

type_synonym u8 = "8 word"
type_synonym u32 = "32 word"
type_synonym u64 = "64 word"

text \<open>\<open>UINT_MAX\<close>, \<open>INT_MAX\<close> of limits.h, as the programs use them.\<close>

definition INT_MAX :: int where
  "INT_MAX = 2147483647"

text \<open>The result of an operation on \<open>int\<close>: an overflow has no defined result.\<close>

definition to_int :: "int \<Rightarrow> int option" where
  "to_int n = (if - INT_MAX - 1 \<le> n \<and> n \<le> INT_MAX then Some n else None)"

section \<open>Proof collections\<close>

named_theorems frame \<open>what an operation leaves unchanged\<close>
named_theorems inv_intro \<open>every operation keeps the invariant\<close>

section \<open>Character buffers and strings\<close>

abbreviation NUL :: char where
  "NUL \<equiv> CHR 0x00"

abbreviation NL :: char where
  "NL \<equiv> CHR 0x0A"

abbreviation CR :: char where
  "CR \<equiv> CHR 0x0D"

type_synonym buffer = "char list"

text \<open>
  The C string that starts at offset \<open>p\<close> of a buffer: the bytes before the first NUL.
  A read that would run over the end of the buffer has no defined result.
\<close>

definition cstr_at :: "buffer \<Rightarrow> nat \<Rightarrow> string option" where
  "cstr_at buf p =
     (if NUL \<in> set (drop p buf) then Some (takeWhile (\<lambda>c. c \<noteq> NUL) (drop p buf)) else None)"

text \<open>\<open>strspn\<close> and \<open>strcspn\<close>: the length of the longest prefix of bytes in, or not in, a set.\<close>

definition strspn :: "string \<Rightarrow> string \<Rightarrow> nat" where
  "strspn s accept = length (takeWhile (\<lambda>c. c \<in> set accept) s)"

definition strcspn :: "string \<Rightarrow> string \<Rightarrow> nat" where
  "strcspn s reject = length (takeWhile (\<lambda>c. c \<notin> set reject) s)"

text \<open>
  The same on a buffer: the scan ends at the NUL or at the first byte that decides it, and need
  not come to the end of the string; a scan over the end of the buffer has no defined result.
\<close>

definition scan_at :: "(char \<Rightarrow> bool) \<Rightarrow> buffer \<Rightarrow> nat \<Rightarrow> nat option" where
  "scan_at P buf p =
     (let n = length (takeWhile (\<lambda>c. P c \<and> c \<noteq> NUL) (drop p buf)) in
      if p + n < length buf then Some n else None)"

definition strspn_at :: "buffer \<Rightarrow> nat \<Rightarrow> string \<Rightarrow> nat option" where
  "strspn_at buf p accept = scan_at (\<lambda>c. c \<in> set accept) buf p"

definition strcspn_at :: "buffer \<Rightarrow> nat \<Rightarrow> string \<Rightarrow> nat option" where
  "strcspn_at buf p reject = scan_at (\<lambda>c. c \<notin> set reject) buf p"

text \<open>\<open>strncmp(s, t, strlen(t)) == 0\<close>: \<open>t\<close> is a prefix of \<open>s\<close>.\<close>

definition has_prefix :: "string \<Rightarrow> string \<Rightarrow> bool" where
  "has_prefix s t \<longleftrightarrow> take (length t) s = t"

text \<open>
  \<open>strcpy\<close> into a buffer of \<open>cap\<close> bytes: the bytes and the terminating NUL have to fit,
  otherwise the copy writes past the end of the destination.
\<close>

definition strcpy_into :: "nat \<Rightarrow> string \<Rightarrow> string option" where
  "strcpy_into cap s = (if length s + 1 \<le> cap then Some s else None)"

text \<open>\<open>fgets(line, n, fp)\<close> before the end of the file: at most \<open>n - 1\<close> bytes, up to a newline.\<close>

definition fgets_piece :: "nat \<Rightarrow> string \<Rightarrow> string" where
  "fgets_piece n f = (let l = takeWhile (\<lambda>c. c \<noteq> NL) (take (n - 1) f) in
     if length l < length (take (n - 1) f) then l @ [NL] else l)"

text \<open>\<open>isdigit\<close> and \<open>isspace\<close> of the C locale.\<close>

definition isdigit :: "char \<Rightarrow> bool" where
  "isdigit c \<longleftrightarrow> c \<in> set ''0123456789''"

definition isspace :: "char \<Rightarrow> bool" where
  "isspace c \<longleftrightarrow> c \<in> {CHR '' '', CHR 0x09, CHR 0x0A, CHR 0x0B, CHR 0x0C, CHR 0x0D}"

definition digit_val :: "char \<Rightarrow> int" where
  "digit_val c = (of_char c :: int) - 48"

text \<open>
  \<open>atoi\<close>: optional white space, an optional sign, then decimal digits. The result is the
  mathematical integer; whether it fits an \<open>int\<close> is for the caller to say.
\<close>

definition digits_val :: "string \<Rightarrow> int" where
  "digits_val s = foldl (\<lambda>n c. 10 * n + digit_val c) 0 (takeWhile isdigit s)"

definition atoi :: "string \<Rightarrow> int" where
  "atoi s = (case dropWhile isspace s of
      [] \<Rightarrow> 0
    | c # cs \<Rightarrow>
        if c = CHR ''-'' then - digits_val cs
        else if c = CHR ''+'' then digits_val cs
        else digits_val (c # cs))"

section \<open>Lemmas on buffers and strings\<close>

lemma cstr_at_append [simp]:
  "NUL \<notin> set s \<Longrightarrow> length pre = p \<Longrightarrow> cstr_at (pre @ s @ NUL # post) p = Some s"
  by (auto simp: cstr_at_def takeWhile_append)

lemma cstr_at_SomeD:
  assumes "cstr_at buf p = Some s"
  shows "NUL \<notin> set s" and "\<exists>post. buf = take p buf @ s @ NUL # post" and "p \<le> length buf"
proof -
  from assms have nul: "NUL \<in> set (drop p buf)"
    and s: "s = takeWhile (\<lambda>c. c \<noteq> NUL) (drop p buf)"
    by (auto simp: cstr_at_def split: if_splits)
  show "NUL \<notin> set s" using s set_takeWhileD by fastforce
  have ne: "dropWhile (\<lambda>c. c \<noteq> NUL) (drop p buf) \<noteq> []"
    using nul by (auto simp: dropWhile_eq_Nil_conv)
  then have "hd (dropWhile (\<lambda>c. c \<noteq> NUL) (drop p buf)) = NUL"
    using hd_dropWhile by blast
  then have "drop p buf = s @ NUL # tl (dropWhile (\<lambda>c. c \<noteq> NUL) (drop p buf))"
    using ne s by (metis list.collapse takeWhile_dropWhile_id)
  then show "\<exists>post. buf = take p buf @ s @ NUL # post"
    by (metis append_take_drop_id)
  show "p \<le> length buf" using nul by (cases "p \<le> length buf") auto
qed

lemma scan_at_before:
  assumes "drop p buf = w @ c # r" "\<forall>x \<in> set w. P x \<and> x \<noteq> NUL" "\<not> P c \<or> c = NUL"
  shows "scan_at P buf p = Some (length w)"
proof -
  have "takeWhile (\<lambda>c. P c \<and> c \<noteq> NUL) (drop p buf) = w"
    unfolding assms(1) using assms(2,3) by (subst takeWhile_append2) auto
  moreover have "length (drop p buf) = length w + 1 + length r" by (simp add: assms(1))
  then have "p + length w < length buf" by simp
  ultimately show ?thesis by (simp add: scan_at_def)
qed

lemma scan_at_cstr:
  assumes "cstr_at buf p = Some s" "k \<le> length s"
  shows "scan_at P buf (p + k) = Some (length (takeWhile P (drop k s)))"
proof -
  from cstr_at_SomeD [OF assms(1)] obtain post
    where nul: "NUL \<notin> set s" and buf: "buf = take p buf @ s @ NUL # post" and p: "p \<le> length buf" by blast
  let ?w = "takeWhile P (drop k s)" and ?r = "dropWhile P (drop k s)"
  have "drop (p + k) buf = drop k (drop p buf)" by (simp add: add.commute)
  also have "drop p buf = s @ NUL # post" using p by (subst buf) simp
  also have "drop k (s @ NUL # post) = ?w @ ?r @ NUL # post" using assms(2) by simp
  finally have d: "drop (p + k) buf = ?w @ ?r @ NUL # post" .
  obtain c r where c: "?r @ NUL # post = c # r" "\<not> P c \<or> c = NUL"
  proof (cases ?r)
    case (Cons x xs)
    then have "\<not> P x" using hd_dropWhile [of P "drop k s"] by auto
    with Cons show ?thesis using that by simp
  next
    case Nil
    have "?r @ NUL # post = NUL # post" by (simp only: Nil append_Nil)
    then show ?thesis by (rule that) simp
  qed
  have "\<forall>x \<in> set ?w. P x \<and> x \<noteq> NUL" using nul set_takeWhileD [of _ P "drop k s"] by (metis in_set_dropD)
  then show ?thesis using scan_at_before [of "p + k" buf ?w c r P] d c by simp
qed

lemma strspn_at_cstr [simp]: "cstr_at buf p = Some s \<Longrightarrow> strspn_at buf p d = Some (strspn s d)"
  using scan_at_cstr [of buf p s 0] by (simp add: strspn_at_def strspn_def)

lemma strcspn_at_cstr: "\<lbrakk>cstr_at buf p = Some s; k \<le> length s\<rbrakk> \<Longrightarrow> strcspn_at buf (p + k) d = Some (strcspn (drop k s) d)"
  using scan_at_cstr [of buf p s k] by (simp add: strcspn_at_def strcspn_def)

lemma strspn_le: "strspn s d \<le> length s"
  by (simp add: strspn_def length_takeWhile_le)

lemma strcpy_into_Some_iff [simp]:
  "strcpy_into cap s = Some t \<longleftrightarrow> t = s \<and> length s < cap"
  by (auto simp: strcpy_into_def)

lemma has_prefix_append [simp]: "has_prefix (s @ t) s"
  by (simp add: has_prefix_def)

lemma has_prefix_Nil [simp]: "has_prefix s []"
  by (simp add: has_prefix_def)

lemma digit_val_nonneg: "isdigit c \<Longrightarrow> 0 \<le> digit_val c"
  unfolding isdigit_def digit_val_def by simp (elim disjE; simp)

lemma foldl_digits_nonneg:
  "\<lbrakk>0 \<le> n; \<forall>c \<in> set cs. isdigit c\<rbrakk> \<Longrightarrow> 0 \<le> foldl (\<lambda>n c. 10 * n + digit_val c) n cs"
proof (induction cs arbitrary: n)
  case (Cons c cs)
  have "0 \<le> digit_val c"
    using Cons.prems(2) by (simp add: digit_val_nonneg)
  with Cons.prems show ?case by (simp add: Cons.IH)
qed simp

lemma digits_val_nonneg: "0 \<le> digits_val s"
  unfolding digits_val_def
  by (rule foldl_digits_nonneg) (auto dest: set_takeWhileD)

lemma fgets_piece_pos: "\<lbrakk>f \<noteq> []; 1 < n\<rbrakk> \<Longrightarrow> 0 < length (fgets_piece n f)"
  by (cases f; cases "n - 1") (auto simp: fgets_piece_def Let_def)

lemma fgets_piece_line:
  "\<lbrakk>NL \<notin> set l; length l + 1 < n\<rbrakk> \<Longrightarrow> fgets_piece n (l @ NL # r) = l @ [NL]"
proof -
  assume l: "NL \<notin> set l" "length l + 1 < n"
  obtain k where k: "n - 1 - length l = Suc k" using l(2) by (cases "n - 1 - length l") auto
  have "take (n - 1) (l @ NL # r) = l @ NL # take k r" using l(2) k by simp
  moreover have "takeWhile (\<lambda>c. c \<noteq> NL) (l @ NL # take k r) = l" using l(1) by (subst takeWhile_append2) auto
  ultimately show ?thesis by (simp add: fgets_piece_def)
qed

section \<open>Decimal numbers\<close>

text \<open>\<open>printf("%d")\<close> of a number that is not negative.\<close>

definition digit :: "nat \<Rightarrow> char" where
  "digit n = ''0123456789'' ! n"

fun show_nat :: "nat \<Rightarrow> string" where
  "show_nat n = (if n < 10 then [digit n] else show_nat (n div 10) @ [digit (n mod 10)])"

declare show_nat.simps [simp del]

text \<open>\<open>atoi\<close> where the number has to fit the \<open>int\<close> that it returns.\<close>

definition atoi_int :: "string \<Rightarrow> int option" where
  "atoi_int s = (if - INT_MAX - 1 \<le> atoi s \<and> atoi s \<le> INT_MAX then Some (atoi s) else None)"

lemma less_ten: "n < 10 \<longleftrightarrow> n \<in> {0, 1, 2, 3, 4, 5, 6, 7, 8, 9 :: nat}"
  by auto

lemma digit_char: "n < 10 \<Longrightarrow> isdigit (digit n) \<and> digit_val (digit n) = int n"
  unfolding less_ten by (auto simp: isdigit_def digit_val_def digit_def)

lemma show_nat_digits: "\<forall>c \<in> set (show_nat n). isdigit c"
proof (induction n rule: show_nat.induct)
  case (1 n)
  then show ?case
    using digit_char [of n] digit_char [of "n mod 10"]
    by (auto simp: show_nat.simps [of n])
qed

lemma show_nat_not_Nil [simp]: "show_nat n \<noteq> []"
  by (simp add: show_nat.simps [of n])

lemma show_nat_val: "foldl (\<lambda>n c. 10 * n + digit_val c) 0 (show_nat n) = int n"
proof (induction n rule: show_nat.induct)
  case (1 n)
  show ?case
  proof (cases "n < 10")
    case True
    then show ?thesis using digit_char [of n] by (simp add: show_nat.simps [of n])
  next
    case False
    have "10 * (n div 10) + n mod 10 = n" by simp
    then have "10 * int (n div 10) + int (n mod 10) = int n" by linarith
    then show ?thesis
      using False 1 digit_char [of "n mod 10"] by (simp add: show_nat.simps [of n])
  qed
qed

lemma show_nat_length: "n < 10 ^ k \<Longrightarrow> 0 < k \<Longrightarrow> length (show_nat n) \<le> k"
proof (induction k arbitrary: n)
  case (Suc k)
  show ?case
  proof (cases "n < 10")
    case False
    then have "n div 10 < 10 ^ k" "0 < k" using Suc.prems by (auto simp: less_mult_imp_div_less mult.commute intro: gr0I)
    then show ?thesis using Suc.IH [of "n div 10"] False by (simp add: show_nat.simps [of n])
  qed (simp add: show_nat.simps)
qed simp

lemma show_nat_no_NUL: "NUL \<notin> set (show_nat n)"
proof
  assume "NUL \<in> set (show_nat n)"
  with show_nat_digits [of n] have "isdigit NUL" by blast
  then show False by (simp add: isdigit_def)
qed

lemma isdigit_not_space: "isdigit c \<Longrightarrow> \<not> isspace c \<and> c \<noteq> CHR ''-'' \<and> c \<noteq> CHR ''+''"
  by (auto simp: isdigit_def isspace_def)

lemma atoi_show_nat [simp]: "atoi (show_nat n) = int n"
proof -
  obtain c cs where cs: "show_nat n = c # cs" by (cases "show_nat n") auto
  have tw: "takeWhile isdigit (c # cs) = c # cs"
    unfolding takeWhile_eq_all_conv using show_nat_digits [of n] cs by simp
  have "digits_val (c # cs) = int n"
    unfolding digits_val_def tw using show_nat_val [of n] cs by simp
  moreover have "isdigit c" using show_nat_digits [of n] cs by simp
  ultimately show ?thesis using isdigit_not_space [of c] cs by (simp add: atoi_def)
qed

lemma atoi_int_show_nat [simp]: "n < 2147483648 \<Longrightarrow> atoi_int (show_nat n) = Some (int n)"
  by (simp add: atoi_int_def INT_MAX_def)

end
