(* ===== verification/Tokens.thy ===== *)
theory Tokens
  imports C_Prelude
begin

text \<open>
  The string tokenizer \<open>next_token\<close>, which Project1/inspector.c, Project4/www.c,
  Project4/next_token.c and LabWork/Lab7/file_format.c each carry a copy of. It works in
  place: the delimiter after a token is overwritten with a NUL, and the caller's pointer
  moves behind it. The abstract view is the list of the maximal delimiter-free pieces of
  the string (\<open>words_of\<close>); the interface \<open>token_stream\<close> says that a stream hands
  these out one by one, and the clients are verified against it.
\<close>

section \<open>Abstract specification\<close>

function words_of :: "string \<Rightarrow> string \<Rightarrow> string list" where
  "words_of d s =
     (let s' = dropWhile (\<lambda>c. c \<in> set d) s in
      if s' = [] then []
      else takeWhile (\<lambda>c. c \<notin> set d) s' # words_of d (dropWhile (\<lambda>c. c \<notin> set d) s'))"
  by pat_completeness auto
termination
proof (relation "measure (length \<circ> snd)", simp)
  fix d s s' :: string
  assume s': "s' = dropWhile (\<lambda>c. c \<in> set d) s" and ne: "s' \<noteq> []"
  then have "hd s' \<notin> set d" using hd_dropWhile by metis
  with ne have "length (dropWhile (\<lambda>c. c \<notin> set d) s') < length s'"
    by (cases s') (auto simp: le_imp_less_Suc length_dropWhile_le)
  also have "\<dots> \<le> length s" by (simp add: s' length_dropWhile_le)
  finally show "((d, dropWhile (\<lambda>c. c \<notin> set d) s'), d, s) \<in> measure (length \<circ> snd)"
    by simp
qed

declare words_of.simps [simp del]

lemma words_of_Nil [simp]: "words_of d [] = []"
  by (simp add: words_of.simps)

lemma words_of_delim [simp]: "c \<in> set d \<Longrightarrow> words_of d (c # s) = words_of d s"
  by (simp add: words_of.simps [of d "c # s"] words_of.simps [of d s])

lemma words_of_at_word:
  "\<lbrakk>w \<noteq> []; set w \<inter> set d = {}; r = [] \<or> (\<exists>c r'. r = c # r' \<and> c \<in> set d)\<rbrakk> \<Longrightarrow>
   words_of d (w @ r) = w # words_of d r"
proof -
  assume w: "w \<noteq> []" "set w \<inter> set d = {}" and r: "r = [] \<or> (\<exists>c r'. r = c # r' \<and> c \<in> set d)"
  from w have all: "\<And>x. x \<in> set w \<Longrightarrow> x \<notin> set d" by blast
  have "dropWhile (\<lambda>c. c \<in> set d) (w @ r) = w @ r" using w by (cases w) auto
  moreover have "takeWhile (\<lambda>c. c \<notin> set d) (w @ r) = w"
    using r by (subst takeWhile_append2) (auto dest: all)
  moreover have "dropWhile (\<lambda>c. c \<notin> set d) (w @ r) = r"
    using r by (subst dropWhile_append2) (auto dest: all)
  ultimately show ?thesis using w(1) by (simp add: words_of.simps [of d "w @ r"])
qed

lemma words_of_word [simp]:
  "\<lbrakk>w \<noteq> []; set w \<inter> set d = {}; c \<in> set d\<rbrakk> \<Longrightarrow> words_of d (w @ c # s) = w # words_of d s"
  using words_of_at_word [of w d "c # s"] by simp

lemma words_of_last [simp]: "\<lbrakk>w \<noteq> []; set w \<inter> set d = {}\<rbrakk> \<Longrightarrow> words_of d w = [w]"
  using words_of_at_word [of w d "[]"] by simp

lemma words_of_wf: "t \<in> set (words_of d s) \<Longrightarrow> t \<noteq> [] \<and> set t \<inter> set d = {} \<and> set t \<subseteq> set s"
proof (induction d s rule: words_of.induct)
  case (1 d s)
  let ?s' = "dropWhile (\<lambda>c. c \<in> set d) s"
  let ?w = "takeWhile (\<lambda>c. c \<notin> set d) ?s'"
  have ne: "?s' \<noteq> []" using "1.prems" by (auto simp: words_of.simps [of d s] Let_def split: if_splits)
  then have hd: "hd ?s' \<notin> set d" using hd_dropWhile by metis
  have sub: "set (dropWhile (\<lambda>c. c \<notin> set d) ?s') \<subseteq> set s" "set ?w \<subseteq> set s"
    by (auto dest!: set_dropWhileD set_takeWhileD)
  have "words_of d s = ?w # words_of d (dropWhile (\<lambda>c. c \<notin> set d) ?s')"
    using ne by (simp only: words_of.simps [of d s] Let_def if_False)
  with "1.prems" consider "t = ?w" | "t \<in> set (words_of d (dropWhile (\<lambda>c. c \<notin> set d) ?s'))"
    by auto
  then show ?case
  proof cases
    case 1
    with ne hd sub(2) show ?thesis by (cases ?s') (auto dest: set_takeWhileD)
  next
    case 2
    with "1.IH" [OF refl ne] sub(1) show ?thesis by blast
  qed
qed

section \<open>The code\<close>

text \<open>
  \<open>next_token(&ptr, delim)\<close> on a buffer: the new buffer, the new value of the caller's
  pointer and the returned pointer.
\<close>

definition next_token ::
  "buffer \<Rightarrow> nat option \<Rightarrow> string \<Rightarrow> (buffer \<times> nat option \<times> nat option) option" where
  "next_token buf str_ptr delim =
     (case str_ptr of
        None \<Rightarrow> Some (buf, None, None)
      | Some p \<Rightarrow> do {
          tok_start \<leftarrow> strspn_at buf p delim;
          tok_end \<leftarrow> strcspn_at buf (p + tok_start) delim;
          if tok_end \<le> 0 then Some (buf, None, None)
          else do {
            let current_ptr = p + tok_start;
            let q = p + (tok_start + tok_end);
            if buf ! q = NUL then Some (buf, None, Some current_ptr)
            else Some (buf[q := NUL], Some (q + 1), Some current_ptr)
          }
        })"

text \<open>A caller that reads the token right after the call sees the string at the pointer.\<close>

type_synonym tok_state = "buffer \<times> nat option"

definition next_token_str :: "string \<Rightarrow> tok_state \<Rightarrow> (tok_state \<times> string option) option" where
  "next_token_str delim st = (case st of (buf, str_ptr) \<Rightarrow> do {
     (buf', ptr', tok) \<leftarrow> next_token buf str_ptr delim;
     case tok of
       None \<Rightarrow> Some ((buf', ptr'), None)
     | Some t \<Rightarrow> do { s \<leftarrow> cstr_at buf' t; Some ((buf', ptr'), Some s) }
   })"

text \<open>
  The loop \<open>while ((curr_tok = next_token(...)) != NULL)\<close> of \<open>main\<close> in
  Project4/next_token.c, which prints each token with its number, and the program's
  \<open>main\<close> itself.
\<close>

partial_function (option) token_loop ::
  "('st \<Rightarrow> ('st \<times> string option) option) \<Rightarrow> 'st \<Rightarrow> (nat \<times> string) list \<Rightarrow> nat \<Rightarrow>
   (nat \<times> string) list option" where
  "token_loop next st printed tokens = do {
     (st', tok) \<leftarrow> next st;
     case tok of
       None \<Rightarrow> Some printed
     | Some t \<Rightarrow> token_loop next st' (printed @ [(tokens, t)]) (tokens + 1)
   }"

definition next_token_demo :: "(nat \<times> string) list option" where
  "next_token_demo =
     token_loop (next_token_str '' ,?!'')
       (''     This is a really great string, is it not?!'' @ [NUL], Some 0) [] 0"

section \<open>The interface\<close>

text \<open>
  A token stream: \<open>rest\<close> is the list of the tokens still to come. \<open>next\<close> returns the
  first of them and keeps the others, and returns \<open>NULL\<close> for ever when none is left.
\<close>

locale token_stream =
  fixes next_tok :: "'st \<Rightarrow> ('st \<times> string option) option"
    and rest :: "'st \<Rightarrow> string list"
    and wf :: "'st \<Rightarrow> bool"
  assumes next_Nil: "\<lbrakk>wf st; rest st = []\<rbrakk> \<Longrightarrow>
      \<exists>st'. next_tok st = Some (st', None) \<and> wf st' \<and> rest st' = []"
    and next_Cons: "\<lbrakk>wf st; rest st = t # ts\<rbrakk> \<Longrightarrow>
      \<exists>st'. next_tok st = Some (st', Some t) \<and> wf st' \<and> rest st' = ts"
begin

lemma loop_drains:
  "wf st \<Longrightarrow> token_loop next_tok st acc n = Some (acc @ enumerate n (rest st))"
proof (induction "rest st" arbitrary: st acc n)
  case Nil
  then show ?case using next_Nil [of st] by (subst token_loop.simps) auto
next
  case (Cons t ts)
  from next_Cons [OF Cons.prems Cons.hyps(2) [symmetric]] obtain st' where
    st': "next_tok st = Some (st', Some t)" "wf st'" "rest st' = ts" by blast
  have "token_loop next_tok st acc n = token_loop next_tok st' (acc @ [(n, t)]) (n + 1)"
    by (subst token_loop.simps) (simp add: st'(1))
  also have "\<dots> = Some ((acc @ [(n, t)]) @ enumerate (n + 1) (rest st'))"
    using Cons.hyps(1) st' by blast
  also have "(acc @ [(n, t)]) @ enumerate (n + 1) (rest st') = acc @ enumerate n (rest st)"
    using st'(3) Cons.hyps(2) by (metis append.assoc append_Cons append_Nil enumerate_simps(2) Suc_eq_plus1)
  finally show ?case .
qed

end

section \<open>\<open>next_token\<close> is a token stream\<close>

definition tok_rest :: "string \<Rightarrow> tok_state \<Rightarrow> string list" where
  "tok_rest delim st = (case st of
      (buf, None) \<Rightarrow> []
    | (buf, Some p) \<Rightarrow> (case cstr_at buf p of None \<Rightarrow> [] | Some s \<Rightarrow> words_of delim s))"

definition tok_wf :: "tok_state \<Rightarrow> bool" where
  "tok_wf st = (case st of (buf, None) \<Rightarrow> True | (buf, Some p) \<Rightarrow> cstr_at buf p \<noteq> None)"


text \<open>A string starts with delimiters, then a word, then the end or a delimiter.\<close>

lemma span_not:
  obtains w r where "s = w @ r" "\<forall>c \<in> set w. P c" "r = [] \<or> (\<exists>c r'. r = c # r' \<and> \<not> P c)"
proof (induction s arbitrary: thesis)
  case (Cons c s)
  show ?case
  proof (cases "P c")
    case True
    obtain w r where "s = w @ r" "\<forall>c \<in> set w. P c" "r = [] \<or> (\<exists>c r'. r = c # r' \<and> \<not> P c)"
      using Cons.IH by blast
    with True show ?thesis by (intro Cons.prems [of "c # w" r]) auto
  next
    case False
    then show ?thesis by (intro Cons.prems [of "[]" "c # s"]) auto
  qed
qed simp

lemma split_word:
  obtains ds w r where "s = ds @ w @ r" "set ds \<subseteq> set d" "set w \<inter> set d = {}"
    "w = [] \<longrightarrow> r = []" "r = [] \<or> (\<exists>c r'. r = c # r' \<and> c \<in> set d)"
proof -
  obtain ds s' where s: "s = ds @ s'" "\<forall>c \<in> set ds. c \<in> set d"
    and s': "s' = [] \<or> (\<exists>c r'. s' = c # r' \<and> c \<notin> set d)"
    by (rule span_not [where P = "\<lambda>c. c \<in> set d"])
  obtain w r where w: "s' = w @ r" "\<forall>c \<in> set w. c \<notin> set d"
    and r: "r = [] \<or> (\<exists>c r'. r = c # r' \<and> \<not> c \<notin> set d)"
    by (rule span_not [where P = "\<lambda>c. c \<notin> set d"])
  show thesis
    by (rule that [of ds w r]) (use s s' w r in auto)
qed

lemma strspn_append: "set ds \<subseteq> set d \<Longrightarrow> strspn (ds @ s) d = length ds + strspn s d"
  by (auto simp: strspn_def takeWhile_append)

lemma strspn_word: "\<lbrakk>set w \<inter> set d = {}; w = [] \<longrightarrow> r = []\<rbrakk> \<Longrightarrow> strspn (w @ r) d = 0"
  by (cases w) (auto simp: strspn_def)

lemma strcspn_word:
  "\<lbrakk>set w \<inter> set d = {}; r = [] \<or> (\<exists>c r'. r = c # r' \<and> c \<in> set d)\<rbrakk> \<Longrightarrow> strcspn (w @ r) d = length w"
  by (auto simp: strcspn_def takeWhile_append takeWhile_eq_all_conv disjoint_iff)

lemma words_of_skip: "set ds \<subseteq> set d \<Longrightarrow> words_of d (ds @ s) = words_of d s"
  by (induction ds) auto

text \<open>A call on a terminated string.\<close>

lemma next_token_cstr:
  "cstr_at buf p = Some s \<Longrightarrow> next_token buf (Some p) d =
     (let a = strspn s d; b = strcspn (drop a s) d; q = p + (a + b) in
      if b \<le> 0 then Some (buf, None, None)
      else if buf ! q = NUL then Some (buf, None, Some (p + a))
      else Some (buf[q := NUL], Some (q + 1), Some (p + a)))"
  using strcspn_at_cstr [of buf p s "strspn s d" d] by (simp add: next_token_def Let_def strspn_le)

lemma next_token_null [simp]: "next_token buf None d = Some (buf, None, None)"
  by (simp add: next_token_def)

text \<open>The three outcomes of a call on a well-formed stream.\<close>

lemma next_token_none:
  "\<lbrakk>cstr_at buf p = Some ds; set ds \<subseteq> set d\<rbrakk> \<Longrightarrow> next_token buf (Some p) d = Some (buf, None, None)"
  using strspn_append [of ds d "[]"] by (simp add: next_token_cstr strcspn_def)

lemma next_token_last:
  assumes "cstr_at buf p = Some (ds @ w)" "set ds \<subseteq> set d" "set w \<inter> set d = {}" "w \<noteq> []"
  shows "next_token buf (Some p) d = Some (buf, None, Some (p + length ds))"
    and "cstr_at buf (p + length ds) = Some w"
proof -
  from cstr_at_SomeD [OF assms(1)] obtain post
    where nul: "NUL \<notin> set (ds @ w)" and buf: "buf = take p buf @ (ds @ w) @ NUL # post"
      and p: "p \<le> length buf" by blast
  have "buf ! (p + (length ds + length w)) = NUL"
    using p by (subst buf) (simp add: nth_append)
  moreover have "strspn (ds @ w) d = length ds"
    using assms by (simp add: strspn_append strspn_word [of w d "[]", simplified])
  moreover have "strcspn w d = length w"
    using strcspn_word [of w d "[]"] assms(3) by simp
  ultimately show "next_token buf (Some p) d = Some (buf, None, Some (p + length ds))"
    using assms by (simp add: next_token_cstr)
  show "cstr_at buf (p + length ds) = Some w"
    using cstr_at_append [of w "take p buf @ ds" "p + length ds" post] nul p
    by (subst buf) simp
qed

lemma next_token_more:
  assumes "cstr_at buf p = Some (ds @ w @ c # r)" "set ds \<subseteq> set d" "set w \<inter> set d = {}"
    "w \<noteq> []" "c \<in> set d"
  obtains buf' where
    "next_token buf (Some p) d = Some (buf', Some (p + length ds + length w + 1), Some (p + length ds))"
    "cstr_at buf' (p + length ds) = Some w"
    "cstr_at buf' (p + length ds + length w + 1) = Some r"
    "buf' = buf[p + length ds + length w := NUL]"
proof
  let ?q = "p + length ds + length w"
  from cstr_at_SomeD [OF assms(1)] obtain post
    where nul: "NUL \<notin> set (ds @ w @ c # r)"
      and buf: "buf = take p buf @ (ds @ w @ c # r) @ NUL # post"
      and p: "p \<le> length buf" by blast
  have buf': "buf[?q := NUL] = (take p buf @ ds) @ w @ NUL # r @ NUL # post"
    using p by (subst buf) (simp add: list_update_append)
  have "buf ! ?q = c"
    using p by (subst buf) (simp add: nth_append)
  moreover have "strspn (ds @ w @ c # r) d = length ds"
    using assms strspn_word [of w d "c # r"] by (simp add: strspn_append)
  moreover have "strcspn (w @ c # r) d = length w"
    using strcspn_word [of w d "c # r"] assms by simp
  ultimately show
    "next_token buf (Some p) d = Some (buf[?q := NUL], Some (?q + 1), Some (p + length ds))"
    using assms nul by (auto simp: next_token_cstr add.assoc Let_def)
  show "cstr_at (buf[?q := NUL]) (p + length ds) = Some w"
    unfolding buf' using nul p by (intro cstr_at_append) auto
  have "buf[?q := NUL] = (take p buf @ ds @ w @ [NUL]) @ r @ NUL # post" by (simp add: buf')
  then show "cstr_at (buf[?q := NUL]) (?q + 1) = Some r"
    using nul p cstr_at_append [of r "take p buf @ ds @ w @ [NUL]" "?q + 1" post] by simp
qed simp

text \<open>Every well-formed state either hands out its first word or is at its end.\<close>

lemma next_token_str_step:
  assumes "cstr_at buf p = Some s"
  shows "(words_of d s = [] \<and> next_token_str d (buf, Some p) = Some ((buf, None), None))
    \<or> (\<exists>st' t ts. words_of d s = t # ts \<and> next_token_str d (buf, Some p) = Some (st', Some t)
          \<and> tok_wf st' \<and> tok_rest d st' = ts)"
proof -
  obtain ds w r where s: "s = ds @ w @ r" and ds: "set ds \<subseteq> set d" and w: "set w \<inter> set d = {}"
    and wr: "w = [] \<longrightarrow> r = []" and r: "r = [] \<or> (\<exists>c r'. r = c # r' \<and> c \<in> set d)"
    by (rule split_word [of s d])
  consider (none) "w = []" | (last) "w \<noteq> []" "r = []"
    | (more) c r' where "w \<noteq> []" "r = c # r'" "c \<in> set d"
    using r by blast
  then show ?thesis
  proof cases
    case none
    then show ?thesis
      using next_token_none [of buf p ds d] assms s ds wr words_of_skip [of ds d "[]"]
      by (simp add: next_token_str_def)
  next
    case last
    then show ?thesis
      using next_token_last [of buf p ds w d] assms s ds w
      by (simp add: next_token_str_def words_of_skip tok_wf_def tok_rest_def)
  next
    case more
    then obtain buf' where
      "next_token buf (Some p) d =
         Some (buf', Some (p + length ds + length w + 1), Some (p + length ds))"
      "cstr_at buf' (p + length ds) = Some w"
      "cstr_at buf' (p + length ds + length w + 1) = Some r'"
      using next_token_more [of buf p ds w c r' d] assms s ds w by metis
    then show ?thesis
      using more s ds w by (simp add: next_token_str_def words_of_skip tok_wf_def tok_rest_def)
  qed
qed

interpretation nt: token_stream "next_token_str d" "tok_rest d" tok_wf for d
proof unfold_locales
  fix st
  assume wf: "tok_wf st" and r: "tok_rest d st = []"
  show "\<exists>st'. next_token_str d st = Some (st', None) \<and> tok_wf st' \<and> tok_rest d st' = []"
  proof (cases "snd st")
    case None
    then show ?thesis
      by (cases st) (auto simp: tok_wf_def tok_rest_def next_token_str_def next_token_cstr)
  next
    case (Some p)
    with wf r obtain buf s where "st = (buf, Some p)" "cstr_at buf p = Some s" "words_of d s = []"
      by (cases st) (auto simp: tok_wf_def tok_rest_def)
    then show ?thesis
      using next_token_str_step [of buf p s d] by (auto simp: tok_wf_def tok_rest_def)
  qed
next
  fix st t ts
  assume wf: "tok_wf st" and r: "tok_rest d st = t # ts"
  then obtain buf p s where "st = (buf, Some p)" "cstr_at buf p = Some s" "words_of d s = t # ts"
    by (cases st) (auto simp: tok_wf_def tok_rest_def split: option.splits)
  then show "\<exists>st'. next_token_str d st = Some (st', Some t) \<and> tok_wf st' \<and> tok_rest d st' = ts"
    using next_token_str_step [of buf p s d] by auto
qed

section \<open>Text with unknown bytes behind it\<close>

text \<open>
  A buffer that was filled by \<open>read\<close> holds the bytes of the file and behind them whatever was
  there before, with or without a NUL. As long as every word of the text is followed by a
  delimiter the tokenizer does not look behind the text.
\<close>

definition closed_text :: "string \<Rightarrow> string \<Rightarrow> bool" where
  "closed_text d s \<longleftrightarrow> NUL \<notin> set s \<and> NUL \<notin> set d \<and> (s = [] \<or> last s \<in> set d)"

lemma next_token_ahead:
  assumes b: "drop p buf = ds @ w @ c # r" and ds: "set ds \<subseteq> set d" "NUL \<notin> set ds"
    and w: "w \<noteq> []" "set w \<inter> set d = {}" "NUL \<notin> set w" and c: "c \<in> set d" "c \<noteq> NUL"
  shows "\<exists>buf'. next_token_str d (buf, Some p) = Some ((buf', Some (p + length ds + length w + 1)), Some w)
    \<and> drop (p + length ds + length w + 1) buf' = r \<and> length buf' = length buf"
proof -
  let ?q = "p + (length ds + length w)"
  obtain x xs where x: "w = x # xs" using w(1) by (cases w) auto
  have p: "p \<le> length buf" using b x by (cases "p \<le> length buf") auto
  have d1: "drop (p + length ds) buf = w @ c # r"
    using b by (metis append_eq_conv_conj add.commute drop_drop)
  have dq: "drop ?q buf = c # r"
    using d1 by (metis append_eq_conv_conj add.assoc add.commute drop_drop)
  have "strspn_at buf p d = Some (length ds)"
    unfolding strspn_at_def using b ds w x by (intro scan_at_before [where c = x]) auto
  moreover have "strcspn_at buf (p + length ds) d = Some (length w)"
    unfolding strcspn_at_def using d1 w c by (intro scan_at_before [where c = c]) auto
  moreover have q: "?q < length buf" "buf ! ?q = c"
    using dq by (metis drop_eq_Nil linorder_not_le list.distinct(1)) (metis dq nth_via_drop)
  ultimately have n: "next_token buf (Some p) d = Some (buf[?q := NUL], Some (?q + 1), Some (p + length ds))"
    using w(1) c(2) by (simp add: next_token_def Let_def)
  have "buf = take p buf @ ds @ w @ c # r" using b by (metis append_take_drop_id)
  then have "buf[?q := NUL] = (take p buf @ ds) @ w @ NUL # r"
    using p by (metis (no_types, lifting) append.assoc append_take_drop_id b length_append length_take
        list_update_length min.absorb2 add.assoc)
  then have "cstr_at (buf[?q := NUL]) (p + length ds) = Some w" "drop (?q + 1) (buf[?q := NUL]) = r"
    using w(3) p cstr_at_append [of w "take p buf @ ds" "p + length ds" r] by (simp_all add: min.absorb2)
  with n show ?thesis by (simp add: next_token_str_def add.assoc)
qed

lemma ahead_step:
  assumes b: "drop p buf = s @ j" and cl: "closed_text d s" and ws: "words_of d s = t # ts"
  shows "\<exists>buf' p' s'. next_token_str d (buf, Some p) = Some ((buf', Some p'), Some t)
    \<and> drop p' buf' = s' @ j \<and> closed_text d s' \<and> words_of d s' = ts \<and> length buf' = length buf"
proof -
  obtain ds w r where s: "s = ds @ w @ r" and ds: "set ds \<subseteq> set d" and w: "set w \<inter> set d = {}"
    and wr: "w = [] \<longrightarrow> r = []" and r: "r = [] \<or> (\<exists>c r'. r = c # r' \<and> c \<in> set d)"
    by (rule split_word [of s d])
  have "w \<noteq> []" using ws s wr words_of_skip [OF ds, of "[]"] by auto
  have "r \<noteq> []"
  proof
    assume "r = []"
    then have "last w \<in> set d" using cl s \<open>w \<noteq> []\<close> by (simp add: closed_text_def)
    then show False using w last_in_set [OF \<open>w \<noteq> []\<close>] by blast
  qed
  then obtain c r' where c: "r = c # r'" "c \<in> set d" using r by blast
  have cl': "closed_text d r'" using cl s c by (cases r') (auto simp: closed_text_def)
  have "words_of d s = w # words_of d r'" using s ds w c \<open>w \<noteq> []\<close> by (simp add: words_of_skip)
  with ws have t: "t = w" "ts = words_of d r'" by simp_all
  obtain buf' where "next_token_str d (buf, Some p) = Some ((buf', Some (p + length ds + length w + 1)), Some w)"
    "drop (p + length ds + length w + 1) buf' = r' @ j" "length buf' = length buf"
    using next_token_ahead [of p buf ds w c "r' @ j" d] b s c ds w \<open>w \<noteq> []\<close> cl by (auto simp: closed_text_def)
  with cl' t show ?thesis by blast
qed

section \<open>Properties\<close>

text \<open>
  C13: calling \<open>next_token\<close> until it returns NULL hands out, in order and numbered from 0,
  exactly the maximal delimiter-free pieces of the string; the loop ends and stays in the buffer.
\<close>

theorem next_token_tokenizes:
  assumes "NUL \<notin> set s"
  shows "token_loop (next_token_str d) (s @ [NUL], Some 0) [] 0 = Some (enumerate 0 (words_of d s))"
proof -
  have "cstr_at (s @ [NUL]) 0 = Some s" using cstr_at_append [of s "[]" 0 "[]"] assms by simp
  then show ?thesis
    using nt.loop_drains [of "(s @ [NUL], Some 0)" d "[]" 0] by (simp add: tok_wf_def tok_rest_def)
qed

theorem next_token_tokenizes_witness:
  "next_token_demo = Some [(0, ''This''), (1, ''is''), (2, ''a''), (3, ''really''), (4, ''great''),
     (5, ''string''), (6, ''is''), (7, ''it''), (8, ''not'')]"
proof -
  have "next_token_demo
      = Some (enumerate 0 (words_of '' ,?!'' ''     This is a really great string, is it not?!''))"
    unfolding next_token_demo_def by (rule next_token_tokenizes) simp
  then show ?thesis by (simp add: words_of.simps eval_nat_numeral)
qed

text \<open>
  One call of \<open>next_token\<close> changes at most one byte of the buffer, the delimiter behind the
  token it returns, and that byte was a delimiter; the buffer never changes its length.
\<close>

theorem next_token_in_place:
  assumes "cstr_at buf p = Some s" and "next_token buf (Some p) d = Some (buf', ptr', tok)"
  shows "buf' = buf \<or> (\<exists>q. p \<le> q \<and> q < p + length s \<and> buf ! q \<in> set d \<and> buf' = buf[q := NUL]
    \<and> ptr' = Some (q + 1))"
proof -
  from cstr_at_SomeD [OF assms(1)] obtain post
    where nul: "NUL \<notin> set s" and buf: "buf = take p buf @ s @ NUL # post" and p: "p \<le> length buf" by blast
  let ?a = "strspn s d" and ?b = "strcspn (drop (strspn s d) s) d"
  let ?q = "p + (?a + ?b)"
  have idx: "buf ! (p + i) = (s @ [NUL]) ! i" if "i \<le> length s" for i
    using that p by (subst buf) (auto simp: nth_append)
  have a: "?a \<le> length s" by (simp add: strspn_def length_takeWhile_le)
  then have b: "?a + ?b \<le> length s"
    using length_takeWhile_le [of "\<lambda>c. c \<notin> set d" "drop ?a s"] by (simp add: strcspn_def)
  show ?thesis
  proof (cases "?b = 0 \<or> buf ! ?q = NUL")
    case True
    then show ?thesis using assms by (auto simp: next_token_cstr Let_def split: if_splits)
  next
    case False
    have ne: "?a + ?b \<noteq> length s" using False idx [of "?a + ?b"] by (auto simp: nth_append)
    then have lt: "?a + ?b < length s" using b by simp
    have "drop ?a s ! ?b \<in> set d"
    proof -
      have "?b < length (drop ?a s)" using lt by simp
      then have "\<not> (drop ?a s ! ?b \<notin> set d)"
        unfolding strcspn_def by (metis nth_length_takeWhile)
      then show ?thesis by simp
    qed
    then have "buf ! ?q \<in> set d" using lt idx [of "?a + ?b"] by (simp add: nth_append)
    moreover have "buf' = buf[?q := NUL]" "ptr' = Some (?q + 1)"
      using assms False by (auto simp: next_token_cstr Let_def)
    ultimately show ?thesis using lt by (intro disjI2 exI [of _ ?q]) simp
  qed
qed

theorem next_token_in_place_witness:
  "next_token (''a b'' @ [NUL]) (Some 0) '' '' = Some (''a'' @ NUL # ''b'' @ [NUL], Some 2, Some 0)
   \<and> (\<exists>q \<ge> 0. q < 3 \<and> (''a b'' @ [NUL]) ! q \<in> set '' '')"
proof -
  have c: "cstr_at (''a b'' @ [NUL]) 0 = Some ''a b''" by (simp add: cstr_at_def)
  have n: "next_token (''a b'' @ [NUL]) (Some 0) '' '' = Some (''a'' @ NUL # ''b'' @ [NUL], Some 2, Some 0)"
    by (simp add: next_token_cstr cstr_at_def strspn_def strcspn_def)
  from next_token_in_place [OF c n]
  have "\<exists>q. 0 \<le> q \<and> q < 0 + length ''a b'' \<and> (''a b'' @ [NUL]) ! q \<in> set '' ''" by fastforce
  then show ?thesis using n by (simp add: eval_nat_numeral)
qed

end
