(* ===== verification/Allocator.thy ===== *)
theory Allocator
  imports C_Prelude
begin

text \<open>
  The memory allocator, Project3/allocator.c: the linked list of blocks, the three
  reuse algorithms, \<open>malloc\<close>, \<open>free\<close>, \<open>calloc\<close>, \<open>realloc\<close> and the two printers.

  Memory is a store with typed headers: \<open>hdrs\<close> maps an address to the \<open>struct mem_block\<close>
  that was written there, \<open>bytes\<close> holds the payload bytes, \<open>maps\<close> lists the areas the
  process has mapped. Every write destroys the headers it overlaps, and a read of an address
  with no header, or a write outside the mapped areas, has no defined result; so a theorem
  that an operation returns \<open>Some\<close> also says that headers and payloads do not clobber each
  other. The kernel's \<open>mmap\<close>, \<open>munmap\<close> and the environment variables are parameters.
\<close>

section \<open>Data\<close>

text \<open>\<open>struct mem_block\<close>; \<open>sizeof(struct mem_block)\<close> is six 8-byte words.\<close>

record mem_block =
  alloc_id :: u64
  bsize :: u64
  usage :: u64
  region_start :: u64
  region_size :: u64
  nxt :: u64

definition HDR :: u64 where
  "HDR = 48"

text \<open>The globals \<open>g_head\<close> and \<open>g_allocations\<close>, and the memory of the process.\<close>

record alloc_state =
  g_head :: u64
  g_allocations :: u64
  hdrs :: "u64 \<Rightarrow> mem_block option"
  maps :: "(u64 \<times> u64) list"
  bytes :: "u64 \<Rightarrow> u8"

text \<open>
  What the code asks of its surroundings: \<open>getenv("ALLOCATOR_ALGORITHM")\<close>, whether
  \<open>getenv("ALLOCATOR_SCRIBBLE")\<close> is set, \<open>getpagesize()\<close>, and the answers of \<open>mmap\<close>
  (\<open>None\<close> for \<open>MAP_FAILED\<close>) and \<open>munmap\<close> (whether it returns 0).
\<close>

record alloc_env =
  algorithm :: "string option"
  scribble :: bool
  page_sz :: u64
  mmap :: "(u64 \<times> u64) list \<Rightarrow> u64 \<Rightarrow> u64 option"
  munmap_ok :: "u64 \<Rightarrow> u64 \<Rightarrow> bool"

definition alloc_init :: alloc_state where
  "alloc_init =
     \<lparr>g_head = 0, g_allocations = 0, hdrs = (\<lambda>_. None), maps = [], bytes = (\<lambda>_. 0)\<rparr>"

section \<open>Memory accesses\<close>

definition in_range :: "u64 \<Rightarrow> nat \<Rightarrow> u64 \<Rightarrow> bool" where
  "in_range p n x \<longleftrightarrow> unat p \<le> unat x \<and> unat x < unat p + n"

definition mapped :: "alloc_state \<Rightarrow> u64 \<Rightarrow> nat \<Rightarrow> bool" where
  "mapped s p n \<longleftrightarrow>
     list_ex (\<lambda>(m, l). unat m \<le> unat p \<and> unat p + n \<le> unat m + unat l) (maps s)"

text \<open>A write of \<open>n\<close> bytes at \<open>p\<close> destroys the headers it overlaps.\<close>

definition wipe :: "u64 \<Rightarrow> nat \<Rightarrow> (u64 \<Rightarrow> mem_block option) \<Rightarrow> u64 \<Rightarrow> mem_block option" where
  "wipe p n h = (\<lambda>x. if unat p < unat x + 48 \<and> unat x < unat p + n then None else h x)"

definition store_hdr :: "u64 \<Rightarrow> mem_block \<Rightarrow> alloc_state \<Rightarrow> alloc_state option" where
  "store_hdr p b s =
     (if mapped s p 48 then Some (s\<lparr>hdrs := (wipe p 48 (hdrs s))(p \<mapsto> b)\<rparr>) else None)"

definition memset :: "u64 \<Rightarrow> u8 \<Rightarrow> u64 \<Rightarrow> alloc_state \<Rightarrow> alloc_state option" where
  "memset p v n s =
     (if n = 0 then Some s
      else if mapped s p (unat n)
      then Some (s\<lparr>hdrs := wipe p (unat n) (hdrs s),
                   bytes := (\<lambda>x. if in_range p (unat n) x then v else bytes s x)\<rparr>)
      else None)"

text \<open>The kernel's side of \<open>mmap\<close> (zero-filled memory) and \<open>munmap\<close>.\<close>

definition map_area :: "u64 \<Rightarrow> u64 \<Rightarrow> alloc_state \<Rightarrow> alloc_state" where
  "map_area p n s = s\<lparr>maps := maps s @ [(p, n)],
     bytes := (\<lambda>x. if in_range p (unat n) x then 0 else bytes s x)\<rparr>"

definition cut_area :: "u64 \<Rightarrow> u64 \<Rightarrow> u64 \<times> u64 \<Rightarrow> (u64 \<times> u64) list" where
  "cut_area p n = (\<lambda>(m, l).
     if unat m < unat p + unat n \<and> unat p < unat m + unat l
     then (if m < p then [(m, p - m)] else []) @
          (if unat p + unat n < unat m + unat l then [(p + n, m + l - (p + n))] else [])
     else [(m, l)])"

definition unmap_area :: "u64 \<Rightarrow> u64 \<Rightarrow> alloc_state \<Rightarrow> alloc_state" where
  "unmap_area p n s = s\<lparr>maps := concat (map (cut_area p n) (maps s)),
     hdrs := wipe p (unat n) (hdrs s)\<rparr>"

section \<open>\<open>reuse\<close>: the three algorithms\<close>

partial_function (option) first_fit_loop ::
  "(u64 \<Rightarrow> mem_block option) \<Rightarrow> u64 \<Rightarrow> u64 \<Rightarrow> u64 option" where
  "first_fit_loop h sz current =
     (if current = 0 then Some current
      else do {
        b \<leftarrow> h current;
        if bsize b - usage b > sz + HDR then Some current
        else first_fit_loop h sz (nxt b)
      })"

partial_function (option) best_fit_loop ::
  "(u64 \<Rightarrow> mem_block option) \<Rightarrow> u64 \<Rightarrow> u64 \<Rightarrow> u64 \<Rightarrow> u64 \<Rightarrow> u64 option" where
  "best_fit_loop h sz current ret best =
     (if current = 0 then Some ret
      else do {
        b \<leftarrow> h current;
        if bsize b - usage b \<ge> sz + HDR then
          (if bsize b - usage b \<le> best
           then best_fit_loop h sz (nxt b) current (bsize b - usage b)
           else best_fit_loop h sz (nxt b) ret best)
        else best_fit_loop h sz (nxt b) ret best
      })"

partial_function (option) worst_fit_loop ::
  "(u64 \<Rightarrow> mem_block option) \<Rightarrow> u64 \<Rightarrow> u64 \<Rightarrow> u64 \<Rightarrow> u64 \<Rightarrow> u64 option" where
  "worst_fit_loop h sz current ret worst =
     (if current = 0 then Some ret
      else do {
        b \<leftarrow> h current;
        if bsize b - usage b \<ge> sz + HDR then
          (if bsize b - usage b \<ge> worst
           then worst_fit_loop h sz (nxt b) current (bsize b - usage b)
           else worst_fit_loop h sz (nxt b) ret worst)
        else worst_fit_loop h sz (nxt b) ret worst
      })"

definition first_fit :: "(u64 \<Rightarrow> mem_block option) \<Rightarrow> u64 \<Rightarrow> u64 \<Rightarrow> u64 option" where
  "first_fit h head sz = first_fit_loop h sz head"

definition best_fit :: "(u64 \<Rightarrow> mem_block option) \<Rightarrow> u64 \<Rightarrow> u64 \<Rightarrow> u64 option" where
  "best_fit h head sz = best_fit_loop h sz head 0 (word_of_int INT_MAX)"

definition worst_fit :: "(u64 \<Rightarrow> mem_block option) \<Rightarrow> u64 \<Rightarrow> u64 \<Rightarrow> u64 option" where
  "worst_fit h head sz = worst_fit_loop h sz head 0 0"

definition reuse :: "alloc_env \<Rightarrow> u64 \<Rightarrow> alloc_state \<Rightarrow> u64 option" where
  "reuse env sz s =
     (let algo = (case algorithm env of None \<Rightarrow> ''first_fit'' | Some a \<Rightarrow> a) in
      if algo = ''first_fit'' then first_fit (hdrs s) (g_head s) sz
      else if algo = ''best_fit'' then best_fit (hdrs s) (g_head s) sz
      else if algo = ''worst_fit'' then worst_fit (hdrs s) (g_head s) sz
      else Some 0)"

section \<open>\<open>malloc\<close>\<close>

definition align8 :: "u64 \<Rightarrow> u64" where
  "align8 sz = (if sz mod 8 \<noteq> 0 then sz + (8 - sz mod 8) else sz)"

definition scribbled :: "alloc_env \<Rightarrow> u64 \<Rightarrow> u64 \<Rightarrow> alloc_state \<Rightarrow> alloc_state option" where
  "scribbled env p sz s = (if scribble env then memset p 0xAA sz s else Some s)"

text \<open>The two ways to reuse a block: take a free one, or split the unused tail off.\<close>

definition take_block ::
  "alloc_env \<Rightarrow> u64 \<Rightarrow> u64 \<Rightarrow> alloc_state \<Rightarrow> (u64 \<times> alloc_state) option" where
  "take_block env r sz s = do {
     b \<leftarrow> hdrs s r;
     let real_sz = sz + HDR;
     s1 \<leftarrow> store_hdr r (b\<lparr>alloc_id := g_allocations s, usage := real_sz\<rparr>) s;
     let s2 = s1\<lparr>g_allocations := g_allocations s1 + 1\<rparr>;
     s3 \<leftarrow> scribbled env (r + HDR) sz s2;
     Some (r + HDR, s3)
   }"

definition split_block ::
  "alloc_env \<Rightarrow> u64 \<Rightarrow> u64 \<Rightarrow> alloc_state \<Rightarrow> (u64 \<times> alloc_state) option" where
  "split_block env r sz s = do {
     b \<leftarrow> hdrs s r;
     let real_sz = sz + HDR;
     let block = r + usage b;
     s1 \<leftarrow> store_hdr block
       \<lparr>alloc_id = g_allocations s, bsize = bsize b - usage b, usage = real_sz,
        region_start = region_start b, region_size = region_size b, nxt = nxt b\<rparr> s;
     let s2 = s1\<lparr>g_allocations := g_allocations s1 + 1\<rparr>;
     b' \<leftarrow> hdrs s2 r;
     s3 \<leftarrow> store_hdr r (b'\<lparr>bsize := usage b', nxt := block\<rparr>) s2;
     s4 \<leftarrow> scribbled env (block + HDR) sz s3;
     Some (block + HDR, s4)
   }"

text \<open>The loop that links a new region behind the last block.\<close>

partial_function (option) append_loop ::
  "u64 \<Rightarrow> u64 \<Rightarrow> alloc_state \<Rightarrow> alloc_state option" where
  "append_loop current block s =
     (if current = 0 then Some s
      else do {
        b \<leftarrow> hdrs s current;
        if nxt b = 0 then store_hdr current (b\<lparr>nxt := block\<rparr>) s
        else append_loop (nxt b) block s
      })"

definition new_region ::
  "alloc_env \<Rightarrow> u64 \<Rightarrow> alloc_state \<Rightarrow> (u64 \<times> alloc_state) option" where
  "new_region env sz s =
     (let real_sz = sz + HDR;
          pages = real_sz div page_sz env;
          pages = (if real_sz mod page_sz env \<noteq> 0 then pages + 1 else pages);
          region_sz = pages * page_sz env in
      case mmap env (maps s) region_sz of
        None \<Rightarrow> Some (0, s)
      | Some block \<Rightarrow> do {
          s1 \<leftarrow> store_hdr block
            \<lparr>alloc_id = g_allocations s, bsize = region_sz, usage = real_sz,
             region_start = block, region_size = region_sz, nxt = 0\<rparr>
            (map_area block region_sz s);
          let s2 = s1\<lparr>g_allocations := g_allocations s1 + 1\<rparr>;
          s3 \<leftarrow> (if g_head s2 = 0 then Some (s2\<lparr>g_head := block\<rparr>)
                else append_loop (g_head s2) block s2);
          s4 \<leftarrow> scribbled env (block + HDR) sz s3;
          Some (block + HDR, s4)
        })"

definition malloc :: "alloc_env \<Rightarrow> u64 \<Rightarrow> alloc_state \<Rightarrow> (u64 \<times> alloc_state) option" where
  "malloc env req s = do {
     let sz = align8 req;
     reusable_block \<leftarrow> reuse env sz s;
     if reusable_block \<noteq> 0 then do {
       b \<leftarrow> hdrs s reusable_block;
       if usage b = 0 then take_block env reusable_block sz s
       else split_block env reusable_block sz s
     }
     else new_region env sz s
   }"

section \<open>\<open>free\<close>\<close>

text \<open>The scan of the region: whether all its blocks are free, and where the scan stopped.\<close>

partial_function (option) scan_loop ::
  "(u64 \<Rightarrow> mem_block option) \<Rightarrow> u64 \<Rightarrow> u64 \<Rightarrow> (bool \<times> u64) option" where
  "scan_loop h start current =
     (if current = 0 then Some (True, current)
      else do {
        b \<leftarrow> h current;
        if region_start b \<noteq> start then Some (True, current)
        else if usage b \<noteq> 0 then Some (False, current)
        else scan_loop h start (nxt b)
      })"

partial_function (option) find_prev_loop ::
  "(u64 \<Rightarrow> mem_block option) \<Rightarrow> u64 \<Rightarrow> u64 \<Rightarrow> u64 option" where
  "find_prev_loop h target tmp =
     (if tmp = 0 then Some tmp
      else do {
        b \<leftarrow> h tmp;
        if nxt b = target then Some tmp else find_prev_loop h target (nxt b)
      })"

definition unlink_region :: "u64 \<Rightarrow> u64 \<Rightarrow> alloc_state \<Rightarrow> alloc_state option" where
  "unlink_region start current s =
     (if g_head s = start then Some (s\<lparr>g_head := current\<rparr>)
      else do {
        tmp \<leftarrow> find_prev_loop (hdrs s) start (g_head s);
        b \<leftarrow> (if tmp = 0 then None else hdrs s tmp);
        store_hdr tmp (b\<lparr>nxt := current\<rparr>) s
      })"

definition free :: "alloc_env \<Rightarrow> u64 \<Rightarrow> alloc_state \<Rightarrow> alloc_state option" where
  "free env ptr s =
     (if ptr = 0 then Some s
      else do {
        let blk = ptr - HDR;
        b \<leftarrow> hdrs s blk;
        s1 \<leftarrow> store_hdr blk (b\<lparr>usage := 0\<rparr>) s;
        (all_free, current) \<leftarrow> scan_loop (hdrs s1) (region_start b) (region_start b);
        if all_free then do {
          s2 \<leftarrow> unlink_region (region_start b) current s1;
          b2 \<leftarrow> hdrs s2 blk;
          if munmap_ok env (region_start b2) (region_size b2)
          then Some (unmap_area (region_start b2) (region_size b2) s2)
          else Some s2
        }
        else Some s1
      })"

section \<open>\<open>calloc\<close> and \<open>realloc\<close>\<close>

definition calloc ::
  "alloc_env \<Rightarrow> u64 \<Rightarrow> u64 \<Rightarrow> alloc_state \<Rightarrow> (u64 \<times> alloc_state) option" where
  "calloc env nmemb sz s = do {
     (ptr, s1) \<leftarrow> malloc env (nmemb * sz) s;
     s2 \<leftarrow> memset ptr 0 (nmemb * sz) s1;
     Some (ptr, s2)
   }"

definition realloc ::
  "alloc_env \<Rightarrow> u64 \<Rightarrow> u64 \<Rightarrow> alloc_state \<Rightarrow> (u64 \<times> alloc_state) option" where
  "realloc env ptr req s =
     (let sz = align8 req in
      if ptr = 0 then malloc env sz s
      else if sz = 0 then do { s1 \<leftarrow> free env ptr s; Some (0, s1) }
      else Some (0, s))"

section \<open>\<open>print_memory\<close> and \<open>write_memory\<close>\<close>

text \<open>
  The arguments of the two \<open>printf\<close> formats, in their order: a region's start, end and
  size; a block's start, end, id, size, usage and requested size.
\<close>

datatype mem_line =
    Title
  | Region u64 u64 u64
  | Block u64 u64 u64 u64 u64 u64

definition region_line :: "u64 \<Rightarrow> mem_block \<Rightarrow> mem_line" where
  "region_line current_region r =
     Region current_region (current_region + region_size r) (region_size r)"

definition block_line :: "u64 \<Rightarrow> mem_block \<Rightarrow> mem_line" where
  "block_line current b =
     Block current (current + bsize b) (alloc_id b) (bsize b) (usage b)
       (if usage b = 0 then 0 else usage b - HDR)"

partial_function (option) print_loop ::
  "(u64 \<Rightarrow> mem_block option) \<Rightarrow> u64 \<Rightarrow> u64 \<Rightarrow> mem_line list \<Rightarrow> mem_line list option" where
  "print_loop h current_block current_region out =
     (if current_block = 0 then Some out
      else do {
        b \<leftarrow> h current_block;
        if region_start b \<noteq> current_region then do {
          r \<leftarrow> h (region_start b);
          print_loop h (nxt b) (region_start b)
            (out @ [region_line (region_start b) r, block_line current_block b])
        }
        else print_loop h (nxt b) current_region (out @ [block_line current_block b])
      })"

definition print_memory :: "alloc_state \<Rightarrow> mem_line list option" where
  "print_memory s = do {
     out \<leftarrow> print_loop (hdrs s) (g_head s) 0 [];
     Some (Title # out)
   }"

text \<open>\<open>write_memory\<close>: what goes to the standard output, and what goes to the file.\<close>

definition write_memory :: "alloc_state \<Rightarrow> (mem_line list \<times> mem_line list) option" where
  "write_memory s = do {
     out \<leftarrow> print_loop (hdrs s) (g_head s) 0 [];
     Some ([Title], out)
   }"

end
