(* ===== verification/Alloc_Heap.thy ===== *)
theory Alloc_Heap
  imports Allocator
begin

text \<open>
  The abstract view of the allocator's heap: the list of the blocks that the \<open>next\<close>
  pointers chain together, grouped by mapped region, and the invariant that the blocks of a
  region tile it. The loops of the code are refined to functions on that list.
\<close>

section \<open>Words as natural numbers\<close>

lemma unat_add_no_wrap: "unat a + unat b < 2 ^ 64 \<Longrightarrow> unat (a + b :: u64) = unat a + unat b"
  by (simp add: unat_word_ariths)

lemma unat_sub_le: "b \<le> a \<Longrightarrow> unat (a - b :: u64) = unat a - unat b"
  by (rule unat_sub)

lemma unat_HDR [simp]: "unat HDR = 48"
  by (simp add: HDR_def)

lemma unat_bound [simp]: "unat (a :: u64) < 18446744073709551616"
  using unsigned_less [of a] by simp

lemma unat_eq_zero_iff: "unat (a :: u64) = 0 \<longleftrightarrow> a = 0"
  by (rule unat_eq_0)

section \<open>Chains of blocks\<close>

type_synonym blocks = "(u64 \<times> mem_block) list"

fun seg :: "(u64 \<Rightarrow> mem_block option) \<Rightarrow> u64 \<Rightarrow> blocks \<Rightarrow> u64 \<Rightarrow> bool" where
  "seg h p [] q \<longleftrightarrow> p = q"
| "seg h p ((a, b) # xs) q \<longleftrightarrow> p = a \<and> a \<noteq> 0 \<and> h a = Some b \<and> seg h (nxt b) xs q"

lemma seg_append: "seg h p (xs @ ys) q \<longleftrightarrow> (\<exists>r. seg h p xs r \<and> seg h r ys q)"
  by (induction h p xs q rule: seg.induct) auto

lemma seg_frame [frame]:
  "\<lbrakk>seg h p xs q; \<And>a b. (a, b) \<in> set xs \<Longrightarrow> h' a = h a\<rbrakk> \<Longrightarrow> seg h' p xs q"
proof (induction xs arbitrary: p)
  case (Cons x xs)
  obtain a b where x: "x = (a, b)" by (cases x)
  have "h' a = h a" using Cons.prems(2) [of a b] x by simp
  with Cons x show ?case by auto
qed simp

lemma seg_lookup: "\<lbrakk>seg h p xs q; (a, b) \<in> set xs\<rbrakk> \<Longrightarrow> h a = Some b \<and> a \<noteq> 0"
  by (induction h p xs q rule: seg.induct) auto

lemma seg_last: "seg h p (xs @ [(a, b)]) q \<Longrightarrow> nxt b = q"
  by (auto simp: seg_append)

lemma seg_head: "\<lbrakk>seg h p xs q; xs \<noteq> []\<rbrakk> \<Longrightarrow> p = fst (hd xs)"
  by (cases xs) auto

section \<open>The loops on the list of blocks\<close>

lemma first_fit_loop_seg:
  "seg h p xs 0 \<Longrightarrow> first_fit_loop h sz p =
     Some (case find (\<lambda>(a, b). bsize b - usage b > sz + HDR) xs of None \<Rightarrow> 0 | Some (a, b) \<Rightarrow> a)"
  by (induction xs arbitrary: p) (subst first_fit_loop.simps; auto)+

text \<open>
  The scan for the best and for the worst fit: \<open>better\<close> compares the room of a fitting
  block with the room chosen so far.
\<close>

fun pick_of :: "(u64 \<Rightarrow> u64 \<Rightarrow> bool) \<Rightarrow> u64 \<Rightarrow> blocks \<Rightarrow> u64 \<Rightarrow> u64 \<Rightarrow> u64" where
  "pick_of better sz [] ret cur = ret"
| "pick_of better sz ((a, b) # xs) ret cur =
     (if sz + HDR \<le> bsize b - usage b \<and> better (bsize b - usage b) cur
      then pick_of better sz xs a (bsize b - usage b) else pick_of better sz xs ret cur)"

lemma best_fit_loop_seg:
  "seg h p xs 0 \<Longrightarrow> best_fit_loop h sz p ret best = Some (pick_of (\<le>) sz xs ret best)"
  by (induction xs arbitrary: p ret best) (subst best_fit_loop.simps; auto)+

lemma worst_fit_loop_seg:
  "seg h p xs 0 \<Longrightarrow> worst_fit_loop h sz p ret worst = Some (pick_of (\<ge>) sz xs ret worst)"
  by (induction xs arbitrary: p ret worst) (subst worst_fit_loop.simps; auto)+

text \<open>
  \<open>chosen better sz xs cur a b\<close>: the block \<open>b\<close> at \<open>a\<close> fits, no fitting block before it is
  better, and it is better than every fitting block behind it.
\<close>

definition chosen ::
  "(u64 \<Rightarrow> u64 \<Rightarrow> bool) \<Rightarrow> u64 \<Rightarrow> blocks \<Rightarrow> u64 \<Rightarrow> u64 \<Rightarrow> mem_block \<Rightarrow> bool" where
  "chosen better sz xs cur a b \<longleftrightarrow>
     sz + HDR \<le> bsize b - usage b \<and> better (bsize b - usage b) cur \<and>
     (\<exists>xs1 xs2. xs = xs1 @ (a, b) # xs2
        \<and> (\<forall>(a', b') \<in> set xs1. sz + HDR \<le> bsize b' - usage b' \<longrightarrow>
              better (bsize b - usage b) (bsize b' - usage b'))
        \<and> (\<forall>(a', b') \<in> set xs2. sz + HDR \<le> bsize b' - usage b' \<longrightarrow>
              \<not> better (bsize b' - usage b') (bsize b - usage b)))"

lemma chosen_Cons:
  assumes "chosen better sz xs cur' a b" "better cur' cur \<or> cur' = cur"
    "sz + HDR \<le> bsize d - usage d \<Longrightarrow> better (bsize b - usage b) (bsize d - usage d)"
    "\<And>x y z. better x y \<Longrightarrow> better y z \<Longrightarrow> better x z"
  shows "chosen better sz ((c, d) # xs) cur a b"
proof -
  from assms(1) obtain xs1 xs2 where xs: "xs = xs1 @ (a, b) # xs2"
    and fit: "sz + HDR \<le> bsize b - usage b" "better (bsize b - usage b) cur'"
    and "\<forall>(a', b') \<in> set xs1. sz + HDR \<le> bsize b' - usage b' \<longrightarrow>
              better (bsize b - usage b) (bsize b' - usage b')"
      "\<forall>(a', b') \<in> set xs2. sz + HDR \<le> bsize b' - usage b' \<longrightarrow>
              \<not> better (bsize b' - usage b') (bsize b - usage b)"
    unfolding chosen_def by blast
  moreover have "better (bsize b - usage b) cur" using fit(2) assms(2,4) by blast
  ultimately show ?thesis
    unfolding chosen_def using assms(3)
    by (intro conjI exI [of _ "(c, d) # xs1"] exI [of _ xs2]) auto
qed

lemma pick_of_spec:
  assumes trans: "\<And>x y z. better x y \<Longrightarrow> better y z \<Longrightarrow> better x z"
    and total: "\<And>x y. better x y \<or> better y x"
  shows "(pick_of better sz xs ret cur = ret
       \<and> (\<forall>(a, b) \<in> set xs. sz + HDR \<le> bsize b - usage b \<longrightarrow> \<not> better (bsize b - usage b) cur))
     \<or> (\<exists>a b. pick_of better sz xs ret cur = a \<and> chosen better sz xs cur a b)"
proof (induction xs arbitrary: ret cur)
  case (Cons x xs)
  obtain c d where x: "x = (c, d)" by (cases x)
  let ?room = "bsize d - usage d"
  show ?case
  proof (cases "sz + HDR \<le> ?room \<and> better ?room cur")
    case True
    then have eq: "pick_of better sz (x # xs) ret cur = pick_of better sz xs c ?room"
      by (simp add: x)
    from Cons.IH [of c ?room] show ?thesis
    proof (elim disjE exE conjE)
      assume "pick_of better sz xs c ?room = c"
        "\<forall>(a, b) \<in> set xs. sz + HDR \<le> bsize b - usage b \<longrightarrow> \<not> better (bsize b - usage b) ?room"
      then have "chosen better sz (x # xs) cur c d"
        unfolding chosen_def using True x by (intro conjI exI [of _ "[]"] exI [of _ xs]) auto
      with eq \<open>pick_of better sz xs c ?room = c\<close> show ?thesis by auto
    next
      fix a b assume "pick_of better sz xs c ?room = a" and ch: "chosen better sz xs ?room a b"
      moreover have "chosen better sz (x # xs) cur a b"
        unfolding x by (rule chosen_Cons [OF ch]) (use True ch trans in \<open>auto simp: chosen_def\<close>)
      ultimately show ?thesis using eq by auto
    qed
  next
    case False
    then have eq: "pick_of better sz (x # xs) ret cur = pick_of better sz xs ret cur"
      by (auto simp: x)
    have less: "better cur ?room" if "sz + HDR \<le> ?room" using that False total by blast
    from Cons.IH [of ret cur] show ?thesis
    proof (elim disjE exE conjE)
      fix a b assume "pick_of better sz xs ret cur = a" and ch: "chosen better sz xs cur a b"
      moreover have "better (bsize b - usage b) ?room" if "sz + HDR \<le> ?room"
        using ch less [OF that] trans unfolding chosen_def by blast
      then have "chosen better sz (x # xs) cur a b"
        unfolding x using trans by (intro chosen_Cons [OF ch]) auto
      ultimately show ?thesis using eq by auto
    qed (use False eq x in auto)
  qed
qed simp

text \<open>\<open>better\<close> is \<open>\<le>\<close> for the best fit and \<open>\<ge>\<close> for the worst fit.\<close>

lemma best_pick:
  "(pick_of (\<le>) sz xs ret cur = ret
       \<and> (\<forall>(a, b) \<in> set xs. sz + HDR \<le> bsize b - usage b \<longrightarrow> \<not> bsize b - usage b \<le> cur))
     \<or> (\<exists>a b. pick_of (\<le>) sz xs ret cur = a \<and> chosen (\<le>) sz xs cur a b)"
  by (rule pick_of_spec) auto

lemma worst_pick:
  "(pick_of (\<ge>) sz xs ret cur = ret
       \<and> (\<forall>(a, b) \<in> set xs. sz + HDR \<le> bsize b - usage b \<longrightarrow> \<not> bsize b - usage b \<ge> cur))
     \<or> (\<exists>a b. pick_of (\<ge>) sz xs ret cur = a \<and> chosen (\<ge>) sz xs cur a b)"
  by (rule pick_of_spec) auto

lemma append_loop_seg:
  "seg (hdrs s) p (xs @ [(l, b)]) 0 \<Longrightarrow>
   append_loop p block s = store_hdr l (b\<lparr>nxt := block\<rparr>) s"
proof (induction xs arbitrary: p)
  case Nil
  then show ?case by (subst append_loop.simps) auto
next
  case (Cons x xs)
  then obtain a c where x: "x = (a, c)" and h: "p = a" "a \<noteq> 0" "hdrs s a = Some c"
    and seg: "seg (hdrs s) (nxt c) (xs @ [(l, b)]) 0" by (cases x) auto
  from seg have "nxt c \<noteq> 0" by (cases xs) auto
  with h Cons.IH [OF seg] show ?case by (subst append_loop.simps) simp
qed

lemma scan_loop_all_free:
  "\<lbrakk>seg h p xs q; \<And>a b. (a, b) \<in> set xs \<Longrightarrow> region_start b = start \<and> usage b = 0;
    q = 0 \<or> (\<exists>b. h q = Some b \<and> region_start b \<noteq> start)\<rbrakk> \<Longrightarrow>
   scan_loop h start p = Some (True, q)"
proof (induction xs arbitrary: p)
  case Nil
  then show ?case by (subst scan_loop.simps) auto
next
  case (Cons x xs)
  then obtain a b where "x = (a, b)" "p = a" "a \<noteq> 0" "h a = Some b" "region_start b = start"
    "usage b = 0" "seg h (nxt b) xs q" by (cases x) auto
  with Cons.IH [of "nxt b"] Cons.prems show ?case by (subst scan_loop.simps) auto
qed

lemma scan_loop_used:
  "\<lbrakk>seg h p xs q; \<And>a b. (a, b) \<in> set xs \<Longrightarrow> region_start b = start;
    (a, b) \<in> set xs; usage b \<noteq> 0\<rbrakk> \<Longrightarrow>
   \<exists>c. scan_loop h start p = Some (False, c)"
proof (induction xs arbitrary: p)
  case (Cons x xs)
  then obtain c d where "x = (c, d)" "p = c" "c \<noteq> 0" "h c = Some d" "region_start d = start"
    "seg h (nxt d) xs q" by (cases x) auto
  with Cons.IH [of "nxt d"] Cons.prems show ?case by (subst scan_loop.simps) auto
qed simp

lemma find_prev_loop_seg:
  "\<lbrakk>seg h p (xs @ [(l, b)]) t; t \<notin> fst ` set xs; t \<noteq> l\<rbrakk> \<Longrightarrow> find_prev_loop h t p = Some l"
proof (induction xs arbitrary: p)
  case Nil
  then show ?case by (subst find_prev_loop.simps) auto
next
  case (Cons x xs)
  then obtain a c where x: "x = (a, c)" "p = a" "a \<noteq> 0" "h a = Some c"
    and seg: "seg h (nxt c) (xs @ [(l, b)]) t" by (cases x) auto
  from seg have "nxt c = fst (hd (xs @ [(l, b)]))" by (rule seg_head) simp
  then have "nxt c \<noteq> t" using Cons.prems by (cases xs) auto
  with x Cons.IH [OF seg] Cons.prems show ?case by (subst find_prev_loop.simps) auto
qed

end
