(* ===== verification/Alloc_Inv.thy ===== *)
theory Alloc_Inv
  imports Alloc_Heap
begin

text \<open>
  The invariant of the allocator and the operations that build on it: the contract of the
  reuse algorithms as an interface, and one lemma per way a block is written.
\<close>

section \<open>The contract of a reuse algorithm\<close>

text \<open>
  What \<open>malloc\<close> relies on, whichever of the algorithms the environment selects: on a
  well-formed list the search ends, and a block it returns is in the list and has room for
  the request and its header.
\<close>

locale fit_policy =
  fixes fit :: "(u64 \<Rightarrow> mem_block option) \<Rightarrow> u64 \<Rightarrow> u64 \<Rightarrow> u64 option"
  assumes fit_result: "seg h p xs 0 \<Longrightarrow>
      \<exists>r. fit h p sz = Some r \<and> (r = 0 \<or> (\<exists>b. (r, b) \<in> set xs \<and> sz + HDR \<le> bsize b - usage b))"
begin

lemma fit_room:
  assumes "seg h p xs 0" and ok: "\<And>a b. (a, b) \<in> set xs \<Longrightarrow> usage b \<le> bsize b"
    and small: "unat sz + 48 < 2 ^ 64"
  shows "\<exists>r. fit h p sz = Some r \<and>
    (r = 0 \<or> (\<exists>b. (r, b) \<in> set xs \<and> unat (usage b) + (unat sz + 48) \<le> unat (bsize b)))"
proof -
  from fit_result [OF assms(1), of sz] obtain r where r: "fit h p sz = Some r"
    "r = 0 \<or> (\<exists>b. (r, b) \<in> set xs \<and> sz + HDR \<le> bsize b - usage b)" by blast
  have "unat (usage b) + (unat sz + 48) \<le> unat (bsize b)"
    if "(r, b) \<in> set xs" "sz + HDR \<le> bsize b - usage b" for b
    using that(2) ok [OF that(1)] small
    by (simp add: word_le_nat_alt unat_add_no_wrap unat_sub_le)
  with r show ?thesis by blast
qed

end

lemma find_SomeD: "find P xs = Some x \<Longrightarrow> x \<in> set xs \<and> P x"
  by (induction xs) (auto split: if_splits)

interpretation ff: fit_policy first_fit
proof
  fix h p xs sz assume "seg h p xs 0"
  then show "\<exists>r. first_fit h p sz = Some r \<and>
      (r = 0 \<or> (\<exists>b. (r, b) \<in> set xs \<and> sz + HDR \<le> bsize b - usage b))"
    by (auto simp: first_fit_def first_fit_loop_seg dest!: find_SomeD split: option.splits
        intro: order.strict_implies_order)
qed

lemma chosen_member: "chosen better sz xs cur a b \<Longrightarrow> (a, b) \<in> set xs \<and> sz + HDR \<le> bsize b - usage b"
  by (auto simp: chosen_def)

interpretation bf: fit_policy best_fit
proof
  fix h p xs sz assume "seg h p xs 0"
  then show "\<exists>r. best_fit h p sz = Some r \<and>
      (r = 0 \<or> (\<exists>b. (r, b) \<in> set xs \<and> sz + HDR \<le> bsize b - usage b))"
    using best_pick [of sz xs 0 "word_of_int INT_MAX"]
    by (auto simp: best_fit_def best_fit_loop_seg dest!: chosen_member)
qed

interpretation wf: fit_policy worst_fit
proof
  fix h p xs sz assume "seg h p xs 0"
  then show "\<exists>r. worst_fit h p sz = Some r \<and>
      (r = 0 \<or> (\<exists>b. (r, b) \<in> set xs \<and> sz + HDR \<le> bsize b - usage b))"
    using worst_pick [of sz xs 0 0]
    by (auto simp: worst_fit_def worst_fit_loop_seg dest!: chosen_member)
qed

lemma reuse_room:
  assumes "seg (hdrs s) (g_head s) xs 0" "\<And>a b. (a, b) \<in> set xs \<Longrightarrow> usage b \<le> bsize b"
    "unat sz + 48 < 2 ^ 64"
  shows "\<exists>r. reuse env sz s = Some r \<and>
    (r = 0 \<or> (\<exists>b. (r, b) \<in> set xs \<and> unat (usage b) + (unat sz + 48) \<le> unat (bsize b)))"
  using ff.fit_room [OF assms] bf.fit_room [OF assms] wf.fit_room [OF assms]
  by (simp add: reuse_def Let_def)

section \<open>The invariant\<close>

definition blk_ok :: "mem_block \<Rightarrow> bool" where
  "blk_ok b \<longleftrightarrow> 48 \<le> unat (bsize b) \<and> usage b \<le> bsize b \<and> (usage b = 0 \<or> 48 \<le> unat (usage b))
     \<and> 8 dvd unat (bsize b) \<and> 8 dvd unat (usage b)"

text \<open>The blocks lie one behind the other, from \<open>lo\<close> to \<open>hi\<close>.\<close>

fun tile :: "nat \<Rightarrow> nat \<Rightarrow> blocks \<Rightarrow> bool" where
  "tile lo hi [] \<longleftrightarrow> lo = hi"
| "tile lo hi ((a, b) # xs) \<longleftrightarrow> unat a = lo \<and> blk_ok b \<and> tile (lo + unat (bsize b)) hi xs"

definition region_ok :: "u64 \<times> u64 \<Rightarrow> blocks \<Rightarrow> bool" where
  "region_ok = (\<lambda>(m, l) r. r \<noteq> [] \<and> m \<noteq> 0 \<and> 8 dvd unat m \<and> unat m + unat l < 2 ^ 64
     \<and> tile (unat m) (unat m + unat l) r
     \<and> list_all (\<lambda>(a, b). region_start b = m \<and> region_size b = l) r)"

definition area_sep :: "u64 \<times> u64 \<Rightarrow> u64 \<times> u64 \<Rightarrow> bool" where
  "area_sep = (\<lambda>(m, l) (m', l'). unat m + unat l \<le> unat m' \<or> unat m' + unat l' \<le> unat m)"

text \<open>
  \<open>alloc_inv s rs\<close>: the chain from \<open>g_head\<close> is the concatenation of the regions \<open>rs\<close>, one
  per mapped area in the order of the mappings, each tiled by its blocks; the areas are
  disjoint.
\<close>

definition alloc_inv :: "alloc_state \<Rightarrow> blocks list \<Rightarrow> bool" where
  "alloc_inv s rs \<longleftrightarrow> seg (hdrs s) (g_head s) (concat rs) 0
     \<and> list_all2 region_ok (maps s) rs \<and> sorted_wrt area_sep (maps s)"

text \<open>
  The payloads of the blocks in use, as pairs of start address and length.
\<close>

fun live_blk :: "u64 \<times> mem_block \<Rightarrow> (nat \<times> nat) set" where
  "live_blk (a, b) = (if usage b = 0 then {} else {(unat a + 48, unat (usage b) - 48)})"

definition live :: "blocks list \<Rightarrow> (nat \<times> nat) set" where
  "live rs = (\<Union>y \<in> set (concat rs). live_blk y)"

text \<open>The regions without the links of the chain, which the invariant determines.\<close>

definition shape :: "blocks list \<Rightarrow> blocks list" where
  "shape = map (map (\<lambda>(a, b). (a, b\<lparr>nxt := 0\<rparr>)))"

lemma shape_simps [simp]:
  "shape [] = []" "shape (r # rs) = map (\<lambda>(a, b). (a, b\<lparr>nxt := 0\<rparr>)) r # shape rs"
  "shape (rs @ rs') = shape rs @ shape rs'"
  by (simp_all add: shape_def)

definition in_live :: "blocks list \<Rightarrow> u64 \<Rightarrow> bool" where
  "in_live rs x \<longleftrightarrow> (\<exists>(q, m) \<in> live rs. q \<le> unat x \<and> unat x < q + m)"

lemma alloc_inv_init: "alloc_inv alloc_init []"
  by (simp add: alloc_inv_def alloc_init_def)

lemma tile_append: "tile lo hi (xs @ ys) \<longleftrightarrow> (\<exists>mid. tile lo mid xs \<and> tile mid hi ys)"
  by (induction lo hi xs rule: tile.induct) auto

lemma tile_bounds:
  "tile lo hi xs \<Longrightarrow> lo \<le> hi \<and> (\<forall>(a, b) \<in> set xs. lo \<le> unat a \<and> unat a + unat (bsize b) \<le> hi \<and> blk_ok b)"
  by (induction lo hi xs rule: tile.induct) fastforce+

definition blk_sep :: "u64 \<times> mem_block \<Rightarrow> u64 \<times> mem_block \<Rightarrow> bool" where
  "blk_sep = (\<lambda>(a, b) (a', b'). unat a + unat (bsize b) \<le> unat a' \<or> unat a' + unat (bsize b') \<le> unat a)"

lemma tile_sep: "tile lo hi xs \<Longrightarrow> sorted_wrt blk_sep xs"
proof (induction lo hi xs rule: tile.induct)
  case (2 lo hi a b xs)
  then show ?case using tile_bounds [of "lo + unat (bsize b)" hi xs]
    by (force simp: blk_sep_def)
qed simp

text \<open>A block lies in an area, and its header says so.\<close>

definition blk_in :: "u64 \<times> u64 \<Rightarrow> u64 \<times> mem_block \<Rightarrow> bool" where
  "blk_in = (\<lambda>(m, l) (a, b). unat m \<le> unat a \<and> unat a + unat (bsize b) \<le> unat m + unat l
     \<and> blk_ok b \<and> region_start b = m \<and> region_size b = l \<and> unat m + unat l < 2 ^ 64)"

lemma region_ok_in: "\<lbrakk>region_ok x r; y \<in> set r\<rbrakk> \<Longrightarrow> blk_in x y"
  using tile_bounds [of "unat (fst x)" "unat (fst x) + unat (snd x)" r]
  by (auto simp: region_ok_def blk_in_def list_all_iff split: prod.splits)

lemma regions_in: "\<lbrakk>list_all2 region_ok ms rs; y \<in> set (concat rs)\<rbrakk> \<Longrightarrow> \<exists>x \<in> set ms. blk_in x y"
  by (induction ms rs rule: list_all2_induct) (auto dest: region_ok_in)

lemma blk_in_sep: "\<lbrakk>blk_in x y; blk_in x' y'; area_sep x x'\<rbrakk> \<Longrightarrow> blk_sep y y'"
  by (auto simp: blk_in_def area_sep_def blk_sep_def split: prod.splits)

lemma regions_sep:
  "\<lbrakk>list_all2 region_ok ms rs; sorted_wrt area_sep ms\<rbrakk> \<Longrightarrow> sorted_wrt blk_sep (concat rs)"
proof (induction ms rs rule: list_all2_induct)
  case (Cons x xs r rs)
  have "\<forall>y \<in> set r. \<forall>y' \<in> set (concat rs). blk_sep y y'"
  proof (intro ballI)
    fix y y' assume "y \<in> set r" "y' \<in> set (concat rs)"
    then obtain x' where "x' \<in> set xs" "blk_in x' y'" using regions_in [OF Cons.hyps(2)] by blast
    moreover have "blk_in x y" using Cons.hyps(1) \<open>y \<in> set r\<close> by (rule region_ok_in)
    ultimately show "blk_sep y y'" using Cons.prems by (auto intro: blk_in_sep)
  qed
  moreover have "sorted_wrt blk_sep r"
    using Cons.hyps(1) by (auto simp: region_ok_def split: prod.splits intro: tile_sep)
  ultimately show ?case
    using Cons.IH Cons.prems by (simp only: concat.simps sorted_wrt_append sorted_wrt.simps)
qed simp

lemma blk_sep_sym: "blk_sep x y \<longleftrightarrow> blk_sep y x"
  by (auto simp: blk_sep_def)

lemma inv_sep:
  "\<lbrakk>alloc_inv s rs; concat rs = xs @ (a, b) # ys; (a', b') \<in> set xs \<union> set ys\<rbrakk> \<Longrightarrow>
   unat a + unat (bsize b) \<le> unat a' \<or> unat a' + unat (bsize b') \<le> unat a"
  using regions_sep [of "maps s" rs]
  by (auto simp: alloc_inv_def sorted_wrt_append blk_sep_def)

lemma inv_block:
  assumes "alloc_inv s rs" "(a, b) \<in> set (concat rs)"
  shows "hdrs s a = Some b" "a \<noteq> 0" "blk_ok b" "unat a + unat (bsize b) < 2 ^ 64"
    and "\<And>(p :: u64) n. unat a \<le> unat p \<Longrightarrow> unat p + n \<le> unat a + unat (bsize b) \<Longrightarrow> mapped s p n"
proof -
  from assms have "seg (hdrs s) (g_head s) (concat rs) 0" by (simp add: alloc_inv_def)
  from seg_lookup [OF this assms(2)] show "hdrs s a = Some b" "a \<noteq> 0" by auto
  from assms(1) have "list_all2 region_ok (maps s) rs" by (simp add: alloc_inv_def)
  from regions_in [OF this assms(2)] obtain m l where ml: "(m, l) \<in> set (maps s)"
    "unat m \<le> unat a" "unat a + unat (bsize b) \<le> unat m + unat l" "blk_ok b"
    "unat m + unat l < 2 ^ 64" by (auto simp: blk_in_def)
  then show "blk_ok b" "unat a + unat (bsize b) < 2 ^ 64" by auto
  fix p :: u64 and n :: nat
  assume "unat a \<le> unat p" "unat p + n \<le> unat a + unat (bsize b)"
  with ml show "mapped s p n"
    unfolding mapped_def list_ex_iff by (intro bexI [of _ "(m, l)"]) auto
qed

end
