(* ===== verification/Alloc_Write.thy ===== *)
theory Alloc_Write
  imports Alloc_Inv
begin

text \<open>
  The single writes of the allocator and the two ways it reuses a block: each keeps the
  invariant, and what it leaves of the headers and of the bytes is stated exactly.
\<close>

section \<open>Taking a state with the invariant apart, and putting it together\<close>

lemma inv_cong [inv_intro]:
  "\<lbrakk>alloc_inv s rs; g_head s' = g_head s; maps s' = maps s;
    \<And>a b. (a, b) \<in> set (concat rs) \<Longrightarrow> hdrs s' a = hdrs s a\<rbrakk> \<Longrightarrow> alloc_inv s' rs"
  unfolding alloc_inv_def by (auto intro: seg_frame)

lemma inv_split:
  assumes "alloc_inv s (R1 @ (r1 @ (a, b) # r2) # R2)"
  shows "seg (hdrs s) (g_head s) (concat R1 @ r1) a" "hdrs s a = Some b" "a \<noteq> 0"
    and "seg (hdrs s) (nxt b) (r2 @ concat R2) 0"
  using assms unfolding alloc_inv_def by (auto simp: seg_append)

text \<open>Replacing the blocks of one region.\<close>

lemma inv_replace:
  assumes "alloc_inv s (R1 @ r # R2)" "maps s' = maps s"
    and "seg (hdrs s') (g_head s') (concat (R1 @ r' # R2)) 0"
    and "\<And>x. region_ok x r \<Longrightarrow> region_ok x r'"
  shows "alloc_inv s' (R1 @ r' # R2)"
proof -
  from assms(1) obtain M1 x M2 where "maps s = M1 @ x # M2" "list_all2 region_ok M1 R1"
    "region_ok x r" "list_all2 region_ok M2 R2"
    by (auto simp: alloc_inv_def list_all2_append2 list_all2_Cons2)
  then have "list_all2 region_ok (maps s) (R1 @ r' # R2)"
    using assms(4) [of x] by (auto intro!: list_all2_appendI)
  with assms(1-3) show ?thesis by (simp add: alloc_inv_def)
qed

lemma region_of_block:
  assumes "(a, b) \<in> set (concat rs)"
  obtains R1 r1 r2 R2 where "rs = R1 @ (r1 @ (a, b) # r2) # R2"
proof -
  from assms obtain r where "r \<in> set rs" "(a, b) \<in> set r" by auto
  then obtain R1 R2 r1 r2 where "rs = R1 @ r # R2" "r = r1 @ (a, b) # r2"
    by (metis split_list)
  with that show thesis by blast
qed

section \<open>Single writes\<close>

definition clear_of :: "u64 \<Rightarrow> nat \<Rightarrow> u64 \<Rightarrow> bool" where
  "clear_of p n a \<longleftrightarrow> unat p + n \<le> unat a \<or> unat a + 48 \<le> unat p"

lemma wipe_clear [frame]: "clear_of p n a \<Longrightarrow> wipe p n h a = h a"
  by (auto simp: wipe_def clear_of_def)

lemma clear_of_self: "48 \<le> n \<Longrightarrow> clear_of p n a \<Longrightarrow> a \<noteq> p"
  by (auto simp: clear_of_def)

lemma store_hdr_mapped:
  assumes "mapped s p 48"
  obtains s' where "store_hdr p b s = Some s'" "g_head s' = g_head s" "maps s' = maps s"
    "bytes s' = bytes s" "g_allocations s' = g_allocations s" "hdrs s' p = Some b"
    "\<And>a. clear_of p 48 a \<Longrightarrow> hdrs s' a = hdrs s a"
proof
  let ?s' = "s\<lparr>hdrs := (wipe p 48 (hdrs s))(p \<mapsto> b)\<rparr>"
  show "store_hdr p b s = Some ?s'" using assms by (simp add: store_hdr_def)
  show "hdrs ?s' a = hdrs s a" if "clear_of p 48 a" for a
    using that clear_of_self [of 48 p a] by (simp add: wipe_clear)
qed auto

lemma inv_clear:
  assumes "alloc_inv s rs" "concat rs = xs @ (a, b) # ys" "(a', b') \<in> set xs \<union> set ys"
    and "unat a \<le> unat p" "unat p + n \<le> unat a + unat (bsize b)"
  shows "clear_of p n a'"
proof -
  have "(a', b') \<in> set (concat rs)" using assms(2,3) by auto
  then have "48 \<le> unat (bsize b')" using inv_block(3) [OF assms(1)] by (auto simp: blk_ok_def)
  with inv_sep [OF assms(1-3)] assms(4,5) show ?thesis by (auto simp: clear_of_def)
qed

lemma addr_HDR: "unat a + 48 < 2 ^ 64 \<Longrightarrow> unat (a + HDR) = unat a + 48"
  by (simp add: unat_add_no_wrap)

text \<open>Filling bytes of a block behind its header leaves every header alone.\<close>

lemma memset_inside:
  assumes inv: "alloc_inv s rs" and ab: "(a, b) \<in> set (concat rs)"
    and p: "unat a + 48 \<le> unat p" and n: "unat p + unat n \<le> unat a + unat (bsize b)"
  obtains s' where "memset p v n s = Some s'" "alloc_inv s' rs" "maps s' = maps s"
    "g_allocations s' = g_allocations s" "bytes s' = (\<lambda>x. if in_range p (unat n) x then v else bytes s x)"
proof -
  note blk = inv_block [OF inv ab]
  from ab obtain xs ys where eq: "concat rs = xs @ (a, b) # ys" by (meson split_list)
  have clear: "clear_of p (unat n) a'" if "(a', b') \<in> set (concat rs)" for a' b'
  proof (cases "(a', b') = (a, b)")
    case True
    then show ?thesis using p by (auto simp: clear_of_def)
  next
    case False
    with that eq show ?thesis
      using n p by (intro inv_clear [OF inv eq, of a' b']) auto
  qed
  show thesis
  proof (cases "n = 0")
    case True
    then show thesis
      by (intro that [of s]) (auto simp: memset_def inv in_range_def fun_eq_iff)
  next
    case False
    let ?s = "s\<lparr>hdrs := wipe p (unat n) (hdrs s),
      bytes := (\<lambda>x. if in_range p (unat n) x then v else bytes s x)\<rparr>"
    have "mapped s p (unat n)" using blk(5) p n by simp
    with False have "memset p v n s = Some ?s" by (simp add: memset_def)
    moreover have "alloc_inv ?s rs"
      using clear by (intro inv_cong [OF inv]) (auto simp: wipe_clear)
    ultimately show thesis by (intro that [of ?s]) auto
  qed
qed

lemma memset_payload:
  assumes inv: "alloc_inv s rs" and ab: "(a, b) \<in> set (concat rs)"
    and n: "48 + unat n \<le> unat (bsize b)"
  obtains s' where "memset (a + HDR) v n s = Some s'" "alloc_inv s' rs" "maps s' = maps s"
    "g_allocations s' = g_allocations s"
    "bytes s' = (\<lambda>x. if in_range (a + HDR) (unat n) x then v else bytes s x)"
proof -
  have "unat (a + HDR) = unat a + 48" using inv_block(4) [OF inv ab] n by (intro addr_HDR) simp
  then have "unat a + 48 \<le> unat (a + HDR)" "unat (a + HDR) + unat n \<le> unat a + unat (bsize b)"
    using n by simp_all
  from memset_inside [OF inv ab this] that show thesis by blast
qed

text \<open>The bytes after an optional scribble.\<close>

definition scribble_bytes :: "alloc_env \<Rightarrow> u64 \<Rightarrow> nat \<Rightarrow> (u64 \<Rightarrow> u8) \<Rightarrow> u64 \<Rightarrow> u8" where
  "scribble_bytes env p n f = (\<lambda>x. if scribble env \<and> in_range p n x then 0xAA else f x)"

lemma scribbled_payload:
  assumes "alloc_inv s rs" "(a, b) \<in> set (concat rs)" "48 + unat n \<le> unat (bsize b)"
  obtains s' where "scribbled env (a + HDR) n s = Some s'" "alloc_inv s' rs" "maps s' = maps s"
    "g_allocations s' = g_allocations s"
    "bytes s' = scribble_bytes env (a + HDR) (unat n) (bytes s)"
proof (cases "scribble env")
  case True
  obtain s' where "memset (a + HDR) 0xAA n s = Some s'" "alloc_inv s' rs" "maps s' = maps s"
    "g_allocations s' = g_allocations s"
    "bytes s' = (\<lambda>x. if in_range (a + HDR) (unat n) x then 0xAA else bytes s x)"
    by (rule memset_payload [OF assms])
  with True show ?thesis
    by (intro that [of s']) (auto simp: scribbled_def scribble_bytes_def)
next
  case False
  with assms(1) show ?thesis
    by (intro that [of s]) (auto simp: scribbled_def scribble_bytes_def)
qed

section \<open>Rewriting a header in place\<close>

lemma set_header_ok:
  assumes inv: "alloc_inv s (R1 @ (r1 @ (a, b) # r2) # R2)" (is "alloc_inv s ?rs")
    and b': "blk_ok b'" "bsize b' = bsize b" "nxt b' = nxt b" "region_start b' = region_start b"
      "region_size b' = region_size b"
  obtains s' where "store_hdr a b' s = Some s'" "alloc_inv s' (R1 @ (r1 @ (a, b') # r2) # R2)"
    "maps s' = maps s" "bytes s' = bytes s" "g_allocations s' = g_allocations s"
proof -
  have ab: "(a, b) \<in> set (concat ?rs)" by simp
  note blk = inv_block [OF inv ab] and parts = inv_split [OF inv]
  have eq: "concat ?rs = (concat R1 @ r1) @ (a, b) # (r2 @ concat R2)" by simp
  have "mapped s a 48" using blk(3,5) by (simp add: blk_ok_def)
  then obtain s1 where s1: "store_hdr a b' s = Some s1" "g_head s1 = g_head s" "maps s1 = maps s"
    "bytes s1 = bytes s" "g_allocations s1 = g_allocations s" "hdrs s1 a = Some b'"
    "\<And>x. clear_of a 48 x \<Longrightarrow> hdrs s1 x = hdrs s x" by (rule store_hdr_mapped) blast
  have others: "hdrs s1 x = hdrs s x"
    if "(x, c) \<in> set (concat R1 @ r1) \<union> set (r2 @ concat R2)" for x c
    using that blk(3) by (intro s1(7) inv_clear [OF inv eq that]) (auto simp: blk_ok_def)
  have "alloc_inv s1 (R1 @ (r1 @ (a, b') # r2) # R2)"
  proof (rule inv_replace [OF inv s1(3)])
    have "seg (hdrs s1) (g_head s) (concat R1 @ r1) a"
      by (rule seg_frame [OF parts(1)], rule others, blast)
    moreover have "seg (hdrs s1) (nxt b) (r2 @ concat R2) 0"
      by (rule seg_frame [OF parts(4)], rule others, blast)
    ultimately show "seg (hdrs s1) (g_head s1) (concat (R1 @ (r1 @ (a, b') # r2) # R2)) 0"
      using parts(3) s1(2,6) b'(3) by (auto simp: seg_append)
    show "region_ok x (r1 @ (a, b') # r2)" if "region_ok x (r1 @ (a, b) # r2)" for x
      using that b' by (auto simp: region_ok_def tile_append)
  qed
  with s1 show thesis by (intro that [of s1])
qed

section \<open>The two ways to reuse a block\<close>

lemma take_block_ok:
  assumes inv: "alloc_inv s (R1 @ (r1 @ (a, b) # r2) # R2)" (is "alloc_inv s ?rs")
    and free: "usage b = 0" and room: "48 + unat sz \<le> unat (bsize b)" and al: "8 dvd unat sz"
  defines "b' \<equiv> b\<lparr>alloc_id := g_allocations s, usage := sz + HDR\<rparr>"
  obtains s' where "take_block env a sz s = Some (a + HDR, s')"
    "alloc_inv s' (R1 @ (r1 @ (a, b') # r2) # R2)" "maps s' = maps s"
    "g_allocations s' = g_allocations s + 1"
    "bytes s' = scribble_bytes env (a + HDR) (unat sz) (bytes s)"
proof -
  have ab: "(a, b) \<in> set (concat ?rs)" by simp
  note blk = inv_block [OF inv ab]
  have us: "unat (sz + HDR) = unat sz + 48"
    using room blk(4) by (simp add: unat_add_no_wrap)
  have "blk_ok b'"
    using blk(3) room al us by (auto simp: blk_ok_def b'_def word_le_nat_alt)
  then obtain s1 where s1: "store_hdr a b' s = Some s1"
    "alloc_inv s1 (R1 @ (r1 @ (a, b') # r2) # R2)" "maps s1 = maps s" "bytes s1 = bytes s"
    "g_allocations s1 = g_allocations s"
    by (rule set_header_ok [OF inv]) (auto simp: b'_def)
  let ?s2 = "s1\<lparr>g_allocations := g_allocations s1 + 1\<rparr>"
  have inv2: "alloc_inv ?s2 (R1 @ (r1 @ (a, b') # r2) # R2)"
    by (rule inv_cong [OF s1(2)]) simp_all
  obtain s' where s': "scribbled env (a + HDR) sz ?s2 = Some s'"
    "alloc_inv s' (R1 @ (r1 @ (a, b') # r2) # R2)" "maps s' = maps ?s2"
    "g_allocations s' = g_allocations ?s2"
    "bytes s' = scribble_bytes env (a + HDR) (unat sz) (bytes ?s2)"
    by (rule scribbled_payload [OF inv2, of a b' sz env]) (use room in \<open>auto simp: b'_def\<close>)
  have "take_block env a sz s = Some (a + HDR, s')"
    using blk(1) s1(1,5) s'(1) by (simp add: take_block_def b'_def Let_def)
  with s' s1 show thesis by (intro that) auto
qed

lemma split_block_ok:
  assumes inv: "alloc_inv s (R1 @ (r1 @ (a, b) # r2) # R2)" (is "alloc_inv s ?rs")
    and used: "usage b \<noteq> 0" and room: "unat (usage b) + (unat sz + 48) \<le> unat (bsize b)"
    and al: "8 dvd unat sz"
  defines "blk \<equiv> a + usage b"
  defines "nb \<equiv> \<lparr>alloc_id = g_allocations s, bsize = bsize b - usage b, usage = sz + HDR,
        region_start = region_start b, region_size = region_size b, nxt = nxt b\<rparr>"
  defines "b' \<equiv> b\<lparr>bsize := usage b, nxt := blk\<rparr>"
  obtains s' where "split_block env a sz s = Some (blk + HDR, s')"
    "alloc_inv s' (R1 @ (r1 @ (a, b') # (blk, nb) # r2) # R2)" "maps s' = maps s"
    "g_allocations s' = g_allocations s + 1" "unat blk = unat a + unat (usage b)"
    "unat (usage nb) = unat sz + 48"
    "bytes s' = scribble_bytes env (blk + HDR) (unat sz) (bytes s)"
proof -
  let ?rs' = "R1 @ (r1 @ (a, b') # (blk, nb) # r2) # R2"
  have ab: "(a, b) \<in> set (concat ?rs)" by simp
  note B = inv_block [OF inv ab] and parts = inv_split [OF inv]
  have eq: "concat ?rs = (concat R1 @ r1) @ (a, b) # (r2 @ concat R2)" by simp
  have us: "unat (sz + HDR) = unat sz + 48" using room B(4) by (simp add: unat_add_no_wrap)
  have ub: "48 \<le> unat (usage b)" using B(3) used by (auto simp: blk_ok_def)
  have blk: "unat blk = unat a + unat (usage b)"
    unfolding blk_def using room B(4) by (intro unat_add_no_wrap) simp
  have sub: "unat (bsize b - usage b) = unat (bsize b) - unat (usage b)"
    using B(3) by (intro unat_sub_le) (simp add: blk_ok_def)
  have "mapped s blk 48" using B(5) blk room by simp
  then obtain s1 where s1: "store_hdr blk nb s = Some s1" "g_head s1 = g_head s" "maps s1 = maps s"
    "bytes s1 = bytes s" "g_allocations s1 = g_allocations s" "hdrs s1 blk = Some nb"
    "\<And>x. clear_of blk 48 x \<Longrightarrow> hdrs s1 x = hdrs s x" by (rule store_hdr_mapped) blast
  let ?s2 = "s1\<lparr>g_allocations := g_allocations s1 + 1\<rparr>"
  have "clear_of blk 48 a" using ub blk by (simp add: clear_of_def)
  then have a1: "hdrs s1 a = Some b" using s1(7) B(1) by simp
  have "mapped ?s2 a 48" using B(3,5) s1(3) by (simp add: blk_ok_def mapped_def)
  then obtain s3 where s3: "store_hdr a b' ?s2 = Some s3" "g_head s3 = g_head ?s2"
    "maps s3 = maps ?s2" "bytes s3 = bytes ?s2" "g_allocations s3 = g_allocations ?s2"
    "hdrs s3 a = Some b'" "\<And>x. clear_of a 48 x \<Longrightarrow> hdrs s3 x = hdrs ?s2 x"
    by (rule store_hdr_mapped) blast
  have others: "hdrs s3 x = hdrs s x" if "(x, c) \<in> set (concat R1 @ r1) \<union> set (r2 @ concat R2)" for x c
  proof -
    have "clear_of a 48 x" using B(3) by (intro inv_clear [OF inv eq that]) (auto simp: blk_ok_def)
    moreover have "clear_of blk 48 x"
      using blk room by (intro inv_clear [OF inv eq that]) auto
    ultimately show ?thesis using s3(7) s1(7) by simp
  qed
  have blk3: "hdrs s3 blk = Some nb" "blk \<noteq> 0"
    using s3(7) [of blk] s1(6) ub blk by (auto simp: clear_of_def)
  have inv3: "alloc_inv s3 ?rs'"
  proof (rule inv_replace [OF inv])
    have "seg (hdrs s3) (g_head s) (concat R1 @ r1) a"
      by (rule seg_frame [OF parts(1)], rule others, blast)
    moreover have "seg (hdrs s3) (nxt b) (r2 @ concat R2) 0"
      by (rule seg_frame [OF parts(4)], rule others, blast)
    ultimately show "seg (hdrs s3) (g_head s3) (concat ?rs') 0"
      using parts(3) s1(2) s3(2,6) blk3 by (auto simp: seg_append b'_def nb_def)
    have "blk_ok b'" "blk_ok nb"
      using B(3) ub sub us room al by (auto simp: blk_ok_def b'_def nb_def word_le_nat_alt)
    moreover have "unat a + unat (usage b) + unat (bsize nb) = unat a + unat (bsize b)"
      using sub room by (simp add: nb_def)
    ultimately show "region_ok x (r1 @ (a, b') # (blk, nb) # r2)"
      if "region_ok x (r1 @ (a, b) # r2)" for x
      using that blk by (auto simp: region_ok_def b'_def nb_def tile_append add.assoc)
  qed (simp add: s1 s3)
  obtain s' where s': "scribbled env (blk + HDR) sz s3 = Some s'" "alloc_inv s' ?rs'"
    "maps s' = maps s3" "g_allocations s' = g_allocations s3"
    "bytes s' = scribble_bytes env (blk + HDR) (unat sz) (bytes s3)"
    by (rule scribbled_payload [OF inv3, of blk nb sz env])
      (use room sub in \<open>auto simp: nb_def\<close>)
  have "split_block env a sz s = Some (blk + HDR, s')"
    using B(1) s1(1) s1(5) a1 s3(1) s'(1)
    by (simp add: split_block_def nb_def blk_def b'_def Let_def)
  with s' s1 s3 blk us show thesis by (intro that) (auto simp: nb_def)
qed

end
