(* ===== verification/Alloc_Malloc.thy ===== *)
theory Alloc_Malloc
  imports Alloc_Write
begin

text \<open>\<open>malloc\<close>: every branch keeps the invariant and adds one live payload.\<close>

section \<open>Live payloads\<close>

lemma liveE:
  assumes "(q, m) \<in> live rs"
  obtains a b where "(a, b) \<in> set (concat rs)" "usage b \<noteq> 0" "q = unat a + 48"
    "m = unat (usage b) - 48"
proof -
  from assms obtain y where y: "y \<in> set (concat rs)" "(q, m) \<in> live_blk y"
    unfolding live_def by blast
  obtain a b where "y = (a, b)" by (cases y)
  with y show thesis by (intro that [of a b]) (auto split: if_splits)
qed

lemma live_pairs_sep:
  assumes inv: "alloc_inv s rs" and "(q, m) \<in> live rs" "(q', m') \<in> live rs" "(q, m) \<noteq> (q', m')"
  shows "q + m + 48 \<le> q' \<or> q' + m' + 48 \<le> q"
proof -
  obtain a b where ab: "(a, b) \<in> set (concat rs)" "usage b \<noteq> 0" "q = unat a + 48"
    "m = unat (usage b) - 48" using assms(2) by (rule liveE)
  obtain a' b' where ab': "(a', b') \<in> set (concat rs)" "usage b' \<noteq> 0" "q' = unat a' + 48"
    "m' = unat (usage b') - 48" using assms(3) by (rule liveE)
  have ne: "(a', b') \<noteq> (a, b)" using assms(4) ab ab' by auto
  from ab(1) obtain xs ys where eq: "concat rs = xs @ (a, b) # ys" by (meson split_list)
  have mem: "(a', b') \<in> set xs \<union> set ys" using ab'(1) ne unfolding eq by auto
  from inv_sep [OF inv eq mem] inv_block(3) [OF inv ab(1)] inv_block(3) [OF inv ab'(1)]
  show ?thesis using ab ab' by (auto simp: blk_ok_def word_le_nat_alt)
qed

lemma list_all2_member: "\<lbrakk>list_all2 P xs ys; y \<in> set ys\<rbrakk> \<Longrightarrow> \<exists>x. P x y"
  by (induction rule: list_all2_induct) auto

lemma tile_aligned: "\<lbrakk>tile lo hi xs; 8 dvd lo; (a, b) \<in> set xs\<rbrakk> \<Longrightarrow> 8 dvd unat a"
  by (induction lo hi xs rule: tile.induct) (auto simp: blk_ok_def)

lemma inv_aligned:
  assumes "alloc_inv s rs" "(a, b) \<in> set (concat rs)"
  shows "8 dvd unat a"
proof -
  have "list_all2 region_ok (maps s) rs" using assms(1) by (simp add: alloc_inv_def)
  moreover obtain r where "r \<in> set rs" "(a, b) \<in> set r" using assms(2) by auto
  ultimately obtain x where "region_ok x r" by (metis list_all2_member)
  with \<open>(a, b) \<in> set r\<close> show ?thesis by (auto simp: region_ok_def intro: tile_aligned)
qed

text \<open>A new header \<open>h\<close> and payload in the unused part of a block touch no live payload.\<close>

lemma unused_part_sep:
  assumes inv: "alloc_inv s rs" and ab: "(a, b) \<in> set (concat rs)"
    and h: "unat a + unat (usage b) \<le> h" "h + 48 + n \<le> unat a + unat (bsize b)"
    and qm: "(q, m) \<in> live rs"
  shows "q + m \<le> h \<or> h + 48 + n + 48 \<le> q"
proof -
  obtain a' b' where ab': "(a', b') \<in> set (concat rs)" "usage b' \<noteq> 0" "q = unat a' + 48"
    "m = unat (usage b') - 48" using qm by (rule liveE)
  from ab obtain xs ys where eq: "concat rs = xs @ (a, b) # ys" by (meson split_list)
  note ok = inv_block(3) [OF inv ab] inv_block(3) [OF inv ab'(1)]
  show ?thesis
  proof (cases "(a', b') = (a, b)")
    case True
    then show ?thesis using ab' ok h by (auto simp: blk_ok_def)
  next
    case False
    then have "(a', b') \<in> set xs \<union> set ys" using ab'(1) unfolding eq by auto
    from inv_sep [OF inv eq this] show ?thesis
      using ab' ok h by (auto simp: blk_ok_def word_le_nat_alt)
  qed
qed

lemma scribble_keeps_live:
  assumes "\<And>q m. (q, m) \<in> live rs \<Longrightarrow> q + m \<le> unat p \<or> unat p + n \<le> q" "in_live rs x"
  shows "scribble_bytes env p n f x = f x"
  using assms by (fastforce simp: scribble_bytes_def in_live_def in_range_def)

section \<open>A new region\<close>

text \<open>What the code relies on of its environment: the page size and a fresh mapping.\<close>

definition page_ok :: "alloc_env \<Rightarrow> bool" where
  "page_ok env \<longleftrightarrow> 0 < unat (page_sz env) \<and> 8 dvd unat (page_sz env)"

definition mmap_fresh :: "alloc_env \<Rightarrow> (u64 \<times> u64) list \<Rightarrow> u64 \<Rightarrow> bool" where
  "mmap_fresh env ms n \<longleftrightarrow> (case mmap env ms n of None \<Rightarrow> True | Some p \<Rightarrow>
     p \<noteq> 0 \<and> unat (page_sz env) dvd unat p \<and> unat p + unat n < 2 ^ 64
     \<and> list_all (area_sep (p, n)) ms)"

definition region_bytes :: "alloc_env \<Rightarrow> u64 \<Rightarrow> u64" where
  "region_bytes env sz =
     (let real_sz = sz + HDR; pages = real_sz div page_sz env in
      (if real_sz mod page_sz env \<noteq> 0 then pages + 1 else pages) * page_sz env)"

lemma round_up_bounds:
  fixes R P :: nat
  assumes "0 < P"
  shows "R \<le> (if R mod P \<noteq> 0 then R div P + 1 else R div P) * P"
    and "(if R mod P \<noteq> 0 then R div P + 1 else R div P) * P < R + P"
proof -
  obtain q r where qr: "R div P = q" "R mod P = r" by blast
  then have "R = q * P + r" "r < P" using assms by (auto simp flip: qr)
  then show "R \<le> (if R mod P \<noteq> 0 then R div P + 1 else R div P) * P"
    "(if R mod P \<noteq> 0 then R div P + 1 else R div P) * P < R + P"
    unfolding qr by auto
qed

lemma region_bytes_bounds:
  assumes pg: "page_ok env" and small: "unat sz + 48 + unat (page_sz env) < 2 ^ 64"
  shows "unat sz + 48 \<le> unat (region_bytes env sz)"
    and "unat (page_sz env) dvd unat (region_bytes env sz)"
proof -
  let ?r = "sz + HDR" and ?p = "page_sz env"
  have r: "unat ?r = unat sz + 48" using small by (simp add: unat_add_no_wrap)
  let ?R = "unat sz + 48" and ?P = "unat (page_sz env)"
  have P: "0 < ?P" using pg by (simp add: page_ok_def)
  define k where "k = (if ?R mod ?P \<noteq> 0 then ?R div ?P + 1 else ?R div ?P)"
  have kR: "?R \<le> k * ?P" "k * ?P < ?R + ?P"
    unfolding k_def using P by (rule round_up_bounds)+
  have div: "unat (?r div ?p) = ?R div ?P" and md: "unat (?r mod ?p) = ?R mod ?P"
    by (simp_all add: unat_div_distrib unat_mod_distrib r)
  have "?R div ?P \<le> ?R" by (rule div_le_dividend)
  then have "?R div ?P + 1 < 2 ^ 64" using small P by linarith
  then have "unat (?r div ?p + 1) = ?R div ?P + 1"
    by (subst unat_add_no_wrap) (simp_all add: div)
  then have k: "unat (if ?r mod ?p \<noteq> 0 then ?r div ?p + 1 else ?r div ?p) = k"
    using div md by (auto simp: k_def unat_eq_zero_iff [symmetric])
  have "unat (region_bytes env sz) = k * ?P"
    unfolding region_bytes_def Let_def using kR(2) small
    by (subst unat_word_ariths) (simp add: k del: unat_eq_zero)
  with kR show "?R \<le> unat (region_bytes env sz)" "?P dvd unat (region_bytes env sz)" by simp_all
qed

lemma append_region:
  assumes inv: "alloc_inv s rs" and new: "p \<noteq> 0" "hdrs s' p = Some nb" "nxt nb = 0"
    and maps: "maps s' = maps s @ [(p, n)]" "list_all (area_sep (p, n)) (maps s)"
      "region_ok (p, n) [(p, nb)]"
    and link: "rs = [] \<Longrightarrow> g_head s' = p"
      "\<And>xs l b. concat rs = xs @ [(l, b)] \<Longrightarrow> g_head s' = g_head s
          \<and> hdrs s' l = Some (b\<lparr>nxt := p\<rparr>) \<and> (\<forall>(a, c) \<in> set xs. hdrs s' a = hdrs s a)"
  obtains rs' where "alloc_inv s' (rs' @ [[(p, nb)]])" "live rs' = live rs" "shape rs' = shape rs"
proof (cases rs rule: rev_cases)
  case Nil
  with inv have "maps s = []" by (simp add: alloc_inv_def)
  with Nil new maps link(1) have "alloc_inv s' ([] @ [[(p, nb)]])"
    by (simp add: alloc_inv_def)
  with Nil show thesis by (intro that [of "[]"]) auto
next
  case (snoc R r)
  from inv obtain M x where M: "maps s = M @ [x]" "list_all2 region_ok M R" "region_ok x r"
    unfolding alloc_inv_def snoc by (auto simp: list_all2_append2 list_all2_Cons2)
  then obtain r1 l b where r: "r = r1 @ [(l, b)]"
    by (cases r rule: rev_cases) (auto simp: region_ok_def)
  let ?b = "b\<lparr>nxt := p\<rparr>" and ?rs = "R @ [r1 @ [(l, b\<lparr>nxt := p\<rparr>)]]"
  have lk: "g_head s' = g_head s" "hdrs s' l = Some ?b"
    "\<And>a c. (a, c) \<in> set (concat R @ r1) \<Longrightarrow> hdrs s' a = hdrs s a"
    using link(2) [of "concat R @ r1" l b] by (auto simp: snoc r)
  have "alloc_inv s (R @ (r1 @ (l, b) # []) # [])" using inv snoc r by simp
  note parts = inv_split [OF this]
  have "seg (hdrs s') (g_head s') (concat R @ r1) l"
    unfolding lk(1) by (rule seg_frame [OF parts(1)], rule lk(3))
  with parts(3) lk(2) new have "seg (hdrs s') (g_head s') (concat (?rs @ [[(p, nb)]])) 0"
    by (auto simp: seg_append)
  moreover have "region_ok x (r1 @ [(l, ?b)])"
    using M(3) by (auto simp: region_ok_def r tile_append blk_ok_def)
  then have "list_all2 region_ok (maps s') (?rs @ [[(p, nb)]])"
    using M maps(1,3) by (auto intro!: list_all2_appendI)
  moreover have "sorted_wrt area_sep (maps s')"
    using inv maps(1,2)
    by (auto simp: alloc_inv_def sorted_wrt_append list_all_iff area_sep_def)
  ultimately have "alloc_inv s' (?rs @ [[(p, nb)]])" by (simp add: alloc_inv_def)
  moreover have "live ?rs = live rs" by (auto simp: live_def snoc r)
  moreover have "shape ?rs = shape rs" by (simp add: snoc r)
  ultimately show thesis by (rule that)
qed

text \<open>A fresh area is away from every block; the linking of its block behind the last one.\<close>

definition away :: "u64 \<Rightarrow> nat \<Rightarrow> blocks list \<Rightarrow> bool" where
  "away p n rs \<longleftrightarrow> (\<forall>(a, b) \<in> set (concat rs).
     unat p + n \<le> unat a \<or> unat a + unat (bsize b) \<le> unat p)"

lemma awayD:
  "\<lbrakk>away p n rs; (a, b) \<in> set (concat rs)\<rbrakk> \<Longrightarrow>
   unat p + n \<le> unat a \<or> unat a + unat (bsize b) \<le> unat p"
  unfolding away_def by blast

lemma fresh_area_away:
  assumes "alloc_inv s rs" "list_all (area_sep (p, n)) (maps s)"
  shows "away p (unat n) rs"
  unfolding away_def
proof (clarify)
  fix a b assume ab: "(a, b) \<in> set (concat rs)"
  have "list_all2 region_ok (maps s) rs" using assms(1) by (simp add: alloc_inv_def)
  from regions_in [OF this ab] obtain m l where "(m, l) \<in> set (maps s)" "blk_in (m, l) (a, b)"
    by auto
  moreover assume "\<not> unat a + unat (bsize b) \<le> unat p"
  ultimately show "unat p + unat n \<le> unat a"
    using assms(2) by (auto simp: list_all_iff area_sep_def blk_in_def)
qed

lemma away_clear:
  assumes inv: "alloc_inv s rs" and "away p n rs" "48 \<le> n" "(a, b) \<in> set (concat rs)"
  shows "clear_of p 48 a" "clear_of a 48 p"
  using awayD [OF assms(2,4)] inv_block(3) [OF inv assms(4)] assms(3)
  by (auto simp: clear_of_def blk_ok_def)

lemma away_live:
  assumes inv: "alloc_inv s rs" and "away p n rs" "(q, m) \<in> live rs"
  shows "q + m \<le> unat p \<or> unat p + n + 48 \<le> q"
proof -
  obtain a b where "(a, b) \<in> set (concat rs)" "usage b \<noteq> 0" "q = unat a + 48"
    "m = unat (usage b) - 48" using assms(3) by (rule liveE)
  with awayD [OF assms(2), of a b] inv_block(3) [OF inv, of a b] show ?thesis
    by (auto simp: blk_ok_def word_le_nat_alt)
qed

lemma head_zero: "alloc_inv s rs \<Longrightarrow> g_head s = 0 \<longleftrightarrow> rs = []"
proof
  assume inv: "alloc_inv s rs" and "g_head s = 0"
  then have "concat rs = []" by (cases "concat rs") (auto simp: alloc_inv_def)
  then show "rs = []"
    using inv by (cases rs) (auto simp: alloc_inv_def list_all2_Cons2 region_ok_def)
qed (simp add: alloc_inv_def)

lemma link_region:
  assumes inv: "alloc_inv s rs" and s2: "g_head s2 = g_head s" "maps s2 = maps s @ [(p, n)]"
      "\<And>a b. (a, b) \<in> set (concat rs) \<Longrightarrow> hdrs s2 a = hdrs s a"
    and far: "away p (unat n) rs" "48 \<le> unat n"
  obtains s3 where "(if g_head s2 = 0 then Some (s2\<lparr>g_head := p\<rparr>)
      else append_loop (g_head s2) p s2) = Some s3"
    "maps s3 = maps s2" "bytes s3 = bytes s2" "g_allocations s3 = g_allocations s2"
    "hdrs s3 p = hdrs s2 p" "rs = [] \<Longrightarrow> g_head s3 = p"
    "\<And>xs l b. concat rs = xs @ [(l, b)] \<Longrightarrow> g_head s3 = g_head s
        \<and> hdrs s3 l = Some (b\<lparr>nxt := p\<rparr>) \<and> (\<forall>(a, c) \<in> set xs. hdrs s3 a = hdrs s a)"
proof (cases "rs = []")
  case True
  then show thesis
    using head_zero [OF inv] s2(1) by (intro that [of "s2\<lparr>g_head := p\<rparr>"]) auto
next
  case False
  then have "g_head s \<noteq> 0" using head_zero [OF inv] by simp
  then have "concat rs \<noteq> []" using inv unfolding alloc_inv_def by (metis seg.simps(1))
  then obtain xs l b where eq: "concat rs = xs @ [(l, b)]"
    by (cases "concat rs" rule: rev_cases) auto
  then have lb: "(l, b) \<in> set (concat rs)" by simp
  have seg: "seg (hdrs s) (g_head s) (concat rs) 0" using inv by (simp add: alloc_inv_def)
  have "seg (hdrs s2) (g_head s2) (concat rs) 0"
    unfolding s2(1) by (rule seg_frame [OF seg], rule s2(3))
  then have "seg (hdrs s2) (g_head s2) (xs @ [(l, b)]) 0" using eq by simp
  note loop = append_loop_seg [OF this]
  have "mapped s l 48" using inv_block(3,5) [OF inv lb] by (simp add: blk_ok_def)
  then have "mapped s2 l 48" by (auto simp: mapped_def s2(2))
  then obtain s3 where s3: "store_hdr l (b\<lparr>nxt := p\<rparr>) s2 = Some s3" "g_head s3 = g_head s2"
    "maps s3 = maps s2" "bytes s3 = bytes s2" "g_allocations s3 = g_allocations s2"
    "hdrs s3 l = Some (b\<lparr>nxt := p\<rparr>)" "\<And>x. clear_of l 48 x \<Longrightarrow> hdrs s3 x = hdrs s2 x"
    by (rule store_hdr_mapped) blast
  have others: "hdrs s3 a = hdrs s a" if ac: "(a, c) \<in> set xs" for a c
  proof -
    have "clear_of l 48 a"
      using inv_block(3) [OF inv lb] ac eq
      by (intro inv_clear [OF inv, of xs l b "[]" a c]) (auto simp: blk_ok_def)
    then show ?thesis using s3(7) s2(3) [of a c] ac eq by simp
  qed
  show thesis
  proof (rule that [OF _ s3(3-5)])
    show "hdrs s3 p = hdrs s2 p" by (rule s3(7) [OF away_clear(2) [OF inv far lb]])
  qed (use loop s3 s2 \<open>g_head s \<noteq> 0\<close> others eq False in auto)
qed

text \<open>The freshly mapped block: its header, and that it forms a region of its own.\<close>

definition fresh_block :: "u64 \<Rightarrow> u64 \<Rightarrow> u64 \<Rightarrow> u64 \<Rightarrow> mem_block" where
  "fresh_block i p n sz = \<lparr>alloc_id = i, bsize = n, usage = sz + HDR, region_start = p,
    region_size = n, nxt = 0\<rparr>"

lemma fresh_block_ok:
  assumes "page_ok env" "unat sz + 48 + unat (page_sz env) < 2 ^ 64" "8 dvd unat sz"
    and "unat (page_sz env) dvd unat p" "p \<noteq> 0" "unat p + unat (region_bytes env sz) < 2 ^ 64"
  shows "region_ok (p, region_bytes env sz) [(p, fresh_block i p (region_bytes env sz) sz)]"
    and "live_blk (p, fresh_block i p (region_bytes env sz) sz) = {(unat p + 48, unat sz)}"
    and "48 + unat sz \<le> unat (region_bytes env sz)" and "8 dvd unat p"
proof -
  have n: "unat sz + 48 \<le> unat (region_bytes env sz)"
    "unat (page_sz env) dvd unat (region_bytes env sz)"
    by (rule region_bytes_bounds [OF assms(1,2)])+
  have us: "unat (sz + HDR) = unat sz + 48" using assms(2) by (simp add: unat_add_no_wrap)
  show dvd8: "8 dvd unat p" using assms(1,4) dvd_trans by (auto simp: page_ok_def)
  moreover have "8 dvd unat (region_bytes env sz)"
    using assms(1) n(2) dvd_trans by (auto simp: page_ok_def)
  ultimately show "region_ok (p, region_bytes env sz) [(p, fresh_block i p (region_bytes env sz) sz)]"
    using assms n us by (auto simp: region_ok_def blk_ok_def word_le_nat_alt fresh_block_def)
  have "sz + HDR \<noteq> 0" using us by (metis add_is_0 unat_0 zero_neq_numeral)
  then show "live_blk (p, fresh_block i p (region_bytes env sz) sz) = {(unat p + 48, unat sz)}"
    using us by (simp add: fresh_block_def)
  show "48 + unat sz \<le> unat (region_bytes env sz)" using n by simp
qed

lemma new_region_ok:
  assumes inv: "alloc_inv s rs" and pg: "page_ok env"
    and small: "unat sz + 48 + unat (page_sz env) < 2 ^ 64" and al: "8 dvd unat sz"
    and map: "mmap env (maps s) (region_bytes env sz) = Some p"
    and fresh: "mmap_fresh env (maps s) (region_bytes env sz)"
  obtains s' rs' where "new_region env sz s = Some (p + HDR, s')" "alloc_inv s' rs'"
    "maps s' = maps s @ [(p, region_bytes env sz)]" "g_allocations s' = g_allocations s + 1"
    "live rs' = insert (unat p + 48, unat sz) (live rs)" "unat p + 48 + unat sz < 2 ^ 64"
    "8 dvd unat p"
    "\<And>q m. (q, m) \<in> live rs \<Longrightarrow>
       q + m \<le> unat p \<or> unat p + unat (region_bytes env sz) + 48 \<le> q"
    "bytes s' = scribble_bytes env (p + HDR) (unat sz)
       (\<lambda>x. if in_range p (unat (region_bytes env sz)) x then 0 else bytes s x)"
    "shape rs' = shape rs @ [[(p, fresh_block (g_allocations s) p (region_bytes env sz) sz)]]"
proof -
  let ?n = "region_bytes env sz" and ?i = "g_allocations s"
  let ?nb = "fresh_block ?i p ?n sz"
  from fresh map have p: "p \<noteq> 0" "unat (page_sz env) dvd unat p" "unat p + unat ?n < 2 ^ 64"
    "list_all (area_sep (p, ?n)) (maps s)" by (auto simp: mmap_fresh_def)
  note nb = fresh_block_ok [OF pg small al p(2,1,3)]
  have n48: "48 \<le> unat ?n" using nb(3) by simp
  note far = fresh_area_away [OF inv p(4)]
  have "mapped (map_area p ?n s) p 48" using nb(3) by (simp add: map_area_def mapped_def)
  then obtain s1 where s1: "store_hdr p ?nb (map_area p ?n s) = Some s1"
    "g_head s1 = g_head s" "maps s1 = maps s @ [(p, ?n)]" "g_allocations s1 = g_allocations s"
    "bytes s1 = (\<lambda>x. if in_range p (unat ?n) x then 0 else bytes s x)" "hdrs s1 p = Some ?nb"
    "\<And>x. clear_of p 48 x \<Longrightarrow> hdrs s1 x = hdrs s x"
    by (rule store_hdr_mapped) (auto simp: map_area_def)
  let ?s2 = "s1\<lparr>g_allocations := g_allocations s1 + 1\<rparr>"
  have old: "hdrs ?s2 a = hdrs s a" if "(a, b) \<in> set (concat rs)" for a b
    using s1(7) [OF away_clear(1) [OF inv far n48 that]] by simp
  have hd2: "g_head ?s2 = g_head s" and maps2: "maps ?s2 = maps s @ [(p, ?n)]"
    by (simp_all add: s1)
  obtain s3 where s3: "(if g_head ?s2 = 0 then Some (?s2\<lparr>g_head := p\<rparr>)
      else append_loop (g_head ?s2) p ?s2) = Some s3"
    and keep: "maps s3 = maps ?s2" "bytes s3 = bytes ?s2" "g_allocations s3 = g_allocations ?s2"
      "hdrs s3 p = hdrs ?s2 p"
    and link: "rs = [] \<Longrightarrow> g_head s3 = p"
      "\<And>xs l b. concat rs = xs @ [(l, b)] \<Longrightarrow> g_head s3 = g_head s
          \<and> hdrs s3 l = Some (b\<lparr>nxt := p\<rparr>) \<and> (\<forall>(a, c) \<in> set xs. hdrs s3 a = hdrs s a)"
    by (rule link_region [OF inv hd2 maps2 old far n48]) blast+
  have p3: "hdrs s3 p = Some ?nb" and maps3: "maps s3 = maps s @ [(p, ?n)]"
    by (simp_all add: keep s1)
  obtain rs0 where inv3: "alloc_inv s3 (rs0 @ [[(p, ?nb)]])" and live: "live rs0 = live rs" "shape rs0 = shape rs"
    by (rule append_region [OF inv p(1) p3 _ maps3 p(4) nb(1) link]) (auto simp: fresh_block_def)
  obtain s' where s': "scribbled env (p + HDR) sz s3 = Some s'"
    "alloc_inv s' (rs0 @ [[(p, ?nb)]])" "maps s' = maps s3" "g_allocations s' = g_allocations s3"
    "bytes s' = scribble_bytes env (p + HDR) (unat sz) (bytes s3)"
    by (rule scribbled_payload [OF inv3, of p ?nb sz env]) (use nb(3) in \<open>auto simp: fresh_block_def\<close>)
  show thesis
  proof (rule that [OF _ s'(2)])
    show "new_region env sz s = Some (p + HDR, s')"
      using map s1(1) s1(4) s3 s'(1)
      by (simp add: new_region_def region_bytes_def Let_def map_area_def fresh_block_def)
    show "live (rs0 @ [[(p, ?nb)]]) = insert (unat p + 48, unat sz) (live rs)"
      using nb(2) live by (auto simp: live_def)
    show "shape (rs0 @ [[(p, ?nb)]]) = shape rs @ [[(p, ?nb)]]"
      using live by (simp add: fresh_block_def)
  qed (use s' keep s1 p nb away_live [OF inv far] in auto)
qed

section \<open>\<open>malloc\<close>\<close>

lemma align8_bounds:
  assumes "unat req + 7 < 2 ^ 64"
  shows "8 dvd unat (align8 req)" "unat req \<le> unat (align8 req)" "unat (align8 req) < unat req + 8"
proof -
  have m: "unat (req mod 8) = unat req mod 8" by (simp add: unat_mod_distrib)
  have "unat (align8 req) = (if unat req mod 8 \<noteq> 0 then unat req + (8 - unat req mod 8) else unat req)"
  proof (cases "unat req mod 8 = 0")
    case True
    then have "req mod 8 = 0" using m by (simp add: unat_eq_zero_iff [symmetric])
    with True show ?thesis by (simp add: align8_def)
  next
    case False
    then have ne: "req mod 8 \<noteq> 0" using m by (metis unat_0)
    have le: "req mod 8 \<le> 8" by (simp add: word_le_nat_alt m)
    have sub: "unat (8 - req mod 8) = 8 - unat req mod 8" using unat_sub [OF le] m by simp
    have "unat (req + (8 - req mod 8)) = unat req + (8 - unat req mod 8)"
      using assms False by (subst unat_add_no_wrap) (simp_all add: sub)
    with ne False show ?thesis by (simp add: align8_def)
  qed
  moreover obtain q r where "unat req = 8 * q + r" "r < 8" "unat req mod 8 = r"
    by (metis mod_less_divisor mult_div_mod_eq zero_less_numeral)
  ultimately have "unat (align8 req) = 8 * (if r = 0 then q else q + 1)"
    "unat req = 8 * q + r" "r < 8" by auto
  then show "8 dvd unat (align8 req)" "unat req \<le> unat (align8 req)"
    "unat (align8 req) < unat req + 8" by (auto split: if_splits)
qed

text \<open>
  What a successful call gives: the payload at \<open>p\<close> of \<open>n\<close> bytes becomes live, 8-aligned,
  away from every payload that was live before, whose bytes it leaves alone.
\<close>

definition malloc_gives ::
  "alloc_env \<Rightarrow> alloc_state \<Rightarrow> blocks list \<Rightarrow> nat \<Rightarrow> u64 \<Rightarrow> alloc_state \<Rightarrow> bool" where
  "malloc_gives env s rs n p s' \<longleftrightarrow> (\<exists>rs'. alloc_inv s' rs'
     \<and> live rs' = insert (unat p, n) (live rs)
     \<and> 8 dvd unat p \<and> mapped s' p n
     \<and> (\<forall>(q, m) \<in> live rs. q + m + 48 \<le> unat p \<or> unat p + n + 48 \<le> q)
     \<and> (\<forall>x. in_live rs x \<longrightarrow> bytes s' x = bytes s x)
     \<and> (scribble env \<longrightarrow> (\<forall>x. in_range p n x \<longrightarrow> bytes s' x = 0xAA)))"

lemma malloc_givesI:
  assumes "alloc_inv s' rs'" "live rs' = insert (unat h + 48, n) (live rs)" "8 dvd unat h"
    and "unat h + 48 + n < 2 ^ 64"
    and sep: "\<And>q m. (q, m) \<in> live rs \<Longrightarrow> q + m \<le> unat h \<or> unat h + 48 + n + 48 \<le> q"
    and bytes: "bytes s' = scribble_bytes env (h + HDR) n f" "\<And>x. in_live rs x \<Longrightarrow> f x = bytes s x"
  shows "malloc_gives env s rs n (h + HDR) s'"
proof -
  have p: "unat (h + HDR) = unat h + 48" using assms(4) by (intro addr_HDR) simp
  have "(unat h + 48, n) \<in> live rs'" using assms(2) by simp
  then obtain a b where ab: "(a, b) \<in> set (concat rs')" "usage b \<noteq> 0" "unat h + 48 = unat a + 48"
    "n = unat (usage b) - 48" by (rule liveE)
  have "mapped s' (h + HDR) n"
    using inv_block(3,5) [OF assms(1) ab(1)] ab p by (auto simp: blk_ok_def word_le_nat_alt)
  moreover have "8 dvd unat (h + HDR)" unfolding p using assms(3) by presburger
  moreover have "bytes s' x = bytes s x" if "in_live rs x" for x
  proof -
    have "scribble_bytes env (h + HDR) n f x = f x"
      by (rule scribble_keeps_live [OF _ that]) (use p sep in fastforce)
    then show ?thesis using bytes that by simp
  qed
  moreover have "scribble env \<Longrightarrow> in_range (h + HDR) n x \<Longrightarrow> bytes s' x = 0xAA" for x
    by (simp add: bytes(1) scribble_bytes_def)
  moreover have "\<forall>(q, m) \<in> live rs. q + m + 48 \<le> unat (h + HDR) \<or> unat (h + HDR) + n + 48 \<le> q"
    using sep p by fastforce
  moreover have "live rs' = insert (unat (h + HDR), n) (live rs)" using assms(2) p by simp
  ultimately show ?thesis
    unfolding malloc_gives_def using assms(1) by blast
qed

lemma take_block_gives:
  assumes inv: "alloc_inv s rs" and ab: "(a, b) \<in> set (concat rs)" and free: "usage b = 0"
    and room: "unat sz + 48 \<le> unat (bsize b)" and al: "8 dvd unat sz"
  obtains s' where "take_block env a sz s = Some (a + HDR, s')"
    "malloc_gives env s rs (unat sz) (a + HDR) s'"
proof -
  obtain R1 r1 r2 R2 where rs: "rs = R1 @ (r1 @ (a, b) # r2) # R2" using ab by (rule region_of_block)
  note inv' = inv [unfolded rs] and B = inv_block [OF inv ab]
  let ?b = "b\<lparr>alloc_id := g_allocations s, usage := sz + HDR\<rparr>"
  let ?rs = "R1 @ (r1 @ (a, ?b) # r2) # R2"
  obtain s' where s': "take_block env a sz s = Some (a + HDR, s')" "alloc_inv s' ?rs"
    "bytes s' = scribble_bytes env (a + HDR) (unat sz) (bytes s)"
    by (rule take_block_ok [OF inv' free _ al, of env]) (use room in auto)
  have us: "unat (sz + HDR) = unat sz + 48" using room B(4) by (simp add: unat_add_no_wrap)
  then have "sz + HDR \<noteq> 0" by (metis add_is_0 unat_0 zero_neq_numeral)
  then have live: "live ?rs = insert (unat a + 48, unat sz) (live rs)"
    using free us by (auto simp: live_def rs)
  have "malloc_gives env s rs (unat sz) (a + HDR) s'"
  proof (rule malloc_givesI [OF s'(2) live _ _ _ s'(3)])
    show "q + m \<le> unat a \<or> unat a + 48 + unat sz + 48 \<le> q" if "(q, m) \<in> live rs" for q m
      by (rule unused_part_sep [OF inv ab _ _ that]) (use free room in auto)
  qed (use B room inv_aligned [OF inv ab] in auto)
  with s'(1) show thesis by (rule that)
qed

lemma split_block_gives:
  assumes inv: "alloc_inv s rs" and ab: "(a, b) \<in> set (concat rs)" and used: "usage b \<noteq> 0"
    and room: "unat (usage b) + (unat sz + 48) \<le> unat (bsize b)" and al: "8 dvd unat sz"
  obtains s' where "split_block env a sz s = Some (a + usage b + HDR, s')"
    "malloc_gives env s rs (unat sz) (a + usage b + HDR) s'"
proof -
  obtain R1 r1 r2 R2 where rs: "rs = R1 @ (r1 @ (a, b) # r2) # R2" using ab by (rule region_of_block)
  note inv' = inv [unfolded rs] and B = inv_block [OF inv ab]
  let ?h = "a + usage b"
  let ?nb = "\<lparr>alloc_id = g_allocations s, bsize = bsize b - usage b, usage = sz + HDR,
        region_start = region_start b, region_size = region_size b, nxt = nxt b\<rparr>"
  let ?rs = "R1 @ (r1 @ (a, b\<lparr>bsize := usage b, nxt := ?h\<rparr>) # (?h, ?nb) # r2) # R2"
  obtain s' where s': "split_block env a sz s = Some (?h + HDR, s')" "alloc_inv s' ?rs"
    "unat ?h = unat a + unat (usage b)" "unat (usage ?nb) = unat sz + 48"
    "bytes s' = scribble_bytes env (?h + HDR) (unat sz) (bytes s)"
    by (rule split_block_ok [OF inv' used room al, of env]) auto
  have "sz + HDR \<noteq> 0" using s'(4) by (metis add_is_0 mem_block.select_convs(3) unat_0 zero_neq_numeral)
  then have live: "live ?rs = insert (unat ?h + 48, unat sz) (live rs)"
    using used s'(4) by (auto simp: live_def rs)
  have "malloc_gives env s rs (unat sz) (?h + HDR) s'"
  proof (rule malloc_givesI [OF s'(2) live _ _ _ s'(5)])
    show "8 dvd unat ?h"
      using inv_aligned [OF inv ab] B(3) by (simp add: s'(3) blk_ok_def)
    show "q + m \<le> unat ?h \<or> unat ?h + 48 + unat sz + 48 \<le> q" if "(q, m) \<in> live rs" for q m
      by (rule unused_part_sep [OF inv ab _ _ that]) (use s'(3) room in auto)
  qed (use B(4) room s'(3) in auto)
  with s'(1) show thesis by (rule that)
qed

lemma new_region_gives:
  assumes inv: "alloc_inv s rs" and pg: "page_ok env"
    and small: "unat sz + 48 + unat (page_sz env) < 2 ^ 64" and al: "8 dvd unat sz"
    and fresh: "mmap_fresh env (maps s) (region_bytes env sz)"
  shows "(mmap env (maps s) (region_bytes env sz) = None \<and> new_region env sz s = Some (0, s))
    \<or> (\<exists>p s'. p \<noteq> 0 \<and> new_region env sz s = Some (p, s') \<and> malloc_gives env s rs (unat sz) p s')"
proof (cases "mmap env (maps s) (region_bytes env sz)")
  case None
  then show ?thesis by (simp add: new_region_def region_bytes_def Let_def)
next
  case (Some p)
  let ?n = "region_bytes env sz"
  obtain s' rs' where s': "new_region env sz s = Some (p + HDR, s')" "alloc_inv s' rs'"
    "maps s' = maps s @ [(p, ?n)]" "g_allocations s' = g_allocations s + 1"
    "live rs' = insert (unat p + 48, unat sz) (live rs)" "unat p + 48 + unat sz < 2 ^ 64"
    "8 dvd unat p" "\<And>q m. (q, m) \<in> live rs \<Longrightarrow> q + m \<le> unat p \<or> unat p + unat ?n + 48 \<le> q"
    "bytes s' = scribble_bytes env (p + HDR) (unat sz)
       (\<lambda>x. if in_range p (unat ?n) x then 0 else bytes s x)"
    by (rule new_region_ok [OF inv pg small al Some fresh]) blast
  have n: "unat sz + 48 \<le> unat ?n" by (rule region_bytes_bounds(1) [OF pg small])
  have "malloc_gives env s rs (unat sz) (p + HDR) s'"
  proof (rule malloc_givesI [OF s'(2,5,7,6) _ s'(9)])
    show "q + m \<le> unat p \<or> unat p + 48 + unat sz + 48 \<le> q" if "(q, m) \<in> live rs" for q m
      using s'(8) [OF that] n by auto
    show "(if in_range p (unat ?n) x then 0 else bytes s x) = bytes s x" if "in_live rs x" for x
      using that s'(8) by (fastforce simp: in_live_def in_range_def)
  qed
  moreover have "p + HDR \<noteq> 0"
    using addr_HDR [of p] s'(6) by (metis add_is_0 add_lessD1 unat_0 zero_neq_numeral)
  ultimately show ?thesis using s'(1) by blast
qed

lemma malloc_cases:
  assumes inv: "alloc_inv s rs" and pg: "page_ok env"
    and small: "unat req + 55 + unat (page_sz env) < 2 ^ 64"
    and fresh: "mmap_fresh env (maps s) (region_bytes env (align8 req))"
  shows "(malloc env req s = Some (0, s) \<and> mmap env (maps s) (region_bytes env (align8 req)) = None)
    \<or> (\<exists>p s'. p \<noteq> 0 \<and> malloc env req s = Some (p, s')
          \<and> malloc_gives env s rs (unat (align8 req)) p s')"
proof -
  let ?sz = "align8 req"
  have sz: "8 dvd unat ?sz" "unat ?sz < unat req + 8"
    using align8_bounds [of req] small by auto
  have seg: "seg (hdrs s) (g_head s) (concat rs) 0" using inv by (simp add: alloc_inv_def)
  have ok: "usage b \<le> bsize b" if "(a, b) \<in> set (concat rs)" for a b
    using inv_block(3) [OF inv that] by (simp add: blk_ok_def)
  have small48: "unat ?sz + 48 < 2 ^ 64" using sz small by simp
  have "\<exists>r. reuse env ?sz s = Some r \<and> (r = 0 \<or>
      (\<exists>b. (r, b) \<in> set (concat rs) \<and> unat (usage b) + (unat ?sz + 48) \<le> unat (bsize b)))"
    by (rule reuse_room [OF seg _ small48]) (rule ok)
  then obtain r where r: "reuse env ?sz s = Some r" and found: "r = 0 \<or>
      (\<exists>b. (r, b) \<in> set (concat rs) \<and> unat (usage b) + (unat ?sz + 48) \<le> unat (bsize b))"
    by blast
  show ?thesis
  proof (cases "r = 0")
    case True
    have "unat ?sz + 48 + unat (page_sz env) < 2 ^ 64" using sz small by simp
    with new_region_gives [OF inv pg this sz(1) fresh] True r show ?thesis
      by (auto simp: malloc_def)
  next
    case False
    with found obtain b where b: "(r, b) \<in> set (concat rs)"
      "unat (usage b) + (unat ?sz + 48) \<le> unat (bsize b)" by blast
    note B = inv_block [OF inv b(1)]
    have nz: "h + HDR \<noteq> 0" if "unat h + 48 < 2 ^ 64" for h
      using addr_HDR [OF that] by (metis add_is_0 unat_0 zero_neq_numeral)
    show ?thesis
    proof (cases "usage b = 0")
      case True
      obtain s' where "take_block env r ?sz s = Some (r + HDR, s')"
        "malloc_gives env s rs (unat ?sz) (r + HDR) s'"
        by (rule take_block_gives [OF inv b(1) True _ sz(1), of env]) (use b True in auto)
      then show ?thesis using r B(1,4) b(2) False True nz [of r]
        by (auto simp: malloc_def)
    next
      case used: False
      obtain s' where "split_block env r ?sz s = Some (r + usage b + HDR, s')"
        "malloc_gives env s rs (unat ?sz) (r + usage b + HDR) s'"
        by (rule split_block_gives [OF inv b(1) used b(2) sz(1)])
      moreover have "unat (r + usage b) = unat r + unat (usage b)"
        using B(4) b(2) by (intro unat_add_no_wrap) simp
      then have "r + usage b + HDR \<noteq> 0" using B(4) b(2) by (intro nz) simp
      ultimately show ?thesis using r B(1) False used by (auto simp: malloc_def)
    qed
  qed
qed

end
