(* ===== verification/Alloc_Free.thy ===== *)
theory Alloc_Free
  imports Alloc_Malloc
begin

text \<open>
  \<open>free\<close>: a block of a region with other blocks in use is only marked; the last block of a
  region in use takes the whole region out of the chain and unmaps it.
\<close>

section \<open>Unmapping an area\<close>

lemma cut_area_self: "0 < unat n \<Longrightarrow> cut_area m n (m, n) = []"
  by (simp add: cut_area_def)

lemma cut_area_sep: "area_sep (m, n) x \<Longrightarrow> cut_area m n x = [x]"
  by (auto simp: cut_area_def area_sep_def split: prod.splits)

lemma cut_areas_sep: "list_all (area_sep (m, n)) ms \<Longrightarrow> concat (map (cut_area m n) ms) = ms"
  by (induction ms) (auto simp: cut_area_sep)

lemma area_sep_sym: "area_sep x y \<longleftrightarrow> area_sep y x"
  by (auto simp: area_sep_def)

lemma unmap_maps:
  assumes "sorted_wrt area_sep (M1 @ (m, n) # M2)" "0 < unat n"
  shows "concat (map (cut_area m n) (M1 @ (m, n) # M2)) = M1 @ M2"
proof -
  have "list_all (area_sep (m, n)) M1" "list_all (area_sep (m, n)) M2"
    using assms(1) area_sep_sym by (auto simp: sorted_wrt_append list_all_iff)
  then show ?thesis using assms(2) by (simp add: cut_areas_sep cut_area_self)
qed

section \<open>Regions of a well-formed state\<close>

lemma inv_region:
  assumes "alloc_inv s (R1 @ r # R2)"
  obtains M1 m n M2 q where "maps s = M1 @ (m, n) # M2" "list_all2 region_ok M1 R1"
    "region_ok (m, n) r" "list_all2 region_ok M2 R2" "sorted_wrt area_sep (M1 @ (m, n) # M2)"
    "seg (hdrs s) (g_head s) (concat R1) m" "seg (hdrs s) m r q" "seg (hdrs s) q (concat R2) 0"
proof -
  from assms obtain M1 x M2 where M: "maps s = M1 @ x # M2" "list_all2 region_ok M1 R1"
    "region_ok x r" "list_all2 region_ok M2 R2" "sorted_wrt area_sep (M1 @ x # M2)"
    by (auto simp: alloc_inv_def list_all2_append2 list_all2_Cons2)
  obtain m n where x: "x = (m, n)" by (cases x)
  from assms obtain p q where "seg (hdrs s) (g_head s) (concat R1) p" "seg (hdrs s) p r q"
    "seg (hdrs s) q (concat R2) 0" by (auto simp: alloc_inv_def seg_append)
  moreover have "p = m"
  proof -
    obtain a b r' where r: "r = (a, b) # r'" using M(3) by (cases r) (auto simp: region_ok_def)
    with M(3) x have "a = m" by (auto simp: region_ok_def word_unat_eq_iff)
    with \<open>seg (hdrs s) p r q\<close> r show ?thesis by simp
  qed
  ultimately show thesis using M x by (intro that) auto
qed

text \<open>The blocks of the other regions lie outside the area.\<close>

lemma regions_away:
  assumes "list_all2 region_ok M R" "list_all (area_sep (m, n)) M" "(a, b) \<in> set (concat R)"
  shows "unat m + unat n \<le> unat a \<or> unat a + unat (bsize b) \<le> unat m"
    and "48 \<le> unat (bsize b)"
proof -
  from regions_in [OF assms(1,3)] obtain x where "x \<in> set M" "blk_in x (a, b)" by blast
  then show "unat m + unat n \<le> unat a \<or> unat a + unat (bsize b) \<le> unat m"
    "48 \<le> unat (bsize b)"
    using assms(2) by (auto simp: list_all_iff area_sep_def blk_in_def blk_ok_def)
qed

lemma region_start_of:
  "\<lbrakk>region_ok (m, n) r; (a, b) \<in> set r\<rbrakk> \<Longrightarrow> region_start b = m \<and> region_size b = n"
  by (auto simp: region_ok_def list_all_iff)

lemma next_region_start:
  assumes "list_all2 region_ok M R" "list_all (area_sep (m, n)) M" "0 < unat n"
    and "seg h q (concat R) 0"
  shows "q = 0 \<or> (\<exists>b. h q = Some b \<and> region_start b \<noteq> m)"
proof (cases R)
  case (Cons r R')
  with assms(1) obtain x M' where x: "M = x # M'" "region_ok x r" by (auto simp: list_all2_Cons2)
  obtain m' n' where x': "x = (m', n')" by (cases x)
  obtain a b r' where r: "r = (a, b) # r'" using x by (cases r) (auto simp: region_ok_def)
  have "region_start b = m'" using region_start_of [of m' n' r a b] x x' r by simp
  moreover have "unat a + unat (bsize b) \<le> unat m' + unat n'" "unat a = unat m'" "blk_ok b"
    using x x' r tile_bounds [of "unat m'" "unat m' + unat n'" r]
    by (auto simp: region_ok_def)
  then have "0 < unat n'" by (auto simp: blk_ok_def)
  then have "m' \<noteq> m" using assms(2,3) x x' by (auto simp: area_sep_def)
  ultimately show ?thesis using assms(4) Cons r by auto
qed (use assms(4) in simp)

lemma region_pos: "region_ok (m, n) r \<Longrightarrow> 0 < unat n"
  by (cases r) (auto simp: region_ok_def blk_ok_def dest!: tile_bounds)

section \<open>Taking a region out of the chain\<close>

lemma unlink_region_ok:
  assumes inv: "alloc_inv s (R1 @ r # R2)"
    and M: "maps s = M1 @ (m, n) # M2" "list_all2 region_ok M1 R1" "region_ok (m, n) r"
    and q: "seg (hdrs s) (g_head s) (concat R1) m" "seg (hdrs s) q (concat R2) 0"
  obtains s' R1' where "unlink_region m q s = Some s'" "maps s' = maps s" "bytes s' = bytes s"
    "g_allocations s' = g_allocations s" "list_all2 region_ok M1 R1'" "live R1' = live R1"
    "seg (hdrs s') (g_head s') (concat (R1' @ R2)) 0"
    "\<And>a b. (a, b) \<in> set r \<Longrightarrow> hdrs s' a = Some b" "shape R1' = shape R1"
proof (cases R1 rule: rev_cases)
  case Nil
  then have "g_head s = m" using q(1) by simp
  then show thesis
    using Nil q(2) M inv_block(1) [OF inv]
    by (intro that [of "s\<lparr>g_head := q\<rparr>" "[]"]) (auto simp: unlink_region_def)
next
  case (snoc R r0)
  with M(2) obtain M0 x where M0: "M1 = M0 @ [x]" "list_all2 region_ok M0 R" "region_ok x r0"
    by (auto simp: list_all2_append2 list_all2_Cons2)
  then obtain r1 l c where r0: "r0 = r1 @ [(l, c)]"
    by (cases r0 rule: rev_cases) (auto simp: region_ok_def)
  let ?c = "c\<lparr>nxt := q\<rparr>"
  have eq: "concat (R1 @ r # R2) = (concat R @ r1) @ (l, c) # (r @ concat R2)"
    by (simp add: snoc r0)
  have lc: "(l, c) \<in> set (concat (R1 @ r # R2))" by (simp add: snoc r0)
  note B = inv_block [OF inv lc]
  obtain a0 b0 r' where r: "r = (a0, b0) # r'" using M(3) by (cases r) (auto simp: region_ok_def)
  then have a0: "a0 = m" using M(3) by (auto simp: region_ok_def word_unat_eq_iff)
  have ne: "a \<noteq> m" if "(a, b) \<in> set (concat R @ r1 @ [(l, c)])" for a b
  proof -
    have "concat (R1 @ r # R2) = (concat R @ r1 @ [(l, c)]) @ (a0, b0) # (r' @ concat R2)"
      by (simp add: snoc r0 r)
    from inv_sep [OF inv this, of a b] that
    have sep: "unat a0 + unat (bsize b0) \<le> unat a \<or> unat a + unat (bsize b) \<le> unat a0" by auto
    have "(a, b) \<in> set (concat (R1 @ r # R2))" "(a0, b0) \<in> set (concat (R1 @ r # R2))"
      using that by (auto simp: snoc r0 r)
    then have "48 \<le> unat (bsize b)" "48 \<le> unat (bsize b0)"
      using inv_block(3) [OF inv] by (auto simp: blk_ok_def)
    with sep a0 show ?thesis by auto
  qed
  have seg: "seg (hdrs s) (g_head s) ((concat R @ r1) @ [(l, c)]) m" using q(1) by (simp add: snoc r0)
  have find: "find_prev_loop (hdrs s) m (g_head s) = Some l"
    by (rule find_prev_loop_seg [OF seg]) (use ne in fastforce)+
  have head: "g_head s \<noteq> m"
  proof -
    obtain y ys where ys: "concat R @ r1 @ [(l, c)] = y # ys" by (cases "concat R @ r1 @ [(l, c)]") auto
    then have "(fst y, snd y) \<in> set (concat R @ r1 @ [(l, c)])" by simp
    then have "fst y \<noteq> m" by (rule ne)
    moreover have "g_head s = fst y" using seg_head [OF seg] ys by simp
    ultimately show ?thesis by simp
  qed
  have "mapped s l 48" using B(3,5) by (simp add: blk_ok_def)
  then obtain s1 where s1: "store_hdr l ?c s = Some s1" "g_head s1 = g_head s" "maps s1 = maps s"
    "bytes s1 = bytes s" "g_allocations s1 = g_allocations s" "hdrs s1 l = Some ?c"
    "\<And>x. clear_of l 48 x \<Longrightarrow> hdrs s1 x = hdrs s x" by (rule store_hdr_mapped) blast
  have others: "hdrs s1 x = hdrs s x" if "(x, d) \<in> set (concat R @ r1) \<union> set (r @ concat R2)" for x d
    using B(3) by (intro s1(7) inv_clear [OF inv eq that]) (auto simp: blk_ok_def)
  show thesis
  proof (rule that [of s1 "R @ [r1 @ [(l, ?c)]]"])
    show "unlink_region m q s = Some s1" using head find B(1,2) s1(1) by (simp add: unlink_region_def)
    show "list_all2 region_ok M1 (R @ [r1 @ [(l, ?c)]])"
      using M0 by (auto simp: r0 region_ok_def tile_append blk_ok_def intro!: list_all2_appendI)
    show "live (R @ [r1 @ [(l, ?c)]]) = live R1" by (auto simp: live_def snoc r0)
    show "shape (R @ [r1 @ [(l, ?c)]]) = shape R1" by (simp add: snoc r0)
    have "seg (hdrs s) (g_head s) (concat R @ r1) l" using seg by (auto simp: seg_append)
    then have "seg (hdrs s1) (g_head s) (concat R @ r1) l" by (rule seg_frame) (rule others, blast)
    moreover have "seg (hdrs s1) q (concat R2) 0" by (rule seg_frame [OF q(2)], rule others, auto)
    ultimately show "seg (hdrs s1) (g_head s1) (concat ((R @ [r1 @ [(l, ?c)]]) @ R2)) 0"
      using s1(2,6) B(2) by (auto simp: seg_append)
    show "hdrs s1 a = Some b" if "(a, b) \<in> set r" for a b
      using others [of a b] that inv_block(1) [OF inv, of a b] by auto
  qed (simp_all add: s1)
qed

section \<open>\<open>free\<close>\<close>

lemma live_append: "live (R1 @ R2) = live R1 \<union> live R2"
  by (auto simp: live_def)

lemma live_free_region: "(\<And>a b. (a, b) \<in> set r \<Longrightarrow> usage b = 0) \<Longrightarrow> live (r # R) = live R"
  by (force simp: live_def)

lemma union_insert_minus:
  "(\<And>y. y \<in> A \<Longrightarrow> x \<notin> f y) \<Longrightarrow> insert x (\<Union>y \<in> A. f y) - {x} = (\<Union>y \<in> A. f y)"
  by blast

lemma live_mark_free:
  assumes inv: "alloc_inv s (R1 @ (r1 @ (a, b) # r2) # R2)" (is "alloc_inv s ?rs")
    and used: "usage b \<noteq> 0"
  shows "live (R1 @ (r1 @ (a, b\<lparr>usage := 0\<rparr>) # r2) # R2)
    = live ?rs - {(unat a + 48, unat (usage b) - 48)}"
proof -
  let ?ys = "concat R1 @ r1" and ?zs = "r2 @ concat R2"
  have eq: "concat ?rs = ?ys @ (a, b) # ?zs" by simp
  let ?x = "(unat a + 48, unat (usage b) - 48)"
  have out: "?x \<notin> live_blk y" if "y \<in> set ?ys \<union> set ?zs" for y
  proof -
    obtain c d where y: "y = (c, d)" by (cases y)
    have "(c, d) \<in> set (concat ?rs)" using that y by auto
    then have "48 \<le> unat (bsize d)" using inv_block(3) [OF inv] by (auto simp: blk_ok_def)
    moreover have "48 \<le> unat (bsize b)" using inv_block(3) [OF inv, of a b] by (simp add: blk_ok_def)
    ultimately have "unat c \<noteq> unat a" using inv_sep [OF inv eq, of c d] that y by auto
    then show ?thesis by (auto simp: y)
  qed
  have "live ?rs = insert ?x (\<Union>y \<in> set ?ys \<union> set ?zs. live_blk y)"
    using used by (auto simp: live_def)
  moreover have "live (R1 @ (r1 @ (a, b\<lparr>usage := 0\<rparr>) # r2) # R2)
      = (\<Union>y \<in> set ?ys \<union> set ?zs. live_blk y)" by (auto simp: live_def)
  ultimately show ?thesis using union_insert_minus [of "set ?ys \<union> set ?zs" ?x live_blk] out by simp
qed

lemma region_gone:
  assumes inv: "alloc_inv s (R1 @ r # R2)"
    and M: "maps s = M1 @ (m, n) # M2" "list_all2 region_ok M1 R1" "region_ok (m, n) r"
      "list_all2 region_ok M2 R2"
    and q: "seg (hdrs s) (g_head s) (concat R1) m" "seg (hdrs s) q (concat R2) 0"
  obtains s' R1' where "unlink_region m q s = Some s'" "maps s' = maps s" "bytes s' = bytes s"
    "g_allocations s' = g_allocations s" "live R1' = live R1"
    "alloc_inv (unmap_area m n s') (R1' @ R2)" "maps (unmap_area m n s') = M1 @ M2"
    "\<And>a b. (a, b) \<in> set r \<Longrightarrow> hdrs s' a = Some b" "shape R1' = shape R1"
proof -
  obtain s' R1' where s': "unlink_region m q s = Some s'" "maps s' = maps s" "bytes s' = bytes s"
    "g_allocations s' = g_allocations s" "list_all2 region_ok M1 R1'" "live R1' = live R1"
    "seg (hdrs s') (g_head s') (concat (R1' @ R2)) 0"
    "\<And>a b. (a, b) \<in> set r \<Longrightarrow> hdrs s' a = Some b" "shape R1' = shape R1"
    by (rule unlink_region_ok [OF inv M(1-3) q]) blast
  have sep: "sorted_wrt area_sep (M1 @ (m, n) # M2)" using inv M(1) by (simp add: alloc_inv_def)
  have n: "0 < unat n" using M(3) by (rule region_pos)
  have maps: "maps (unmap_area m n s') = M1 @ M2"
    using unmap_maps [OF sep n] s'(2) M(1) by (simp add: unmap_area_def)
  have regions: "list_all2 region_ok (M1 @ M2) (R1' @ R2)"
    using s'(5) M(4) by (rule list_all2_appendI)
  have away: "list_all (area_sep (m, n)) (M1 @ M2)"
    using sep area_sep_sym by (auto simp: sorted_wrt_append list_all_iff)
  have "hdrs (unmap_area m n s') a = hdrs s' a" if "(a, b) \<in> set (concat (R1' @ R2))" for a b
    using regions_away [OF regions away that]
    by (auto simp: unmap_area_def clear_of_def intro!: wipe_clear)
  then have "seg (hdrs (unmap_area m n s')) (g_head s') (concat (R1' @ R2)) 0"
    by (intro seg_frame [OF s'(7)]) blast
  moreover have "sorted_wrt area_sep (M1 @ M2)" using sep by (auto simp: sorted_wrt_append)
  ultimately have "alloc_inv (unmap_area m n s') (R1' @ R2)"
    using maps regions by (simp add: alloc_inv_def unmap_area_def)
  with s' maps show thesis by (intro that [of s' R1']) auto
qed

text \<open>
  On the regions without links: the block at \<open>a\<close> is replaced, and a region that \<open>free\<close> has
  emptied is dropped.
\<close>

definition upd_block :: "u64 \<Rightarrow> (mem_block \<Rightarrow> blocks) \<Rightarrow> blocks list \<Rightarrow> blocks list" where
  "upd_block a f = map (\<lambda>r. concat (map (\<lambda>(c, d). if c = a then f d else [(c, d)]) r))"

definition all_free_at :: "u64 \<Rightarrow> blocks \<Rightarrow> bool" where
  "all_free_at a r \<longleftrightarrow> a \<in> fst ` set r \<and> list_all (\<lambda>(c, d). usage d = 0) r"

definition spec_free :: "u64 \<Rightarrow> blocks list \<Rightarrow> blocks list" where
  "spec_free a bs = filter (\<lambda>r. \<not> all_free_at a r) (upd_block a (\<lambda>d. [(a, d\<lparr>usage := 0\<rparr>)]) bs)"

lemma upd_outside: "a \<notin> fst ` set (concat bs) \<Longrightarrow> upd_block a f bs = bs"
proof -
  have r: "a \<notin> fst ` set r \<Longrightarrow> concat (map (\<lambda>(c, d). if c = a then f d else [(c, d)]) r) = r" for r
    by (induction r) auto
  assume "a \<notin> fst ` set (concat bs)"
  then show ?thesis by (auto simp: upd_block_def intro!: map_idI r)
qed

lemma upd_inside:
  assumes "a \<notin> fst ` set (concat R1 @ r1 @ r2 @ concat R2)"
  shows "upd_block a f (R1 @ (r1 @ (a, b) # r2) # R2) = R1 @ (r1 @ f b @ r2) # R2"
proof -
  have "upd_block a f R1 = R1" "upd_block a f R2 = R2" "upd_block a f [r1] = [r1]" "upd_block a f [r2] = [r2]"
    using assms by (auto intro!: upd_outside)
  then show ?thesis by (simp add: upd_block_def)
qed

lemma shape_addrs [simp]: "fst ` set (concat (shape rs)) = fst ` set (concat rs)"
  by (force simp: shape_def)

lemma inv_addr:
  assumes "alloc_inv s (R1 @ (r1 @ (a, b) # r2) # R2)"
  shows "a \<notin> fst ` set (concat R1 @ r1 @ r2 @ concat R2)"
proof
  let ?rs = "R1 @ (r1 @ (a, b) # r2) # R2"
  have eq: "concat ?rs = (concat R1 @ r1) @ (a, b) # (r2 @ concat R2)" by simp
  assume "a \<in> fst ` set (concat R1 @ r1 @ r2 @ concat R2)"
  then obtain y where y: "y \<in> set (concat R1 @ r1 @ r2 @ concat R2)" "a = fst y" by blast
  define d where "d = snd y"
  have "(a, d) = y" by (simp add: y(2) d_def)
  with y(1) have d: "(a, d) \<in> set (concat R1 @ r1) \<union> set (r2 @ concat R2)" by auto
  have "(a, d) \<in> set (concat ?rs)" "(a, b) \<in> set (concat ?rs)" using d by auto
  then have "48 \<le> unat (bsize d)" "48 \<le> unat (bsize b)"
    using inv_block(3) [OF assms] by (auto simp: blk_ok_def)
  with inv_sep [OF assms eq d] show False by auto
qed

text \<open>The regions without links after a change of the block at \<open>a\<close>.\<close>

lemma shape_upd:
  assumes "alloc_inv s (R1 @ (r1 @ (a, b) # r2) # R2)" and "shape [f' (b\<lparr>nxt := 0\<rparr>)] = [f (b\<lparr>nxt := 0\<rparr>)]"
  shows "upd_block a f (shape (R1 @ (r1 @ (a, b) # r2) # R2)) = shape (R1 @ (r1 @ f' (b\<lparr>nxt := 0\<rparr>) @ r2) # R2)"
proof -
  let ?strip = "map (\<lambda>(a, b). (a, b\<lparr>nxt := 0\<rparr>))"
  have st: "fst ` set (?strip r) = fst ` set r" for r :: blocks by force
  have "a \<notin> fst ` set (concat (shape R1) @ ?strip r1 @ ?strip r2 @ concat (shape R2))"
    using inv_addr [OF assms(1)] unfolding set_append image_Un shape_addrs st .
  from upd_inside [OF this, of f "b\<lparr>nxt := 0\<rparr>"] show ?thesis
    using assms(2) by simp
qed

lemma shape_free:
  assumes "alloc_inv s (R1 @ (r1 @ (a, b) # r2) # R2)"
  shows "spec_free a (shape (R1 @ (r1 @ (a, b) # r2) # R2)) =
    (if \<exists>(c, d) \<in> set (r1 @ r2). usage d \<noteq> 0
     then shape (R1 @ (r1 @ (a, b\<lparr>usage := 0\<rparr>) # r2) # R2) else shape (R1 @ R2))"
proof -
  have upd: "upd_block a (\<lambda>d. [(a, d\<lparr>usage := 0\<rparr>)]) (shape (R1 @ (r1 @ (a, b) # r2) # R2))
      = shape (R1 @ (r1 @ (a, b\<lparr>usage := 0\<rparr>) # r2) # R2)"
    by (subst shape_upd [OF assms, of "\<lambda>d. [(a, d\<lparr>usage := 0\<rparr>)]"]) simp_all
  have out: "\<not> all_free_at a r" if "r \<in> set (shape R1) \<union> set (shape R2)" for r
  proof -
    have "fst ` set r \<subseteq> fst ` set (concat (shape R1)) \<union> fst ` set (concat (shape R2))" using that by auto
    then show ?thesis using inv_addr [OF assms] unfolding shape_addrs by (auto simp: all_free_at_def)
  qed
  have "filter (\<lambda>r. \<not> all_free_at a r) (shape R) = shape R" if "R = R1 \<or> R = R2" for R
    using out that by (auto simp: filter_id_conv)
  then have keep: "filter (\<lambda>r. \<not> all_free_at a r) (shape R1) = shape R1"
    "filter (\<lambda>r. \<not> all_free_at a r) (shape R2) = shape R2" by blast+
  have strip: "list_all (\<lambda>(c, d). usage d = 0) (map (\<lambda>(a, b). (a, b\<lparr>nxt := 0\<rparr>)) r)
      \<longleftrightarrow> list_all (\<lambda>(c, d). usage d = 0) r" for r :: blocks
    by (induction r) auto
  have mid: "all_free_at a (map (\<lambda>(a, b). (a, b\<lparr>nxt := 0\<rparr>)) (r1 @ (a, b\<lparr>usage := 0\<rparr>) # r2))
      \<longleftrightarrow> \<not> (\<exists>(c, d) \<in> set (r1 @ r2). usage d \<noteq> 0)"
    unfolding all_free_at_def strip by (auto simp: list_all_iff)
  show ?thesis
    unfolding spec_free_def upd by (simp only: shape_simps filter_append filter.simps keep mid not_not) simp
qed

text \<open>
  What a successful \<open>free\<close> establishes: the invariant, the payload gone from the live ones
  and every byte as it was; the area is unmapped when no other block of it is in use.
\<close>

definition free_gives :: "alloc_state \<Rightarrow> blocks list \<Rightarrow> u64 \<Rightarrow> mem_block \<Rightarrow> alloc_state \<Rightarrow> bool" where
  "free_gives s rs a b s' \<longleftrightarrow> (\<exists>rs'. alloc_inv s' rs'
     \<and> live rs' = live rs - {(unat a + 48, unat (usage b) - 48)}
     \<and> bytes s' = bytes s \<and> g_allocations s' = g_allocations s
     \<and> maps s' = (if \<exists>(c, d) \<in> set (concat rs). c \<noteq> a \<and> region_start d = region_start b \<and> usage d \<noteq> 0
                  then maps s else remove1 (region_start b, region_size b) (maps s))
     \<and> shape rs' = spec_free a (shape rs))"

lemma other_region_start:
  assumes "list_all2 region_ok M R" "list_all (area_sep (m, n)) M" "0 < unat n"
    and "(c, d) \<in> set (concat R)"
  shows "region_start d \<noteq> m"
proof -
  from regions_in [OF assms(1,4)] obtain x where "x \<in> set M" "blk_in x (c, d)" by blast
  then show ?thesis
    using assms(2,3) by (auto simp: list_all_iff area_sep_def blk_in_def blk_ok_def)
qed

lemma other_in_region:
  assumes inv: "alloc_inv s (R1 @ (r1 @ (a, b) # r2) # R2)"
  shows "(\<exists>(c, d) \<in> set (concat (R1 @ (r1 @ (a, b) # r2) # R2)). c \<noteq> a \<and> region_start d = region_start b \<and> usage d \<noteq> 0)
    \<longleftrightarrow> (\<exists>(c, d) \<in> set (r1 @ r2). usage d \<noteq> 0)" (is "?L \<longleftrightarrow> ?R")
proof -
  let ?rs = "R1 @ (r1 @ (a, b) # r2) # R2"
  from inv obtain M1 m n M2 q where M: "list_all2 region_ok M1 R1"
    "region_ok (m, n) (r1 @ (a, b) # r2)" "list_all2 region_ok M2 R2"
    "sorted_wrt area_sep (M1 @ (m, n) # M2)" by (rule inv_region)
  have start: "region_start d = m" if "(c, d) \<in> set (r1 @ (a, b) # r2)" for c d
    using region_start_of [OF M(2) that] by simp
  have sep: "list_all (area_sep (m, n)) M1" "list_all (area_sep (m, n)) M2"
    using M(4) area_sep_sym by (auto simp: sorted_wrt_append list_all_iff)
  have away: "region_start d \<noteq> m" if "(c, d) \<in> set (concat R1) \<union> set (concat R2)" for c d
    using that other_region_start [OF M(1) sep(1) region_pos [OF M(2)], of c d]
      other_region_start [OF M(3) sep(2) region_pos [OF M(2)], of c d] by blast
  have b: "region_start b = m" by (rule start [of a]) simp
  show ?thesis
  proof
    assume ?L
    then obtain c d where cd: "(c, d) \<in> set (concat ?rs)" "c \<noteq> a" "region_start d = m" "usage d \<noteq> 0"
      using b by auto
    then have "(c, d) \<in> set (r1 @ r2)" using away [of c d] by auto
    with cd(4) show ?R by blast
  next
    assume ?R
    then obtain c d where cd: "(c, d) \<in> set (r1 @ r2)" "usage d \<noteq> 0" by blast
    have eq: "concat ?rs = (concat R1 @ r1) @ (a, b) # (r2 @ concat R2)" by simp
    have mem: "(c, d) \<in> set (concat ?rs)" using cd(1) by auto
    have "48 \<le> unat (bsize d)" "48 \<le> unat (bsize b)"
      using inv_block(3) [OF inv mem] inv_block(3) [OF inv, of a b] by (auto simp: blk_ok_def)
    then have "c \<noteq> a" using inv_sep [OF inv eq, of c d] cd(1) by auto
    moreover have "region_start d = region_start b" using start [of c d] cd(1) b by auto
    ultimately show ?L using mem cd(2) by blast
  qed
qed

lemma remove1_mid: "(m, n) \<notin> set M1 \<Longrightarrow> remove1 (m, n) (M1 @ (m, n) # M2) = M1 @ M2"
  by (simp add: remove1_append)

lemma free_cases:
  assumes inv: "alloc_inv s rs" and ab: "(a, b) \<in> set (concat rs)" and used: "usage b \<noteq> 0"
    and ok: "munmap_ok env (region_start b) (region_size b)"
  shows "\<exists>s'. free env (a + HDR) s = Some s' \<and> free_gives s rs a b s'"
proof -
  obtain R1 r1 r2 R2 where rs: "rs = R1 @ (r1 @ (a, b) # r2) # R2" using ab by (rule region_of_block)
  note inv' = inv [unfolded rs] and B = inv_block [OF inv ab]
  let ?b = "b\<lparr>usage := 0\<rparr>" and ?r = "r1 @ (a, b\<lparr>usage := 0\<rparr>) # r2"
  have "blk_ok ?b" using B(3) by (simp add: blk_ok_def)
  then obtain s1 where s1: "store_hdr a ?b s = Some s1" "alloc_inv s1 (R1 @ ?r # R2)"
    "maps s1 = maps s" "bytes s1 = bytes s" "g_allocations s1 = g_allocations s"
    by (rule set_header_ok [OF inv']) auto
  have live1: "live (R1 @ ?r # R2) = live rs - {(unat a + 48, unat (usage b) - 48)}"
    unfolding rs by (rule live_mark_free [OF inv' used])
  obtain M1 m n M2 q where M: "maps s1 = M1 @ (m, n) # M2" "list_all2 region_ok M1 R1"
    "region_ok (m, n) ?r" "list_all2 region_ok M2 R2" "sorted_wrt area_sep (M1 @ (m, n) # M2)"
    and q: "seg (hdrs s1) (g_head s1) (concat R1) m" "seg (hdrs s1) m ?r q"
      "seg (hdrs s1) q (concat R2) 0" using s1(2) by (rule inv_region)
  have start: "region_start d = m \<and> region_size d = n" if "(c, d) \<in> set ?r" for c d
    by (rule region_start_of [OF M(3) that])
  then have bm: "region_start b = m" "region_size b = n" by fastforce+
  have ne: "a + HDR \<noteq> 0" "a + HDR - HDR = a"
    using addr_HDR [of a] B(3,4) by (auto simp: blk_ok_def word_unat_eq_iff)
  have others: "(\<exists>(c, d) \<in> set (concat rs). c \<noteq> a \<and> region_start d = region_start b \<and> usage d \<noteq> 0)
    \<longleftrightarrow> (\<exists>(c, d) \<in> set (r1 @ r2). usage d \<noteq> 0)" unfolding rs by (rule other_in_region [OF inv'])
  show ?thesis
  proof (cases "\<exists>(c, d) \<in> set (r1 @ r2). usage d \<noteq> 0")
    case True
    then obtain c d where cd: "(c, d) \<in> set ?r" "usage d \<noteq> 0" by auto
    have "\<exists>c. scan_loop (hdrs s1) m m = Some (False, c)"
      by (rule scan_loop_used [OF q(2) _ cd]) (use start in blast)
    then have "free env (a + HDR) s = Some s1"
      using ne B(1) s1(1) bm by (auto simp: free_def Let_def)
    moreover have "shape (R1 @ ?r # R2) = spec_free a (shape rs)"
      unfolding rs shape_free [OF inv'] using True by (simp only: if_True)
    moreover have "maps s1 = (if \<exists>(c, d) \<in> set (concat rs). c \<noteq> a \<and> region_start d = region_start b \<and> usage d \<noteq> 0
        then maps s else remove1 (region_start b, region_size b) (maps s))"
      using True by (simp only: others s1(3) if_True)
    ultimately have "free_gives s rs a b s1"
      unfolding free_gives_def by (intro exI [of _ "R1 @ ?r # R2"] conjI s1(2,4,5) live1)
    with \<open>free env (a + HDR) s = Some s1\<close> show ?thesis by blast
  next
    case False
    then have free: "usage d = 0" if "(c, d) \<in> set ?r" for c d using that by auto
    have sep: "list_all (area_sep (m, n)) M1" "list_all (area_sep (m, n)) M2"
      using M(5) area_sep_sym by (auto simp: sorted_wrt_append list_all_iff)
    have n: "0 < unat n" using M(3) by (rule region_pos)
    have scan: "scan_loop (hdrs s1) m m = Some (True, q)"
      using scan_loop_all_free [OF q(2)] start free next_region_start [OF M(4) sep(2) n q(3)] by blast
    obtain s2 R1' where s2: "unlink_region m q s1 = Some s2" "maps s2 = maps s1" "bytes s2 = bytes s1"
      "g_allocations s2 = g_allocations s1" "live R1' = live R1"
      "alloc_inv (unmap_area m n s2) (R1' @ R2)" "maps (unmap_area m n s2) = M1 @ M2"
      "\<And>a b. (a, b) \<in> set ?r \<Longrightarrow> hdrs s2 a = Some b" "shape R1' = shape R1"
      by (rule region_gone [OF s1(2) M(1-4) q(1,3)]) blast
    have "hdrs s2 a = Some ?b" by (rule s2(8)) simp
    then have run: "free env (a + HDR) s = Some (unmap_area m n s2)"
      using ne B(1) s1(1) bm scan s2(1) ok by (simp add: free_def Let_def)
    have "(m, n) \<notin> set M1" using sep(1) n by (auto simp: list_all_iff area_sep_def)
    then have "maps (unmap_area m n s2) = remove1 (m, n) (maps s)"
      using M(1) s1(3) s2(7) remove1_mid [of m n M1 M2] by simp
    moreover have "live (R1' @ R2) = live (R1 @ ?r # R2)"
      using s2(5) live_free_region [of ?r R2] free by (simp add: live_append)
    moreover have "shape (R1' @ R2) = spec_free a (shape rs)"
      unfolding rs shape_free [OF inv'] using False s2(9) by (simp only: if_False shape_simps)
    ultimately have "free_gives s rs a b (unmap_area m n s2)"
      using s2 s1 live1 others False bm unfolding free_gives_def
      by (intro exI [of _ "R1' @ R2"]) (auto simp: unmap_area_def)
    with run show ?thesis by blast
  qed
qed

end
