(* ===== verification/Alloc_Client.thy ===== *)
theory Alloc_Client
  imports Alloc_Free
begin

text \<open>
  What the allocator promises its client: an abstract heap that only knows which payloads
  are live, the traces of calls a client can make, and the simulation between the two.
\<close>

section \<open>The surroundings the code relies on\<close>

definition good_env :: "alloc_env \<Rightarrow> bool" where
  "good_env env \<longleftrightarrow> page_ok env \<and> (\<forall>ms n. mmap_fresh env ms n) \<and> (\<forall>p n. munmap_ok env p n)"

text \<open>An environment for concrete runs: 4 KB pages, three places where an area can be put.\<close>

definition demo_env :: alloc_env where
  "demo_env = \<lparr>algorithm = None, scribble = False, page_sz = 4096,
     mmap = (\<lambda>ms n. if n \<le> 0x10000
       then find (\<lambda>a. list_all (area_sep (a, n)) ms) [0x10000, 0x20000, 0x30000] else None),
     munmap_ok = (\<lambda>_ _. True)\<rparr>"

lemma good_demo_env: "good_env demo_env"
proof -
  have "mmap_fresh demo_env ms n" for ms n
  proof (cases "n \<le> 0x10000")
    case True
    then have "unat n \<le> 65536" by (simp add: word_le_nat_alt)
    with True show ?thesis
      by (auto simp: mmap_fresh_def demo_env_def split: option.splits if_splits dest!: find_SomeD)
  qed (simp add: mmap_fresh_def demo_env_def)
  then show ?thesis by (simp add: good_env_def page_ok_def demo_env_def)
qed

section \<open>Traces of calls\<close>

text \<open>The size of a request that the arithmetic of \<open>malloc\<close> handles without wrapping.\<close>

definition sane_size :: "alloc_env \<Rightarrow> u64 \<Rightarrow> bool" where
  "sane_size env n \<longleftrightarrow> unat n + 55 + unat (page_sz env) < 2 ^ 64"

text \<open>
  \<open>heap_run env s L\<close>: the client has made some calls and written into its payloads, the
  allocator is in state \<open>s\<close>, and \<open>L\<close> holds the payloads (address, rounded length) handed out and
  not yet freed, as the client can tell from the results alone.
\<close>

definition handed_out :: "u64 \<Rightarrow> u64 \<Rightarrow> (nat \<times> nat) set \<Rightarrow> (nat \<times> nat) set" where
  "handed_out p n L = (if p = 0 then L else insert (unat p, unat (align8 n)) L)"

inductive heap_run :: "alloc_env \<Rightarrow> alloc_state \<Rightarrow> (nat \<times> nat) set \<Rightarrow> bool" for env where
  run_init: "heap_run env alloc_init {}"
| run_malloc: "\<lbrakk>heap_run env s L; sane_size env n; malloc env n s = Some (p, s')\<rbrakk> \<Longrightarrow>
    heap_run env s' (handed_out p n L)"
| run_calloc: "\<lbrakk>heap_run env s L; sane_size env (k * n); calloc env k n s = Some (p, s')\<rbrakk> \<Longrightarrow>
    heap_run env s' (handed_out p (k * n) L)"
| run_free: "\<lbrakk>heap_run env s L; (unat p, n) \<in> L; free env p s = Some s'\<rbrakk> \<Longrightarrow>
    heap_run env s' (L - {(unat p, n)})"
| run_free_null: "\<lbrakk>heap_run env s L; free env 0 s = Some s'\<rbrakk> \<Longrightarrow> heap_run env s' L"
| run_realloc_null: "\<lbrakk>heap_run env s L; sane_size env n; sane_size env (align8 n);
     realloc env 0 n s = Some (p, s')\<rbrakk> \<Longrightarrow> heap_run env s' (handed_out p (align8 n) L)"
| run_realloc_zero: "\<lbrakk>heap_run env s L; (unat p, n) \<in> L; p \<noteq> 0; realloc env p 0 s = Some (r, s')\<rbrakk> \<Longrightarrow>
    heap_run env s' (L - {(unat p, n)})"
| run_realloc: "\<lbrakk>heap_run env s L; (unat p, m) \<in> L; p \<noteq> 0; align8 n \<noteq> 0;
     realloc env p n s = Some (r, s')\<rbrakk> \<Longrightarrow> heap_run env s' L"
| run_write: "\<lbrakk>heap_run env s L; (q, m) \<in> L; q \<le> unat p; unat p + unat n \<le> q + m;
     memset p v n s = Some s'\<rbrakk> \<Longrightarrow> heap_run env s' L"

text \<open>The abstract state: the regions the invariant describes have exactly these payloads.\<close>

definition simulates :: "alloc_state \<Rightarrow> (nat \<times> nat) set \<Rightarrow> bool" where
  "simulates s L \<longleftrightarrow> (\<exists>rs. alloc_inv s rs \<and> live rs = L)"

section \<open>Each call preserves the simulation\<close>

lemma malloc_simulates:
  assumes "simulates s L" "good_env env" "sane_size env n"
  shows "\<exists>p s'. malloc env n s = Some (p, s') \<and> simulates s' (handed_out p n L)"
proof -
  from assms(1) obtain rs where rs: "alloc_inv s rs" "live rs = L" by (auto simp: simulates_def)
  have "malloc env n s = Some (0, s) \<or> (\<exists>p s'. p \<noteq> 0 \<and> malloc env n s = Some (p, s')
          \<and> malloc_gives env s rs (unat (align8 n)) p s')"
    using malloc_cases [OF rs(1), of env n] assms(2,3) by (auto simp: good_env_def sane_size_def)
  with rs show ?thesis by (auto simp: simulates_def handed_out_def malloc_gives_def)
qed

lemma free_live:
  assumes inv: "alloc_inv s rs" and "(unat p, n) \<in> live rs" and env: "\<forall>p n. munmap_ok env p n"
  obtains a b s' where "(a, b) \<in> set (concat rs)" "p = a + HDR" "unat p = unat a + 48"
    "n = unat (usage b) - 48" "usage b \<noteq> 0" "free env p s = Some s'" "free_gives s rs a b s'"
proof -
  obtain a b where ab: "(a, b) \<in> set (concat rs)" "usage b \<noteq> 0" "unat p = unat a + 48"
    "n = unat (usage b) - 48" using assms(2) by (rule liveE)
  have "unat (a + HDR) = unat a + 48"
    using inv_block(3,4) [OF inv ab(1)] by (intro addr_HDR) (simp add: blk_ok_def)
  then have p: "p = a + HDR" using ab(3) by (simp add: word_unat_eq_iff)
  from free_cases [OF inv ab(1,2)] env obtain s' where
    "free env (a + HDR) s = Some s'" "free_gives s rs a b s'" by blast
  with ab p that show thesis by blast
qed

lemma free_simulates:
  assumes "simulates s L" "good_env env" "(unat p, n) \<in> L"
  shows "\<exists>s'. free env p s = Some s' \<and> simulates s' (L - {(unat p, n)})"
proof -
  from assms(1) obtain rs where rs: "alloc_inv s rs" "live rs = L" by (auto simp: simulates_def)
  have env: "\<forall>p n. munmap_ok env p n" using assms(2) by (simp add: good_env_def)
  obtain a b s' where "unat p = unat a + 48" "n = unat (usage b) - 48" "free env p s = Some s'"
    "free_gives s rs a b s'"
    by (rule free_live [OF rs(1) _ env, of p n]) (use assms(3) rs(2) in auto)
  then obtain rs' where "free env p s = Some s'" "alloc_inv s' rs'" "live rs' = L - {(unat p, n)}"
    using rs(2) unfolding free_gives_def by metis
  then show ?thesis unfolding simulates_def by blast
qed

lemma list_all2_left: "\<lbrakk>list_all2 P xs ys; x \<in> set xs\<rbrakk> \<Longrightarrow> \<exists>y. P x y"
  by (induction rule: list_all2_induct) auto

lemma mmap_wf: "alloc_inv s rs \<Longrightarrow> 0 < n \<Longrightarrow> \<not> mapped s 0 n"
proof
  assume inv: "alloc_inv s rs" and n: "0 < n" and "mapped s 0 n"
  then obtain x where x: "x \<in> set (maps s)" "fst x = 0"
    by (auto simp: mapped_def list_ex_iff unat_eq_zero_iff)
  have "list_all2 region_ok (maps s) rs" using inv by (simp add: alloc_inv_def)
  then have "\<exists>r. region_ok x r" using x(1) by (rule list_all2_left)
  with x(2) show False by (auto simp: region_ok_def)
qed

text \<open>\<open>calloc\<close> is defined exactly when the \<open>malloc\<close> in it succeeds or nothing is asked.\<close>

lemma calloc_live:
  assumes inv: "alloc_inv s rs" and env: "good_env env" and sane: "sane_size env (k * n)"
    and res: "calloc env k n s = Some (p, s')"
  shows "(p = 0 \<and> k * n = 0 \<and> s' = s) \<or> (p \<noteq> 0 \<and> (\<exists>s1 rs'. malloc env (k * n) s = Some (p, s1)
    \<and> malloc_gives env s rs (unat (align8 (k * n))) p s1
    \<and> alloc_inv s' rs' \<and> live rs' = insert (unat p, unat (align8 (k * n))) (live rs)
    \<and> g_allocations s' = g_allocations s1
    \<and> bytes s' = (\<lambda>x. if in_range p (unat (k * n)) x then 0 else bytes s1 x)))"
proof -
  consider (null) "malloc env (k * n) s = Some (0, s)"
    | (ok) q s1 where "q \<noteq> 0" "malloc env (k * n) s = Some (q, s1)"
        "malloc_gives env s rs (unat (align8 (k * n))) q s1"
    using malloc_cases [OF inv, of env "k * n"] env sane by (auto simp: good_env_def sane_size_def)
  then show ?thesis
  proof cases
    case null
    have "k * n = 0"
    proof (rule ccontr)
      assume "k * n \<noteq> 0"
      then have "memset 0 0 (k * n) s = None"
        using mmap_wf [OF inv, of "unat (k * n)"]
        by (simp add: memset_def unat_gt_0)
      with null res show False by (simp add: calloc_def)
    qed
    with null res show ?thesis by (simp add: calloc_def memset_def)
  next
    case ok
    then obtain rs1 where rs1: "alloc_inv s1 rs1"
      "live rs1 = insert (unat q, unat (align8 (k * n))) (live rs)" by (auto simp: malloc_gives_def)
    then have "(unat q, unat (align8 (k * n))) \<in> live rs1" by simp
    then obtain a b where ab: "(a, b) \<in> set (concat rs1)" "usage b \<noteq> 0" "unat q = unat a + 48"
      "unat (align8 (k * n)) = unat (usage b) - 48" by (rule liveE)
    note B = inv_block [OF rs1(1) ab(1)]
    have "unat (k * n) \<le> unat (align8 (k * n))"
      using align8_bounds(2) [of "k * n"] sane by (simp add: sane_size_def)
    then have "48 + unat (k * n) \<le> unat (bsize b)"
      using ab(2,4) B(3) by (auto simp: blk_ok_def word_le_nat_alt)
    then obtain s2 where s2: "memset (a + HDR) 0 (k * n) s1 = Some s2" "alloc_inv s2 rs1"
      "maps s2 = maps s1" "g_allocations s2 = g_allocations s1"
      "bytes s2 = (\<lambda>x. if in_range (a + HDR) (unat (k * n)) x then 0 else bytes s1 x)"
      by (rule memset_payload [OF rs1(1) ab(1)])
    have "unat (a + HDR) = unat a + 48" using B(3,4) by (intro addr_HDR) (simp add: blk_ok_def)
    then have "q = a + HDR" using ab(3) by (simp add: word_unat_eq_iff)
    with ok s2 rs1 res show ?thesis by (auto simp: calloc_def)
  qed
qed

lemma calloc_simulates:
  assumes "simulates s L" "good_env env" "sane_size env (k * n)" "calloc env k n s = Some (p, s')"
  shows "simulates s' (handed_out p (k * n) L)"
proof -
  from assms(1) obtain rs where rs: "alloc_inv s rs" "live rs = L" by (auto simp: simulates_def)
  show ?thesis
    using calloc_live [OF rs(1) assms(2-4)] rs assms(1) by (auto simp: simulates_def handed_out_def)
qed

text \<open>A write inside a live payload is defined and keeps the heap.\<close>

lemma write_live:
  assumes inv: "alloc_inv s rs" and qm: "(q, m) \<in> live rs" and p: "q \<le> unat p" "unat p + unat n \<le> q + m"
  obtains s' where "memset p v n s = Some s'" "alloc_inv s' rs" "maps s' = maps s"
    "g_allocations s' = g_allocations s" "bytes s' = (\<lambda>x. if in_range p (unat n) x then v else bytes s x)"
proof -
  obtain a b where ab: "(a, b) \<in> set (concat rs)" "usage b \<noteq> 0" "q = unat a + 48" "m = unat (usage b) - 48"
    using qm by (rule liveE)
  have "48 \<le> unat (usage b)" "unat (usage b) \<le> unat (bsize b)"
    using inv_block(3) [OF inv ab(1)] ab(2) by (auto simp: blk_ok_def word_le_nat_alt)
  with ab p have "unat a + 48 \<le> unat p" "unat p + unat n \<le> unat a + unat (bsize b)" by simp_all
  from memset_inside [OF inv ab(1) this] that show thesis by blast
qed

lemma heap_run_simulates:
  assumes "heap_run env s L" "good_env env"
  shows "simulates s L"
  using assms(1)
proof induction
  case run_init
  show ?case using alloc_inv_init by (auto simp: simulates_def live_def)
next
  case (run_malloc s L n p s')
  then show ?case using malloc_simulates [OF run_malloc.IH assms(2)] by fastforce
next
  case (run_calloc s L k n p s')
  then show ?case using calloc_simulates assms(2) by blast
next
  case (run_free s L p n s')
  then show ?case using free_simulates [OF run_free.IH assms(2)] by fastforce
next
  case (run_realloc_null s L n p s')
  then show ?case
    using malloc_simulates [OF run_realloc_null.IH assms(2), of "align8 n"]
    by (fastforce simp: realloc_def)
next
  case (run_realloc_zero s L p n r s')
  then show ?case using free_simulates [OF run_realloc_zero.IH assms(2)]
    by (fastforce simp: realloc_def align8_def split: bind_splits)
next
  case (run_write s L q m p n v s')
  then obtain rs where "alloc_inv s rs" "live rs = L" by (auto simp: simulates_def)
  moreover from this run_write.hyps obtain s1 where "memset p v n s = Some s1" "alloc_inv s1 rs"
    by (metis write_live)
  ultimately show ?case using run_write.hyps by (auto simp: simulates_def)
qed (simp_all add: free_def realloc_def)

lemma simulates_disjoint:
  "\<lbrakk>simulates s L; (q, m) \<in> L; (q', m') \<in> L; (q, m) \<noteq> (q', m')\<rbrakk> \<Longrightarrow>
   q + m + 48 \<le> q' \<or> q' + m' + 48 \<le> q"
  using live_pairs_sep by (fastforce simp: simulates_def)

section \<open>One call on a run\<close>

text \<open>An allocation gives a null pointer, or a payload at an address that is not handed out.\<close>

lemma malloc_run:
  assumes run: "heap_run env s L" and env: "good_env env" and sane: "sane_size env len"
  obtains (null) "malloc env len s = Some (0, s)" "mmap env (maps s) (region_bytes env (align8 len)) = None"
    | (ok) p s' where "p \<noteq> 0" "malloc env len s = Some (p, s')"
        "heap_run env s' (insert (unat p, unat (align8 len)) L)" "unat p \<notin> fst ` L"
        "mapped s' p (unat (align8 len))"
        "\<And>q m x. (q, m) \<in> L \<Longrightarrow> q \<le> unat x \<Longrightarrow> unat x < q + m \<Longrightarrow> bytes s' x = bytes s x"
proof -
  from heap_run_simulates [OF run env] obtain rs where rs: "alloc_inv s rs" "live rs = L"
    by (auto simp: simulates_def)
  consider "malloc env len s = Some (0, s)" "mmap env (maps s) (region_bytes env (align8 len)) = None"
    | p s' where "p \<noteq> 0" "malloc env len s = Some (p, s')" "malloc_gives env s rs (unat (align8 len)) p s'"
    using malloc_cases [OF rs(1), of env len] env sane by (auto simp: good_env_def sane_size_def)
  then show thesis
  proof cases
    case 1
    then show thesis by (rule null)
  next
    case (2 p s')
    have "heap_run env s' (insert (unat p, unat (align8 len)) L)"
      using run_malloc [OF run sane 2(2)] 2(1) by (simp add: handed_out_def)
    moreover have "unat p \<notin> fst ` L" using 2(3) rs(2) by (auto simp: malloc_gives_def)
    moreover have "mapped s' p (unat (align8 len))" using 2(3) unfolding malloc_gives_def by blast
    moreover have "bytes s' x = bytes s x" if "(q, m) \<in> L" "q \<le> unat x" "unat x < q + m" for q m x
    proof -
      have "in_live rs x" using that rs(2) by (auto simp: in_live_def)
      with 2(3) show ?thesis unfolding malloc_gives_def by blast
    qed
    ultimately show thesis using ok [OF 2(1,2)] by blast
  qed
qed

lemma mapped_bound:
  assumes "alloc_inv s rs" "mapped s p n"
  shows "unat p + n < 2 ^ 64"
proof -
  from assms(2) obtain x where x: "x \<in> set (maps s)" "unat p + n \<le> unat (fst x) + unat (snd x)"
    by (auto simp: mapped_def list_ex_iff)
  have "list_all2 region_ok (maps s) rs" using assms(1) by (simp add: alloc_inv_def)
  then obtain r where "region_ok x r" using x(1) list_all2_left by metis
  with x(2) show ?thesis by (auto simp: region_ok_def split_beta)
qed

end
