(* ===== verification/Alloc_Props.thy ===== *)
theory Alloc_Props
  imports Alloc_Client
begin

text \<open>The properties of the allocator, each with a concrete run where it has hypotheses.\<close>

section \<open>The memory report\<close>

lemma print_loop_blocks:
  "\<lbrakk>seg h p xs q; \<And>a b. (a, b) \<in> set xs \<Longrightarrow> region_start b = m\<rbrakk> \<Longrightarrow>
   print_loop h p m out = print_loop h q m (out @ map (\<lambda>(a, b). block_line a b) xs)"
proof (induction xs arbitrary: p out)
  case (Cons x xs)
  obtain a b where x: "x = (a, b)" by (cases x)
  have h: "p = a" "a \<noteq> 0" "h a = Some b" "seg h (nxt b) xs q" using Cons.prems(1) x by auto
  have start: "region_start b = m" "\<And>a b. (a, b) \<in> set xs \<Longrightarrow> region_start b = m"
    using Cons.prems(2) x by auto
  have "print_loop h p m out = print_loop h (nxt b) m (out @ [block_line a b])"
    using h start(1) by (subst print_loop.simps) simp
  also have "\<dots> = print_loop h q m ((out @ [block_line a b]) @ map (\<lambda>(a, b). block_line a b) xs)"
    by (rule Cons.IH [OF h(4) start(2)])
  finally show ?case using x by simp
qed simp

definition region_report :: "u64 \<times> u64 \<Rightarrow> blocks \<Rightarrow> mem_line list" where
  "region_report = (\<lambda>(m, l) r. Region m (m + l) l # map (\<lambda>(a, b). block_line a b) r)"

lemma print_loop_region:
  assumes "region_ok (m, l) r" "seg h p r q" "cr \<noteq> m"
  shows "print_loop h p cr out = print_loop h q m (out @ region_report (m, l) r)"
proof -
  from assms(1) obtain a b r' where r: "r = (a, b) # r'" "a = m"
    by (cases r) (auto simp: region_ok_def word_unat_eq_iff)
  have start: "region_start d = m \<and> region_size d = l" if "(c, d) \<in> set r" for c d
    by (rule region_start_of [OF assms(1) that])
  have h: "p = m" "m \<noteq> 0" "h m = Some b" "seg h (nxt b) r' q" using assms(2) r by auto
  have b: "region_start b = m" "region_size b = l" using start [of a b] r by auto
  have "print_loop h p cr out = print_loop h (nxt b) m (out @ [region_line m b, block_line m b])"
    using h b assms(3) by (subst print_loop.simps) simp
  also have "\<dots> = print_loop h q m ((out @ [region_line m b, block_line m b])
      @ map (\<lambda>(a, b). block_line a b) r')"
    using start r by (intro print_loop_blocks [OF h(4)]) auto
  also have "(out @ [region_line m b, block_line m b]) @ map (\<lambda>(a, b). block_line a b) r'
      = out @ region_report (m, l) r"
    using r b by (simp add: region_report_def region_line_def)
  finally show ?thesis .
qed

lemma print_loop_regions:
  "\<lbrakk>list_all2 region_ok ms rs; seg h p (concat rs) 0; sorted_wrt area_sep ms;
    \<forall>m \<in> fst ` set ms. cr \<noteq> m\<rbrakk> \<Longrightarrow>
   print_loop h p cr out = Some (out @ concat (map2 region_report ms rs))"
proof (induction ms rs arbitrary: p cr out rule: list_all2_induct)
  case Nil
  then show ?case by (subst print_loop.simps) simp
next
  case (Cons x ms r rs)
  obtain m l where x: "x = (m, l)" by (cases x)
  obtain q where q: "seg h p r q" "seg h q (concat rs) 0" using Cons.prems(1) by (auto simp: seg_append)
  have n: "0 < unat l" using Cons.hyps(1) x region_pos by simp
  have "\<forall>m' \<in> fst ` set ms. m \<noteq> m'"
  proof
    fix m' assume "m' \<in> fst ` set ms"
    then obtain l' where ml: "(m', l') \<in> set ms" by auto
    then have "\<exists>r. region_ok (m', l') r" by (rule list_all2_left [OF Cons.hyps(2)])
    then have "0 < unat l'" using region_pos by blast
    then show "m \<noteq> m'" using ml Cons.prems(2) n x by (auto simp: area_sep_def)
  qed
  then have "print_loop h q m (out @ region_report (m, l) r)
      = Some ((out @ region_report (m, l) r) @ concat (map2 region_report ms rs))"
    using Cons.prems(2) by (intro Cons.IH q(2)) auto
  then show ?case
    using print_loop_region [of m l r h p q cr out] Cons.hyps(1) Cons.prems(3) q(1) x by simp
qed

lemma print_loop_inv:
  assumes "alloc_inv s rs"
  shows "print_loop (hdrs s) (g_head s) 0 [] = Some (concat (map2 region_report (maps s) rs))"
proof -
  have regions: "list_all2 region_ok (maps s) rs" using assms by (simp add: alloc_inv_def)
  have "m \<noteq> 0" if "(m, l) \<in> set (maps s)" for m l
    using list_all2_left [OF regions that] by (auto simp: region_ok_def)
  then have "\<forall>m \<in> fst ` set (maps s). 0 \<noteq> m" by force
  with assms show ?thesis
    using print_loop_regions [of "maps s" rs "hdrs s" "g_head s" 0 "[]"] by (simp add: alloc_inv_def)
qed

section \<open>Properties\<close>

text \<open>
  C1: on a well-formed heap \<open>malloc\<close> either reports that the system has no memory and changes
  nothing, or returns a fresh payload: at least as long as asked and less than 8 bytes longer,
  8-aligned, in mapped memory, with a header's distance to every live payload, whose bytes all
  stay as they are; the heap stays well formed and has exactly this payload more.
\<close>

theorem malloc_correct:
  assumes "alloc_inv s rs" "page_ok env" "sane_size env req"
    and "mmap_fresh env (maps s) (region_bytes env (align8 req))"
  shows "(malloc env req s = Some (0, s) \<and> mmap env (maps s) (region_bytes env (align8 req)) = None)
    \<or> (\<exists>p s' rs' n. malloc env req s = Some (p, s') \<and> p \<noteq> 0
        \<and> alloc_inv s' rs' \<and> live rs' = insert (unat p, n) (live rs)
        \<and> unat req \<le> n \<and> n < unat req + 8 \<and> 8 dvd unat p \<and> mapped s' p n
        \<and> (\<forall>(q, m) \<in> live rs. q + m + 48 \<le> unat p \<or> unat p + n + 48 \<le> q)
        \<and> (\<forall>x. in_live rs x \<longrightarrow> bytes s' x = bytes s x)
        \<and> (scribble env \<longrightarrow> (\<forall>x. in_range p n x \<longrightarrow> bytes s' x = 0xAA)))"
proof -
  have small: "unat req + 55 + unat (page_sz env) < 2 ^ 64" using assms(3) by (simp add: sane_size_def)
  then have "unat req \<le> unat (align8 req)" "unat (align8 req) < unat req + 8"
    using align8_bounds [of req] by auto
  with malloc_cases [OF assms(1,2) small assms(4)] show ?thesis
    unfolding malloc_gives_def by blast
qed

theorem malloc_correct_witness:
  "malloc demo_env 100 alloc_init = Some (0, alloc_init)
   \<or> (\<exists>p s' rs' n. malloc demo_env 100 alloc_init = Some (p, s') \<and> p \<noteq> 0 \<and> alloc_inv s' rs'
        \<and> live rs' = {(unat p, n)} \<and> 100 \<le> n \<and> n < 108)"
proof -
  have "page_ok demo_env" "mmap_fresh demo_env (maps alloc_init) (region_bytes demo_env (align8 100))"
    using good_demo_env by (simp_all add: good_env_def)
  moreover have "sane_size demo_env 100" by (simp add: sane_size_def demo_env_def)
  ultimately show ?thesis
    using malloc_correct [OF alloc_inv_init, of demo_env 100] by (fastforce simp: live_def)
qed

text \<open>
  C2: freeing a block that is in use always succeeds on a well-formed heap: exactly its payload
  leaves the live ones, no byte changes, the heap stays well formed, and its region is unmapped
  exactly when no other block of the region is in use.
\<close>

theorem free_correct:
  assumes "alloc_inv s rs" "(a, b) \<in> set (concat rs)" "usage b \<noteq> 0"
    and "munmap_ok env (region_start b) (region_size b)"
  shows "\<exists>s' rs'. free env (a + HDR) s = Some s' \<and> alloc_inv s' rs'
    \<and> live rs' = live rs - {(unat a + 48, unat (usage b) - 48)} \<and> bytes s' = bytes s
    \<and> maps s' = (if \<exists>(c, d) \<in> set (concat rs). c \<noteq> a \<and> region_start d = region_start b \<and> usage d \<noteq> 0
                 then maps s else remove1 (region_start b, region_size b) (maps s))"
  using free_cases [OF assms] unfolding free_gives_def by blast

text \<open>A heap of one region with one block in use.\<close>

definition demo_heap :: alloc_state where
  "demo_heap = alloc_init\<lparr>g_head := 0x10000, g_allocations := 1, maps := [(0x10000, 4096)],
     hdrs := [0x10000 \<mapsto> fresh_block 0 0x10000 4096 104]\<rparr>"

lemma demo_heap_inv: "alloc_inv demo_heap [[(0x10000, fresh_block 0 0x10000 4096 104)]]"
  by (simp add: alloc_inv_def demo_heap_def alloc_init_def region_ok_def blk_ok_def fresh_block_def HDR_def)

theorem free_correct_witness:
  "\<exists>s' rs'. free demo_env (0x10000 + HDR) demo_heap = Some s' \<and> alloc_inv s' rs'
     \<and> live rs' = {} \<and> maps s' = []"
proof -
  let ?b = "fresh_block 0 0x10000 4096 104"
  have "munmap_ok demo_env (region_start ?b) (region_size ?b)" by (simp add: demo_env_def)
  from free_correct [OF demo_heap_inv _ _ this, where a = "0x10000"]
  obtain s' rs' where "free demo_env (0x10000 + HDR) demo_heap = Some s'" "alloc_inv s' rs'"
    "live rs' = live [[(0x10000, ?b)]] - {(unat (0x10000 :: u64) + 48, unat (usage ?b) - 48)}"
    "maps s' = remove1 (region_start ?b, region_size ?b) (maps demo_heap)"
    by (auto simp: fresh_block_def HDR_def)
  then show ?thesis
    by (intro exI [of _ s'] exI [of _ rs']) (simp add: live_def fresh_block_def demo_heap_def HDR_def)
qed

lemma demo_malloc: "malloc demo_env 100 alloc_init = Some (0x10000 + HDR, demo_heap)"
  by (simp add: malloc_def reuse_def first_fit_def first_fit_loop.simps new_region_def demo_env_def
      alloc_init_def align8_def HDR_def map_area_def store_hdr_def mapped_def wipe_def scribbled_def
      demo_heap_def fresh_block_def fun_eq_iff)

text \<open>
  C6: whatever sequence of \<open>malloc\<close>, \<open>calloc\<close>, \<open>realloc\<close> and \<open>free\<close> calls a client makes from
  the start of the process, freeing only what it was given, the payloads it holds never overlap
  and are at least a header apart, and the chain of blocks describes exactly these payloads.
\<close>

theorem heap_run_safe:
  assumes "heap_run env s L" "good_env env"
  shows "\<exists>rs. alloc_inv s rs \<and> live rs = L
    \<and> (\<forall>x \<in> L. \<forall>y \<in> L. x \<noteq> y \<longrightarrow> fst x + snd x + 48 \<le> fst y \<or> fst y + snd y + 48 \<le> fst x)"
proof -
  from heap_run_simulates [OF assms] obtain rs where rs: "alloc_inv s rs" "live rs = L"
    unfolding simulates_def by blast
  have "fst x + snd x + 48 \<le> fst y \<or> fst y + snd y + 48 \<le> fst x" if "x \<in> L" "y \<in> L" "x \<noteq> y" for x y
    using live_pairs_sep [OF rs(1), of "fst x" "snd x" "fst y" "snd y"] that rs(2)
    by (auto simp: prod_eq_iff)
  with rs show ?thesis by blast
qed

lemma demo_run: "heap_run demo_env demo_heap {(65584, 104)}"
  using run_malloc [OF run_init _ demo_malloc]
  by (simp add: sane_size_def demo_env_def handed_out_def align8_def HDR_def)

theorem heap_run_safe_witness:
  "\<exists>rs. alloc_inv demo_heap rs \<and> live rs = {(65584, 104)}"
  using heap_run_safe [OF demo_run good_demo_env] by blast

text \<open>
  C7: after any such sequence no further call is undefined: \<open>malloc\<close> of any size that does not
  wrap returns, and so does \<open>free\<close> of any payload the client holds. No loop runs for ever and
  no dangling header is read.
\<close>

theorem heap_run_progress:
  assumes "heap_run env s L" "good_env env"
  shows "(sane_size env n \<longrightarrow> malloc env n s \<noteq> None) \<and> ((unat p, m) \<in> L \<longrightarrow> free env p s \<noteq> None)"
  using malloc_simulates [OF heap_run_simulates [OF assms] assms(2), of n]
    free_simulates [OF heap_run_simulates [OF assms] assms(2), of p m] by auto

theorem heap_run_progress_witness:
  "malloc demo_env 24 demo_heap \<noteq> None \<and> free demo_env 65584 demo_heap \<noteq> None"
  using heap_run_progress [OF demo_run good_demo_env, of 24 65584 104]
  by (simp add: sane_size_def demo_env_def)

text \<open>
  C28: a payload taken with \<open>malloc\<close> and given back with \<open>free\<close> leaves the client's view of the
  heap as it was: the same live payloads with the same bytes.
\<close>

theorem malloc_free_roundtrip:
  assumes inv: "alloc_inv s rs" and env: "good_env env" and sane: "sane_size env req"
    and res: "malloc env req s = Some (p, s1)" and "p \<noteq> 0"
  shows "\<exists>s2 rs2. free env p s1 = Some s2 \<and> alloc_inv s2 rs2 \<and> live rs2 = live rs
    \<and> (\<forall>x. in_live rs x \<longrightarrow> bytes s2 x = bytes s x)"
proof -
  let ?n = "unat (align8 req)"
  have gives: "malloc_gives env s rs ?n p s1"
    using malloc_cases [OF inv, of env req] env sane res \<open>p \<noteq> 0\<close>
    by (auto simp: good_env_def sane_size_def)
  then obtain rs1 where rs1: "alloc_inv s1 rs1" "live rs1 = insert (unat p, ?n) (live rs)"
    "\<forall>(q, m) \<in> live rs. q + m + 48 \<le> unat p \<or> unat p + ?n + 48 \<le> q"
    "\<forall>x. in_live rs x \<longrightarrow> bytes s1 x = bytes s x" unfolding malloc_gives_def by blast
  have unmap: "\<forall>p n. munmap_ok env p n" using env by (simp add: good_env_def)
  have mem: "(unat p, ?n) \<in> live rs1" using rs1(2) by simp
  obtain a b s2 where ab: "unat p = unat a + 48" "?n = unat (usage b) - 48"
    "free env p s1 = Some s2" "free_gives s1 rs1 a b s2"
    by (rule free_live [OF rs1(1) mem unmap]) blast
  then obtain rs2 where rs2: "alloc_inv s2 rs2" "live rs2 = live rs1 - {(unat p, ?n)}"
    "bytes s2 = bytes s1" unfolding free_gives_def by metis
  have "(unat p, ?n) \<notin> live rs" using rs1(3) by fastforce
  then have "live rs2 = live rs" using rs2(2) rs1(2) by blast
  with ab(3) rs2(1,3) rs1(4) show ?thesis by auto
qed

theorem malloc_free_roundtrip_witness:
  "\<exists>s2 rs2. free demo_env (0x10000 + HDR) demo_heap = Some s2 \<and> alloc_inv s2 rs2 \<and> live rs2 = {}"
  using malloc_free_roundtrip [OF alloc_inv_init good_demo_env _ demo_malloc]
  by (auto simp: sane_size_def demo_env_def HDR_def live_def)

text \<open>
  C29: the memory that \<open>calloc\<close> returns reads as zero, whatever it held before and whatever
  the scribbling put there, and is live; the call reports no memory (a null pointer) only when
  nothing was asked.
\<close>

theorem calloc_zeroes:
  assumes "alloc_inv s rs" "good_env env" "sane_size env (k * n)" "calloc env k n s = Some (p, s')"
  shows "(p = 0 \<and> k * n = 0 \<and> s' = s)
    \<or> (p \<noteq> 0 \<and> (\<forall>x. in_range p (unat (k * n)) x \<longrightarrow> bytes s' x = 0)
        \<and> (\<exists>rs'. alloc_inv s' rs' \<and> live rs' = insert (unat p, unat (align8 (k * n))) (live rs)))"
  using calloc_live [OF assms] by auto

theorem calloc_zeroes_witness:
  "\<exists>s'. calloc demo_env 10 10 alloc_init = Some (0x10000 + HDR, s') \<and> bytes s' 0x10040 = 0"
proof -
  have "10 * 10 = (100 :: u64)" by simp
  then have "\<exists>s'. calloc demo_env 10 10 alloc_init = Some (0x10000 + HDR, s')"
    by (simp add: calloc_def demo_malloc memset_def mapped_def HDR_def) (simp add: demo_heap_def)
  then obtain s' where s': "calloc demo_env 10 10 alloc_init = Some (0x10000 + HDR, s')" ..
  have "sane_size demo_env (10 * 10)" by (simp add: sane_size_def demo_env_def)
  from calloc_zeroes [OF alloc_inv_init good_demo_env this s'] s' show ?thesis
    by (auto simp: HDR_def in_range_def)
qed

text \<open>
  C23: The report of the memory is complete and in order: one line per mapped region with its
  bounds, followed by one line per block of the region, whatever the state of a well-formed
  heap; \<open>write_memory\<close> prints the same lines to its file and leaves only the title on the
  standard output.
\<close>

theorem memory_report:
  assumes "alloc_inv s rs"
  shows "print_memory s = Some (Title # concat (map2 region_report (maps s) rs))
    \<and> write_memory s = Some ([Title], concat (map2 region_report (maps s) rs))"
  using print_loop_inv [OF assms] by (simp_all add: print_memory_def write_memory_def)

theorem memory_report_witness:
  "print_memory demo_heap =
     Some [Title, Region 0x10000 0x11000 4096, Block 0x10000 0x11000 0 4096 152 104]"
  using memory_report [OF demo_heap_inv]
  by (simp add: demo_heap_def region_report_def block_line_def fresh_block_def HDR_def)

lemma demo_seg: "seg (hdrs demo_heap) 0x10000 [(0x10000, fresh_block 0 0x10000 4096 104)] 0"
  using demo_heap_inv by (simp add: alloc_inv_def demo_heap_def)

text \<open>
  The first fit returns the first block of the chain whose unused part is strictly larger
  than the request and its header, and NULL when there is none.
\<close>

theorem first_fit_finds_first:
  assumes "seg h p xs 0"
  shows "(first_fit h p sz = Some 0 \<and> (\<forall>(a, b) \<in> set xs. bsize b - usage b \<le> sz + HDR))
    \<or> (\<exists>xs1 a b xs2. first_fit h p sz = Some a \<and> xs = xs1 @ (a, b) # xs2
        \<and> sz + HDR < bsize b - usage b \<and> (\<forall>(c, d) \<in> set xs1. bsize d - usage d \<le> sz + HDR))"
proof (cases "find (\<lambda>(a, b). bsize b - usage b > sz + HDR) xs")
  case None
  then have "\<forall>(a, b) \<in> set xs. bsize b - usage b \<le> sz + HDR" by (auto simp: find_None_iff not_less)
  with None assms show ?thesis by (simp add: first_fit_def first_fit_loop_seg)
next
  case (Some x)
  obtain a b where x: "x = (a, b)" by (cases x)
  from Some obtain i where i: "i < length xs" "sz + HDR < bsize b - usage b" "x = xs ! i"
    "\<forall>j < i. \<not> (case xs ! j of (a, b) \<Rightarrow> bsize b - usage b > sz + HDR)"
    using x by (auto simp: find_Some_iff)
  have "xs = take i xs @ (a, b) # drop (Suc i) xs" using i(1,3) x by (metis id_take_nth_drop)
  moreover have "\<forall>(c, d) \<in> set (take i xs). bsize d - usage d \<le> sz + HDR"
    using i(1,4) by (fastforce simp: in_set_conv_nth not_less)
  moreover have "first_fit h p sz = Some a"
    using Some assms x by (simp add: first_fit_def first_fit_loop_seg)
  ultimately show ?thesis using i(2) by blast
qed

theorem first_fit_finds_first_witness:
  "first_fit (hdrs demo_heap) 0x10000 4000 = Some 0"
  using first_fit_finds_first [OF demo_seg, of 4000]
  by (auto simp: fresh_block_def HDR_def Cons_eq_append_conv)

text \<open>
  The best fit returns the last of the smallest unused parts that are large enough, but
  only among those of at most \<open>INT_MAX\<close> bytes; it returns NULL when none of these is.
\<close>

theorem best_fit_minimal:
  assumes "seg h p xs 0"
  shows "(best_fit h p sz = Some 0 \<and> (\<forall>(a, b) \<in> set xs.
        sz + HDR \<le> bsize b - usage b \<longrightarrow> word_of_int INT_MAX < bsize b - usage b))
    \<or> (\<exists>xs1 a b xs2. best_fit h p sz = Some a \<and> xs = xs1 @ (a, b) # xs2
        \<and> sz + HDR \<le> bsize b - usage b \<and> bsize b - usage b \<le> word_of_int INT_MAX
        \<and> (\<forall>(c, d) \<in> set xs1. sz + HDR \<le> bsize d - usage d \<longrightarrow> bsize b - usage b \<le> bsize d - usage d)
        \<and> (\<forall>(c, d) \<in> set xs2. sz + HDR \<le> bsize d - usage d \<longrightarrow> bsize b - usage b < bsize d - usage d))"
  using best_pick [of sz xs 0 "word_of_int INT_MAX"]
  by (auto simp: best_fit_def best_fit_loop_seg [OF assms] chosen_def not_le)

theorem best_fit_minimal_witness:
  "best_fit (hdrs demo_heap) 0x10000 100 = Some 0x10000"
  using best_fit_minimal [OF demo_seg, of 100]
  by (auto simp: fresh_block_def HDR_def INT_MAX_def Cons_eq_append_conv)

text \<open>The worst fit returns the last of the largest unused parts that are large enough.\<close>

theorem worst_fit_maximal:
  assumes "seg h p xs 0"
  shows "(worst_fit h p sz = Some 0 \<and> (\<forall>(a, b) \<in> set xs. bsize b - usage b < sz + HDR))
    \<or> (\<exists>xs1 a b xs2. worst_fit h p sz = Some a \<and> xs = xs1 @ (a, b) # xs2
        \<and> sz + HDR \<le> bsize b - usage b
        \<and> (\<forall>(c, d) \<in> set xs1. sz + HDR \<le> bsize d - usage d \<longrightarrow> bsize d - usage d \<le> bsize b - usage b)
        \<and> (\<forall>(c, d) \<in> set xs2. sz + HDR \<le> bsize d - usage d \<longrightarrow> bsize d - usage d < bsize b - usage b))"
  using worst_pick [of sz xs 0 0]
  by (auto simp: worst_fit_def worst_fit_loop_seg [OF assms] chosen_def not_le)

theorem worst_fit_maximal_witness:
  "worst_fit (hdrs demo_heap) 0x10000 100 = Some 0x10000"
  using worst_fit_maximal [OF demo_seg, of 100]
  by (auto simp: fresh_block_def HDR_def Cons_eq_append_conv)

text \<open>
  C36: On every well-formed chain the three algorithms choose as documented, up to the borders: first
  fit takes the first block whose unused part is strictly larger than the request and its header;
  best fit the last of the smallest parts that are large enough, but only of those of at most
  \<open>INT_MAX\<close> bytes; worst fit the last of the largest ones. Each returns NULL when there is no such block.
\<close>

theorem fit_choices:
  assumes "seg h p xs 0"
  shows "((first_fit h p sz = Some 0 \<and> (\<forall>(a, b) \<in> set xs. bsize b - usage b \<le> sz + HDR))
    \<or> (\<exists>xs1 a b xs2. first_fit h p sz = Some a \<and> xs = xs1 @ (a, b) # xs2
        \<and> sz + HDR < bsize b - usage b \<and> (\<forall>(c, d) \<in> set xs1. bsize d - usage d \<le> sz + HDR)))
    \<and> ((best_fit h p sz = Some 0 \<and> (\<forall>(a, b) \<in> set xs.
        sz + HDR \<le> bsize b - usage b \<longrightarrow> word_of_int INT_MAX < bsize b - usage b))
    \<or> (\<exists>xs1 a b xs2. best_fit h p sz = Some a \<and> xs = xs1 @ (a, b) # xs2
        \<and> sz + HDR \<le> bsize b - usage b \<and> bsize b - usage b \<le> word_of_int INT_MAX
        \<and> (\<forall>(c, d) \<in> set xs1. sz + HDR \<le> bsize d - usage d \<longrightarrow> bsize b - usage b \<le> bsize d - usage d)
        \<and> (\<forall>(c, d) \<in> set xs2. sz + HDR \<le> bsize d - usage d \<longrightarrow> bsize b - usage b < bsize d - usage d)))
    \<and> ((worst_fit h p sz = Some 0 \<and> (\<forall>(a, b) \<in> set xs. bsize b - usage b < sz + HDR))
    \<or> (\<exists>xs1 a b xs2. worst_fit h p sz = Some a \<and> xs = xs1 @ (a, b) # xs2
        \<and> sz + HDR \<le> bsize b - usage b
        \<and> (\<forall>(c, d) \<in> set xs1. sz + HDR \<le> bsize d - usage d \<longrightarrow> bsize d - usage d \<le> bsize b - usage b)
        \<and> (\<forall>(c, d) \<in> set xs2. sz + HDR \<le> bsize d - usage d \<longrightarrow> bsize d - usage d < bsize b - usage b)))"
  using first_fit_finds_first [OF assms, of sz] best_fit_minimal [OF assms, of sz] worst_fit_maximal [OF assms, of sz]
  by (intro conjI)

theorem fit_choices_witness:
  "first_fit (hdrs demo_heap) 0x10000 4000 = Some 0 \<and> best_fit (hdrs demo_heap) 0x10000 100 = Some 0x10000
    \<and> worst_fit (hdrs demo_heap) 0x10000 100 = Some 0x10000"
  using fit_choices [OF demo_seg, of 4000] fit_choices [OF demo_seg, of 100]
  by (auto simp: fresh_block_def HDR_def INT_MAX_def Cons_eq_append_conv)

text \<open>
  \<open>realloc\<close> of a block to any other non-zero size returns NULL and does nothing, so it
  never grows, shrinks or moves a block.
\<close>

theorem realloc_never_moves:
  assumes "p \<noteq> 0" "align8 n \<noteq> 0"
  shows "realloc env p n s = Some (0, s)"
  using assms by (simp add: realloc_def)

theorem realloc_never_moves_witness:
  "realloc demo_env (0x10000 + HDR) 200 demo_heap = Some (0, demo_heap)"
  by (rule realloc_never_moves) (simp_all add: HDR_def align8_def)

text \<open>
  A request of more than \<open>2^64 - 8\<close> bytes wraps to 0 when it is rounded up: \<open>malloc\<close> does
  for it exactly what it does for an empty request, and so can return a payload of no bytes.
\<close>

theorem malloc_wraps:
  assumes "2 ^ 64 - 8 < unat req"
  shows "malloc env req s = malloc env 0 s"
proof -
  have "align8 req = 0"
  proof -
    have m: "unat (req mod 8) = unat req mod 8" by (simp add: unat_mod_distrib)
    obtain q r where qr: "unat req = 8 * q + r" "r < 8" "unat req mod 8 = r"
      by (metis mod_less_divisor mult_div_mod_eq zero_less_numeral)
    have "unat req < 2 ^ 64" by simp
    then have "q \<le> 2305843009213693951" using qr by simp
    with qr assms \<open>unat req < 2 ^ 64\<close>
    have k: "unat req mod 8 \<noteq> 0" "unat req + (8 - unat req mod 8) = 2 ^ 64" by simp_all
    have "req mod 8 \<le> 8" by (simp add: word_le_nat_alt m)
    then have "unat (8 - req mod 8) = 8 - unat req mod 8" using m by (simp add: unat_sub)
    then have "unat (req + (8 - req mod 8)) = 0" using k(2) by (simp add: unat_word_ariths)
    moreover have "req mod 8 \<noteq> 0" using k(1) m by (metis unat_0)
    ultimately show ?thesis by (simp add: align8_def unat_eq_zero_iff)
  qed
  then show ?thesis by (simp add: malloc_def align8_def)
qed

theorem malloc_wraps_witness:
  "malloc demo_env (- 1) alloc_init = malloc demo_env 0 alloc_init"
  by (rule malloc_wraps) (simp add: unsigned_minus_1_eq_mask mask_eq_exp_minus_1)

end
