(* ===== verification/Alloc_Spec.thy ===== *)
theory Alloc_Spec
  imports Alloc_Props
begin

text \<open>
  The allocator as a machine on lists. An abstract heap is the number of allocations so far and
  the list of the regions, each the list of its blocks without the links of the chain; \<open>malloc\<close>
  and \<open>free\<close> replace, append or drop elements of these lists. The code refines this machine, so
  the layout of the memory after a whole program can be computed on the lists; the test programs
  of Project3/tests are run in this way against the results that their scripts expect.
\<close>

section \<open>The list machine\<close>

type_synonym aheap = "u64 \<times> blocks list"

definition spec_fit :: "string option \<Rightarrow> u64 \<Rightarrow> blocks \<Rightarrow> u64" where
  "spec_fit alg sz xs =
     (let a = (case alg of None \<Rightarrow> ''first_fit'' | Some a \<Rightarrow> a) in
      if a = ''first_fit'' then
        (case find (\<lambda>(a, b). bsize b - usage b > sz + HDR) xs of None \<Rightarrow> 0 | Some (a, b) \<Rightarrow> a)
      else if a = ''best_fit'' then pick_of (\<le>) sz xs 0 (word_of_int INT_MAX)
      else if a = ''worst_fit'' then pick_of (\<ge>) sz xs 0 0
      else 0)"

definition areas :: "blocks list \<Rightarrow> (u64 \<times> u64) list" where
  "areas = map (\<lambda>r. (region_start (snd (hd r)), region_size (snd (hd r))))"

definition spec_malloc :: "alloc_env \<Rightarrow> u64 \<Rightarrow> aheap \<Rightarrow> u64 \<times> aheap" where
  "spec_malloc env req A = (case A of (n, bs) \<Rightarrow>
     let sz = align8 req; r = spec_fit (algorithm env) sz (concat bs) in
     if r = 0 then
       (case mmap env (areas bs) (region_bytes env sz) of
          None \<Rightarrow> (0, A)
        | Some p \<Rightarrow> (p + HDR, n + 1, bs @ [[(p, fresh_block n p (region_bytes env sz) sz)]]))
     else case map_of (concat bs) r of
         None \<Rightarrow> (0, A)
       | Some b \<Rightarrow>
           if usage b = 0
           then (r + HDR, n + 1, upd_block r (\<lambda>d. [(r, d\<lparr>alloc_id := n, usage := sz + HDR\<rparr>)]) bs)
           else (r + usage b + HDR, n + 1, upd_block r (\<lambda>d. [(r, d\<lparr>bsize := usage d\<rparr>),
             (r + usage d, d\<lparr>alloc_id := n, bsize := bsize d - usage d, usage := sz + HDR\<rparr>)]) bs))"

definition refines :: "alloc_state \<Rightarrow> aheap \<Rightarrow> bool" where
  "refines s A \<longleftrightarrow> (\<exists>rs. alloc_inv s rs \<and> A = (g_allocations s, shape rs))"

lemma concat_shape: "concat (shape rs) = map (\<lambda>(a, b). (a, b\<lparr>nxt := 0\<rparr>)) (concat rs)"
  by (simp add: shape_def map_concat)

lemma reuse_spec:
  assumes "seg (hdrs s) (g_head s) xs 0"
  shows "reuse env sz s = Some (spec_fit (algorithm env) sz xs)"
  using assms
  by (simp add: reuse_def spec_fit_def first_fit_def best_fit_def worst_fit_def Let_def
      first_fit_loop_seg best_fit_loop_seg worst_fit_loop_seg)

lemma spec_fit_shape: "spec_fit alg sz (concat (shape rs)) = spec_fit alg sz (concat rs)"
proof -
  let ?f = "\<lambda>(a, b). (a, b\<lparr>nxt := 0\<rparr>)"
  have 1: "pick_of better sz (map ?f xs) ret cur = pick_of better sz xs ret cur" for better ret cur xs
    by (induction xs arbitrary: ret cur) auto
  have 2: "(case find (\<lambda>(a, b). bsize b - usage b > sz + HDR) (map ?f xs) of None \<Rightarrow> 0 | Some (a, b) \<Rightarrow> a)
    = (case find (\<lambda>(a, b). bsize b - usage b > sz + HDR) xs of None \<Rightarrow> 0 | Some (a, b) \<Rightarrow> a)" for xs
    by (induction xs) auto
  show ?thesis by (simp add: spec_fit_def concat_shape 1 2 Let_def)
qed

lemma areas_regions: "list_all2 region_ok ms rs \<Longrightarrow> areas (shape rs) = ms"
proof (induction ms rs rule: list_all2_induct)
  case (Cons x ms r rs)
  then show ?case by (cases x; cases r) (auto simp: areas_def region_ok_def)
qed (simp add: areas_def)

lemma areas_shape: "alloc_inv s rs \<Longrightarrow> areas (shape rs) = maps s"
  by (simp add: alloc_inv_def areas_regions)

section \<open>The refinement\<close>

lemma map_of_mid: "a \<notin> fst ` set xs \<Longrightarrow> map_of (xs @ (a, b) # ys) a = Some b"
  by (induction xs) auto

lemma shape_block:
  assumes "alloc_inv s (R1 @ (r1 @ (a, b) # r2) # R2)"
  shows "map_of (concat (shape (R1 @ (r1 @ (a, b) # r2) # R2))) a = Some (b\<lparr>nxt := 0\<rparr>)"
proof -
  have "a \<notin> fst ` set (concat R1 @ r1)" using inv_addr [OF assms] by auto
  then have "a \<notin> fst ` set (map (\<lambda>(a, b). (a, b\<lparr>nxt := 0\<rparr>)) (concat R1 @ r1))" by force
  note mid = map_of_mid [OF this]
  have "concat (shape (R1 @ (r1 @ (a, b) # r2) # R2)) = map (\<lambda>(a, b). (a, b\<lparr>nxt := 0\<rparr>)) (concat R1 @ r1)
      @ (a, b\<lparr>nxt := 0\<rparr>) # map (\<lambda>(a, b). (a, b\<lparr>nxt := 0\<rparr>)) (r2 @ concat R2)"
    by (simp add: concat_shape)
  then show ?thesis by (simp only: mid)
qed

lemma malloc_refines:
  assumes R: "refines s A" and pg: "page_ok env" and sane: "sane_size env req"
    and fresh: "mmap_fresh env (areas (snd A)) (region_bytes env (align8 req))"
  shows "\<exists>s'. malloc env req s = Some (fst (spec_malloc env req A), s') \<and> refines s' (snd (spec_malloc env req A))"
proof -
  let ?sz = "align8 req"
  obtain rs where inv: "alloc_inv s rs" and A: "A = (g_allocations s, shape rs)" using R by (auto simp: refines_def)
  have small: "unat req + 55 + unat (page_sz env) < 2 ^ 64" using sane by (simp add: sane_size_def)
  then have sz: "8 dvd unat ?sz" "unat ?sz < unat req + 8" using align8_bounds [of req] by auto
  have seg: "seg (hdrs s) (g_head s) (concat rs) 0" using inv by (simp add: alloc_inv_def)
  define r where "r = spec_fit (algorithm env) ?sz (concat rs)"
  have reuse: "reuse env ?sz s = Some r" using reuse_spec [OF seg] by (simp add: r_def)
  have ok: "usage b \<le> bsize b" if "(a, b) \<in> set (concat rs)" for a b
    using inv_block(3) [OF inv that] by (simp add: blk_ok_def)
  have small48: "unat ?sz + 48 < 2 ^ 64" using sz small by simp
  have found: "r = 0 \<or> (\<exists>b. (r, b) \<in> set (concat rs) \<and> unat (usage b) + (unat ?sz + 48) \<le> unat (bsize b))"
    using reuse_room [OF seg ok small48, where env = env] reuse by auto
  show ?thesis
  proof (cases "r = 0")
    case True
    then have m: "malloc env req s = new_region env ?sz s" using reuse by (simp add: malloc_def)
    have a: "spec_malloc env req A = (case mmap env (maps s) (region_bytes env ?sz) of
          None \<Rightarrow> (0, g_allocations s, shape rs)
        | Some p \<Rightarrow> (p + HDR, g_allocations s + 1,
            shape rs @ [[(p, fresh_block (g_allocations s) p (region_bytes env ?sz) ?sz)]]))"
      using True by (simp add: spec_malloc_def A spec_fit_shape areas_shape [OF inv] Let_def flip: r_def)
    show ?thesis
    proof (cases "mmap env (maps s) (region_bytes env ?sz)")
      case None
      then show ?thesis using R m a A by (auto simp: new_region_def region_bytes_def Let_def)
    next
      case (Some p)
      have sm: "unat ?sz + 48 + unat (page_sz env) < 2 ^ 64" using sz small by simp
      have fr: "mmap_fresh env (maps s) (region_bytes env ?sz)" using fresh by (simp add: A areas_shape [OF inv])
      obtain s' rs' where "new_region env ?sz s = Some (p + HDR, s')" "alloc_inv s' rs'"
        "g_allocations s' = g_allocations s + 1"
        "shape rs' = shape rs @ [[(p, fresh_block (g_allocations s) p (region_bytes env ?sz) ?sz)]]"
        by (rule new_region_ok [OF inv pg sm sz(1) Some fr]) blast
      with m a Some show ?thesis by (auto simp: refines_def)
    qed
  next
    case False
    with found obtain b where b: "(r, b) \<in> set (concat rs)"
      "unat (usage b) + (unat ?sz + 48) \<le> unat (bsize b)" by blast
    obtain R1 r1 r2 R2 where rs: "rs = R1 @ (r1 @ (r, b) # r2) # R2" using b(1) by (rule region_of_block)
    note inv' = inv [unfolded rs]
    have mo: "map_of (concat (shape rs)) r = Some (b\<lparr>nxt := 0\<rparr>)" unfolding rs by (rule shape_block [OF inv'])
    have hd: "hdrs s r = Some b" by (rule inv_block(1) [OF inv b(1)])
    show ?thesis
    proof (cases "usage b = 0")
      case True
      let ?f = "\<lambda>d. [(r, d\<lparr>alloc_id := g_allocations s, usage := ?sz + HDR\<rparr>)]"
      obtain s' where "take_block env r ?sz s = Some (r + HDR, s')"
        "alloc_inv s' (R1 @ (r1 @ (r, b\<lparr>alloc_id := g_allocations s, usage := ?sz + HDR\<rparr>) # r2) # R2)"
        "g_allocations s' = g_allocations s + 1"
        by (rule take_block_ok [OF inv' True _ sz(1), of env]) (use b True in auto)
      moreover have "upd_block r ?f (shape rs)
          = shape (R1 @ (r1 @ (r, b\<lparr>alloc_id := g_allocations s, usage := ?sz + HDR\<rparr>) # r2) # R2)"
        unfolding rs by (subst shape_upd [OF inv', of ?f ?f]) simp_all
      ultimately show ?thesis
        using False reuse hd True mo
        by (auto simp: malloc_def spec_malloc_def A spec_fit_shape refines_def Let_def simp flip: r_def)
    next
      case used: False
      let ?f = "\<lambda>d. [(r, d\<lparr>bsize := usage d\<rparr>),
        (r + usage d, d\<lparr>alloc_id := g_allocations s, bsize := bsize d - usage d, usage := ?sz + HDR\<rparr>)]"
      let ?rs' = "R1 @ (r1 @ (r, b\<lparr>bsize := usage b, nxt := r + usage b\<rparr>) # (r + usage b,
        \<lparr>alloc_id = g_allocations s, bsize = bsize b - usage b, usage = ?sz + HDR,
         region_start = region_start b, region_size = region_size b, nxt = nxt b\<rparr>) # r2) # R2"
      obtain s' where "split_block env r ?sz s = Some (r + usage b + HDR, s')" "alloc_inv s' ?rs'"
        "g_allocations s' = g_allocations s + 1"
        by (rule split_block_ok [OF inv' used b(2) sz(1), of env]) auto
      moreover have "upd_block r ?f (shape rs) = shape ?rs'"
        unfolding rs by (subst shape_upd [OF inv', of ?f ?f]) simp_all
      ultimately show ?thesis
        using False reuse hd used mo
        by (auto simp: malloc_def spec_malloc_def A spec_fit_shape refines_def Let_def simp flip: r_def)
    qed
  qed
qed

text \<open>A block in use, by the address of its payload.\<close>

definition in_use :: "u64 \<Rightarrow> blocks list \<Rightarrow> bool" where
  "in_use p bs \<longleftrightarrow> (case map_of (concat bs) (p - HDR) of None \<Rightarrow> False | Some b \<Rightarrow> usage b \<noteq> 0)"

lemma free_refines:
  assumes R: "refines s (n, bs)" and u: "in_use p bs" and ok: "\<And>m l. munmap_ok env m l"
  shows "\<exists>s'. free env p s = Some s' \<and> refines s' (n, spec_free (p - HDR) bs)"
proof -
  obtain rs where inv: "alloc_inv s rs" and A: "n = g_allocations s" "bs = shape rs" using R by (auto simp: refines_def)
  from u obtain b0 where "map_of (concat bs) (p - HDR) = Some b0" "usage b0 \<noteq> 0"
    by (auto simp: in_use_def split: option.splits)
  then have "(p - HDR, b0) \<in> set (concat bs)" "usage b0 \<noteq> 0" by (auto dest: map_of_SomeD)
  then obtain b where b: "(p - HDR, b) \<in> set (concat rs)" "usage b \<noteq> 0"
    unfolding A(2) concat_shape by force
  from free_cases [OF inv b ok] obtain s' where "free env p s = Some s'" "free_gives s rs (p - HDR) b s'" by auto
  then show ?thesis unfolding free_gives_def refines_def A by metis
qed

definition spec_report :: "blocks list \<Rightarrow> mem_line list" where
  "spec_report bs = Title # concat (map2 region_report (areas bs) bs)"

lemma print_refines:
  assumes "refines s (n, bs)"
  shows "print_memory s = Some (spec_report bs)"
proof -
  obtain rs where inv: "alloc_inv s rs" and bs: "bs = shape rs" using assms by (auto simp: refines_def)
  have "map2 region_report ms (shape rs) = map2 region_report ms rs" for ms
    unfolding shape_def by (rule nth_equalityI) (auto simp: region_report_def block_line_def split_beta)
  with print_loop_inv [OF inv] show ?thesis
    by (simp add: print_memory_def spec_report_def bs areas_shape [OF inv])
qed

section \<open>Programs\<close>

text \<open>
  A program that allocates and frees: \<open>Free k\<close> frees the result of the \<open>k\<close>-th allocation,
  counted from 0.
\<close>

datatype call = Malloc u64 | Free nat

fun run_calls :: "alloc_env \<Rightarrow> call list \<Rightarrow> u64 list \<Rightarrow> alloc_state \<Rightarrow> (u64 list \<times> alloc_state) option" where
  "run_calls env [] ps s = Some (ps, s)"
| "run_calls env (Malloc n # cs) ps s = do { (p, s1) \<leftarrow> malloc env n s; run_calls env cs (ps @ [p]) s1 }"
| "run_calls env (Free k # cs) ps s = do { s1 \<leftarrow> free env (ps ! k) s; run_calls env cs ps s1 }"

text \<open>On the list machine a call of \<open>free\<close> for anything but a block in use has no result.\<close>

fun spec_calls :: "alloc_env \<Rightarrow> call list \<Rightarrow> u64 list \<Rightarrow> aheap \<Rightarrow> (u64 list \<times> aheap) option" where
  "spec_calls env [] ps A = Some (ps, A)"
| "spec_calls env (Malloc n # cs) ps A =
     (case spec_malloc env n A of (p, A1) \<Rightarrow> spec_calls env cs (ps @ [p]) A1)"
| "spec_calls env (Free k # cs) ps (n, bs) =
     (if k < length ps \<and> in_use (ps ! k) bs
      then spec_calls env cs ps (n, spec_free (ps ! k - HDR) bs) else None)"

fun call_ok :: "alloc_env \<Rightarrow> call \<Rightarrow> bool" where
  "call_ok env (Malloc n) = sane_size env n"
| "call_ok env (Free k) = True"

lemma calls_refine:
  "\<lbrakk>spec_calls env cs ps A = Some (ps', A'); refines s A; good_env env; list_all (call_ok env) cs\<rbrakk> \<Longrightarrow>
    \<exists>s'. run_calls env cs ps s = Some (ps', s') \<and> refines s' A'"
proof (induction env cs ps A arbitrary: s rule: spec_calls.induct)
  case (2 env n cs ps A)
  obtain p A1 where A1: "spec_malloc env n A = (p, A1)" by (cases "spec_malloc env n A")
  obtain s1 where "malloc env n s = Some (p, s1)" "refines s1 A1"
    using malloc_refines [OF "2.prems"(2), of env n] "2.prems"(3,4) A1 by (auto simp: good_env_def)
  with "2.IH" [OF A1 [symmetric], of s1] "2.prems" A1 show ?case by auto
next
  case (3 env k cs ps n bs)
  then have u: "in_use (ps ! k) bs" "k < length ps" by (auto split: if_splits)
  obtain s1 where s1: "free env (ps ! k) s = Some s1" "refines s1 (n, spec_free (ps ! k - HDR) bs)"
    using free_refines [OF "3.prems"(2) u(1), of env] "3.prems"(3) by (auto simp: good_env_def)
  with 3 u show ?case by auto
qed simp

lemma refines_init: "refines alloc_init (0, [])"
  using alloc_inv_init by (auto simp: refines_def alloc_init_def intro!: exI [of _ "[]"])

text \<open>
  C8: The allocator refines the list machine: for every program of \<open>malloc\<close> and \<open>free\<close> calls that
  only frees blocks in use, the code returns the very addresses that the machine computes, the
  chain of blocks in memory is the machine's list of regions, with each block's identifier, size
  and usage, and \<open>print_memory\<close> prints this list.
\<close>

theorem programs_refine:
  assumes "spec_calls env cs [] (0, []) = Some (ps, n, bs)" "good_env env" "list_all (call_ok env) cs"
  shows "\<exists>s. run_calls env cs [] alloc_init = Some (ps, s)
    \<and> (\<exists>rs. alloc_inv s rs \<and> shape rs = bs) \<and> g_allocations s = n
    \<and> print_memory s = Some (spec_report bs)"
proof -
  obtain s where s: "run_calls env cs [] alloc_init = Some (ps, s)" "refines s (n, bs)"
    using calls_refine [OF assms(1) refines_init assms(2,3)] by blast
  with print_refines [OF s(2)] show ?thesis by (auto simp: refines_def)
qed

theorem programs_refine_witness:
  "\<exists>s. run_calls demo_env [Malloc 100, Malloc 5000, Free 1, Malloc 10] [] alloc_init
      = Some ([0x10030, 0x20030, 0x100C8], s)
    \<and> print_memory s = Some [Title, Region 0x10000 0x11000 4096,
        Block 0x10000 0x10098 0 152 152 104, Block 0x10098 0x11000 2 3944 64 16]"
proof -
  have "spec_calls demo_env [Malloc 100, Malloc 5000, Free 1, Malloc 10] [] (0, []) =
    Some ([0x10030, 0x20030, 0x100C8], 3, [[(0x10000, \<lparr>alloc_id = 0, bsize = 152, usage = 152,
       region_start = 0x10000, region_size = 4096, nxt = 0\<rparr>),
     (0x10098, \<lparr>alloc_id = 2, bsize = 3944, usage = 64, region_start = 0x10000, region_size = 4096, nxt = 0\<rparr>)]])"
    by (simp add: spec_malloc_def spec_fit_def align8_def region_bytes_def areas_def fresh_block_def in_use_def
        spec_free_def upd_block_def all_free_at_def demo_env_def HDR_def Let_def area_sep_def)
  from programs_refine [OF this good_demo_env] show ?thesis
    by (simp add: sane_size_def demo_env_def spec_report_def areas_def region_report_def block_line_def HDR_def)
      blast
qed

end
