(* ===== verification/Alloc_Tests.thy ===== *)
theory Alloc_Tests
  imports Alloc_Spec
begin

text \<open>
  The programs of Project3/tests/progs that allocate and free, as lists of calls, and the orders
  of blocks that the scripts of Project3/tests expect of them.
\<close>

section \<open>The programs\<close>

definition allocations_1 :: "call list" where
  "allocations_1 = [Malloc 100, Malloc 100, Malloc 100, Malloc 10, Malloc 100, Malloc 100,
     Free 1, Free 3, Malloc 10]"

definition allocations_3 :: "call list" where
  "allocations_3 = [Malloc 500, Malloc 1000, Malloc 250, Malloc 250, Malloc 500,
     Free 1, Free 3, Malloc 600, Malloc 150, Malloc 50]"

definition allocations_2 :: "call list" where
  "allocations_2 = [Malloc 500, Malloc 1000, Malloc 250, Malloc 250, Malloc 500,
     Free 1, Free 3, Malloc 600, Malloc 150, Malloc 50]"

definition print_test :: "call list" where
  "print_test = [Malloc 4000, Malloc 4000, Malloc 4000]"

text \<open>write-test.c does the same allocations and calls \<open>write_memory\<close> with its file.\<close>

definition write_test :: "call list" where
  "write_test = [Malloc 4000, Malloc 4000, Malloc 4000]"

text \<open>
  What \<open>print_memory\<close> prints at the end, and what the scripts take from it: the identifiers of
  the blocks in their order (without that of the buffer that \<open>puts\<close> allocates, which is the C
  library's and not part of the model), the regions, and the sizes that were asked for.
\<close>

definition report_to_file :: "alloc_env \<Rightarrow> call list \<Rightarrow> mem_line list option" where
  "report_to_file env cs = do { (ps, s) \<leftarrow> run_calls env cs [] alloc_init; (out, file) \<leftarrow> write_memory s; Some file }"

definition report_of :: "alloc_env \<Rightarrow> call list \<Rightarrow> mem_line list option" where
  "report_of env cs = do { (ps, s) \<leftarrow> run_calls env cs [] alloc_init; print_memory s }"

fun block_order :: "mem_line list \<Rightarrow> u64 list" where
  "block_order [] = []"
| "block_order (Block a e i l u n # ls) = i # block_order ls"
| "block_order (_ # ls) = block_order ls"

fun region_sizes :: "mem_line list \<Rightarrow> u64 list" where
  "region_sizes [] = []"
| "region_sizes (Region a e l # ls) = l # region_sizes ls"
| "region_sizes (_ # ls) = region_sizes ls"

fun asked_sizes :: "mem_line list \<Rightarrow> u64 list" where
  "asked_sizes [] = []"
| "asked_sizes (Block a e i l u n # ls) = n # asked_sizes ls"
| "asked_sizes (_ # ls) = asked_sizes ls"

text \<open>An environment that runs the programs with an algorithm.\<close>

definition with_algo :: "string \<Rightarrow> alloc_env" where
  "with_algo a = demo_env\<lparr>algorithm := Some a\<rparr>"

lemma good_with_algo: "good_env (with_algo a)"
proof -
  have "mmap_fresh (with_algo a) ms n = mmap_fresh demo_env ms n" for ms n
    by (cases "mmap demo_env ms n") (simp_all add: mmap_fresh_def with_algo_def)
  moreover have "page_ok (with_algo a) = page_ok demo_env" "munmap_ok (with_algo a) = munmap_ok demo_env"
    by (simp_all add: page_ok_def with_algo_def)
  ultimately show ?thesis using good_demo_env by (simp add: good_env_def)
qed

text \<open>The reports by the list machine.\<close>

definition spec_lines :: "string \<Rightarrow> call list \<Rightarrow> mem_line list option" where
  "spec_lines a cs = map_option (\<lambda>(ps, n, bs). spec_report bs) (spec_calls (with_algo a) cs [] (0, []))"

lemma report_by_spec:
  assumes "spec_lines a cs = Some ls" "list_all (call_ok (with_algo a)) cs"
  shows "report_of (with_algo a) cs = Some ls" "report_to_file (with_algo a) cs = Some (tl ls)"
proof -
  from assms(1) obtain ps n bs where c: "spec_calls (with_algo a) cs [] (0, []) = Some (ps, n, bs)"
    and ls: "ls = spec_report bs" by (auto simp: spec_lines_def)
  obtain s where s: "run_calls (with_algo a) cs [] alloc_init = Some (ps, s)" "refines s (n, bs)"
    using calls_refine [OF c refines_init good_with_algo assms(2)] by blast
  from print_refines [OF s(2)] show "report_of (with_algo a) cs = Some ls"
    by (simp add: report_of_def s(1) ls)
  from print_refines [OF s(2)] show "report_to_file (with_algo a) cs = Some (tl ls)"
    by (auto simp: report_to_file_def s(1) ls print_memory_def write_memory_def spec_report_def split: bind_splits)
qed

lemma programs_ok:
  "list_all (call_ok (with_algo a)) allocations_1" "list_all (call_ok (with_algo a)) allocations_2"
  "list_all (call_ok (with_algo a)) allocations_3" "list_all (call_ok (with_algo a)) print_test"
  "list_all (call_ok (with_algo a)) write_test"
  by (simp_all add: allocations_1_def allocations_2_def allocations_3_def print_test_def write_test_def
      sane_size_def with_algo_def demo_env_def)

lemmas eval_spec = spec_lines_def spec_malloc_def spec_fit_def align8_def region_bytes_def areas_def
  fresh_block_def in_use_def spec_free_def upd_block_def all_free_at_def with_algo_def demo_env_def
  HDR_def INT_MAX_def Let_def area_sep_def spec_report_def region_report_def block_line_def

lemma allocations_1_lines:
  "map_option block_order (spec_lines ''first_fit'' allocations_1) = Some [0, 6, 2, 3, 4, 5]"
  "map_option block_order (spec_lines ''best_fit'' allocations_1) = Some [0, 1, 2, 6, 4, 5]"
  "map_option block_order (spec_lines ''worst_fit'' allocations_1) = Some [0, 1, 2, 3, 4, 5, 6]"
  by (simp_all add: eval_spec allocations_1_def)

lemma allocations_3_lines:
  "map_option block_order (spec_lines ''first_fit'' allocations_3) = Some [0, 5, 6, 7, 2, 3, 4]"
  "map_option block_order (spec_lines ''best_fit'' allocations_3) = Some [0, 5, 2, 6, 7, 4]"
  "map_option block_order (spec_lines ''worst_fit'' allocations_3) = Some [0, 6, 7, 2, 3, 4, 5]"
  by (simp_all add: eval_spec allocations_3_def)

lemma allocations_2_lines:
  "map_option region_sizes (spec_lines ''first_fit'' allocations_2) = Some [4096]"
  "map_option region_sizes (spec_lines ''best_fit'' allocations_2) = Some [4096]"
  "map_option region_sizes (spec_lines ''worst_fit'' allocations_2) = Some [4096]"
  by (simp_all add: eval_spec allocations_2_def)

lemma print_test_lines:
  "spec_lines ''first_fit'' print_test = Some [Title,
     Region 0x10000 0x11000 4096, Block 0x10000 0x11000 0 4096 4048 4000,
     Region 0x20000 0x21000 4096, Block 0x20000 0x21000 1 4096 4048 4000,
     Region 0x30000 0x31000 4096, Block 0x30000 0x31000 2 4096 4048 4000]"
  by (simp add: eval_spec print_test_def)

lemma spec_linesE:
  assumes "map_option f (spec_lines a cs) = Some x" "list_all (call_ok (with_algo a)) cs"
  shows "map_option f (report_of (with_algo a) cs) = Some x"
  using assms report_by_spec(1) by (cases "spec_lines a cs") auto

lemma write_test_print: "write_test = print_test"
  by (simp add: write_test_def print_test_def)

text \<open>
  The programs that come with the tests of the allocator print what the scripts of the tests
  expect: with each of the three algorithms the blocks end up in the expected order, the memory
  of allocations-2.c stays within one page, and the report of three requests that nearly fill a
  page has three regions and shows the sizes asked for, on the standard output and in the file.
\<close>

theorem course_tests:
  "map_option block_order (report_of (with_algo ''first_fit'') allocations_1) = Some [0, 6, 2, 3, 4, 5]
   \<and> map_option block_order (report_of (with_algo ''best_fit'') allocations_1) = Some [0, 1, 2, 6, 4, 5]
   \<and> map_option block_order (report_of (with_algo ''worst_fit'') allocations_1) = Some [0, 1, 2, 3, 4, 5, 6]
   \<and> map_option block_order (report_of (with_algo ''first_fit'') allocations_3) = Some [0, 5, 6, 7, 2, 3, 4]
   \<and> map_option block_order (report_of (with_algo ''best_fit'') allocations_3) = Some [0, 5, 2, 6, 7, 4]
   \<and> map_option block_order (report_of (with_algo ''worst_fit'') allocations_3) = Some [0, 6, 7, 2, 3, 4, 5]
   \<and> map_option region_sizes (report_of (with_algo ''first_fit'') allocations_2) = Some [4096]
   \<and> map_option region_sizes (report_of (with_algo ''best_fit'') allocations_2) = Some [4096]
   \<and> map_option region_sizes (report_of (with_algo ''worst_fit'') allocations_2) = Some [4096]
   \<and> map_option region_sizes (report_of (with_algo ''first_fit'') print_test) = Some [4096, 4096, 4096]
   \<and> map_option asked_sizes (report_of (with_algo ''first_fit'') print_test) = Some [4000, 4000, 4000]
   \<and> map_option region_sizes (report_to_file (with_algo ''first_fit'') write_test) = Some [4096, 4096, 4096]
   \<and> map_option asked_sizes (report_to_file (with_algo ''first_fit'') write_test) = Some [4000, 4000, 4000]"
proof -
  note p = print_test_lines programs_ok(4) [of "''first_fit''"]
  have "report_of (with_algo ''first_fit'') print_test = spec_lines ''first_fit'' print_test"
    "report_to_file (with_algo ''first_fit'') write_test = map_option tl (spec_lines ''first_fit'' print_test)"
    using report_by_spec [OF p] by (simp_all add: print_test_lines write_test_print)
  then show ?thesis
    by (intro conjI spec_linesE allocations_1_lines allocations_2_lines allocations_3_lines programs_ok)
      (simp_all add: print_test_lines)
qed

end
