(* ===== verification/Alloc_Leak.thy ===== *)
theory Alloc_Leak
  imports Alloc_Spec
begin

text \<open>
  The allocator gives memory back: every area that is mapped holds a live payload, after any
  trace of calls and writes, so a client that has freed everything has no area left.
\<close>

section \<open>No region without a block in use\<close>

definition busy :: "blocks list \<Rightarrow> bool" where
  "busy bs \<longleftrightarrow> (\<forall>r \<in> set bs. \<exists>(a, b) \<in> set r. usage b \<noteq> 0)"

lemma busy_simps [simp]:
  "busy []" "busy (r # bs) \<longleftrightarrow> (\<exists>(a, b) \<in> set r. usage b \<noteq> 0) \<and> busy bs"
  "busy (bs @ bs') \<longleftrightarrow> busy bs \<and> busy bs'"
  by (auto simp: busy_def)

lemma busy_shape [simp]: "busy (shape rs) = busy rs"
  unfolding busy_def shape_def by (fastforce split: prod.splits)

lemma busy_upd:
  assumes "busy bs" and "\<And>d. usage d \<noteq> 0 \<Longrightarrow> \<exists>(a, b) \<in> set (f d). usage b \<noteq> 0"
  shows "busy (upd_block a f bs)"
  unfolding busy_def
proof
  fix r assume "r \<in> set (upd_block a f bs)"
  then obtain r0 where r0: "r0 \<in> set bs" and r: "r = concat (map (\<lambda>(c, d). if c = a then f d else [(c, d)]) r0)"
    by (auto simp: upd_block_def)
  from assms(1) r0 obtain c d where cd: "(c, d) \<in> set r0" "usage d \<noteq> 0" by (auto simp: busy_def)
  show "\<exists>(a, b) \<in> set r. usage b \<noteq> 0"
  proof (cases "c = a")
    case True
    with assms(2) [OF cd(2)] cd(1) show ?thesis unfolding r by fastforce
  next
    case False
    with cd show ?thesis unfolding r by (intro bexI [of _ "(c, d)"]) force+
  qed
qed

lemma spec_malloc_busy:
  assumes "busy bs" "align8 req + HDR \<noteq> 0"
  shows "busy (snd (snd (spec_malloc env req (n, bs))))"
  using assms by (auto simp: spec_malloc_def Let_def fresh_block_def intro!: busy_upd split: option.split)

lemma spec_free_busy:
  assumes "busy bs"
  shows "busy (spec_free a bs)"
  unfolding busy_def
proof
  fix r assume r: "r \<in> set (spec_free a bs)"
  then obtain r0 where r0: "r0 \<in> set bs"
    "r = concat (map (\<lambda>(c, d). if c = a then [(a, d\<lparr>usage := 0\<rparr>)] else [(c, d)]) r0)"
    and n: "\<not> all_free_at a r" by (auto simp: spec_free_def upd_block_def)
  show "\<exists>(a, b) \<in> set r. usage b \<noteq> 0"
  proof (cases "a \<in> fst ` set r")
    case True
    with n show ?thesis by (auto simp: all_free_at_def list_all_iff)
  next
    case False
    let ?upd = "\<lambda>r. concat (map (\<lambda>(c, d). if c = a then [(a, d\<lparr>usage := 0\<rparr>)] else [(c, d)]) r)"
    have "map fst (?upd xs) = map fst xs" for xs by (induction xs) auto
    then have "set (map fst r) = set (map fst r0)" unfolding r0(2) by (rule arg_cong)
    with False have "a \<notin> fst ` set (concat [r0])" by simp
    from upd_outside [OF this, of "\<lambda>d. [(a, d\<lparr>usage := 0\<rparr>)]"] have "r = r0" by (simp add: upd_block_def r0(2))
    with assms r0(1) show ?thesis by (auto simp: busy_def)
  qed
qed

section \<open>The same for the code\<close>

lemma seg_unique: "\<lbrakk>seg h p xs 0; seg h p ys 0\<rbrakk> \<Longrightarrow> xs = ys"
proof (induction xs arbitrary: p ys)
  case Nil
  then show ?case by (cases ys) auto
next
  case (Cons x xs)
  obtain a b where x: "x = (a, b)" by (cases x)
  with Cons.prems(1) have p: "p = a" "a \<noteq> 0" "h a = Some b" "seg h (nxt b) xs 0" by auto
  with Cons.prems(2) obtain zs where "ys = (a, b) # zs" "seg h (nxt b) zs 0" by (cases ys) auto
  with Cons.IH p(4) x show ?case by simp
qed

lemma inv_unique: "\<lbrakk>alloc_inv s rs; alloc_inv s rs'\<rbrakk> \<Longrightarrow> concat rs = concat rs'"
  unfolding alloc_inv_def by (blast dest: seg_unique)

lemma live_unique:
  assumes "alloc_inv s rs" "alloc_inv s rs'"
  shows "live rs = live rs'"
  using inv_unique [OF assms] unfolding live_def
  by (rule arg_cong [where f = "\<lambda>xs. \<Union>y \<in> set xs. live_blk y"])

lemma simulates_live: "\<lbrakk>simulates s L; alloc_inv s rs\<rbrakk> \<Longrightarrow> live rs = L"
  unfolding simulates_def using live_unique by blast

definition busy_heap :: "alloc_state \<Rightarrow> bool" where
  "busy_heap s \<longleftrightarrow> (\<exists>rs. alloc_inv s rs \<and> busy rs)"

lemma busy_heapI:
  assumes "refines s A" "busy (snd A)"
  shows "busy_heap s"
proof -
  from assms(1) obtain rs where rs: "alloc_inv s rs" "A = (g_allocations s, shape rs)"
    unfolding refines_def by blast
  with assms(2) have "busy rs" by simp
  with rs(1) show ?thesis unfolding busy_heap_def by blast
qed

lemma busy_heapE:
  assumes "busy_heap s"
  obtains n bs where "refines s (n, bs)" "busy bs"
proof -
  from assms obtain rs where rs: "alloc_inv s rs" "busy rs" unfolding busy_heap_def by blast
  then have "refines s (g_allocations s, shape rs)" unfolding refines_def by blast
  moreover have "busy (shape rs)" using rs(2) by simp
  ultimately show thesis by (rule that)
qed

lemma align8_HDR:
  assumes "sane_size env req"
  shows "align8 req + HDR \<noteq> 0"
proof -
  have "unat (align8 req) + 48 < 2 ^ 64"
    using align8_bounds(3) [of req] assms by (simp add: sane_size_def)
  then have "unat (align8 req + HDR) = unat (align8 req) + 48" by (rule addr_HDR)
  then show ?thesis by (metis add_is_0 unat_0 zero_neq_numeral)
qed

lemma malloc_busy:
  assumes "busy_heap s" "good_env env" "sane_size env req" "malloc env req s = Some (p, s')"
  shows "busy_heap s'"
proof -
  obtain n bs where A: "refines s (n, bs)" "busy bs" using assms(1) by (rule busy_heapE)
  have "page_ok env" "mmap_fresh env (areas bs) (region_bytes env (align8 req))"
    using assms(2) by (simp_all add: good_env_def)
  from malloc_refines [OF A(1) this(1) assms(3)] this(2) assms(4)
  have "refines s' (snd (spec_malloc env req (n, bs)))" by auto
  then show ?thesis using spec_malloc_busy [OF A(2) align8_HDR [OF assms(3)]] by (rule busy_heapI)
qed

lemma free_busy:
  assumes b: "busy_heap s" and env: "good_env env" and p: "simulates s L" "(unat p, m) \<in> L" "free env p s = Some s'"
  shows "busy_heap s'"
proof -
  obtain rs where rs: "alloc_inv s rs" "busy rs" using b by (auto simp: busy_heap_def)
  have "(unat p, m) \<in> live rs" using p(2) simulates_live [OF p(1) rs(1)] by simp
  moreover have "\<forall>p n. munmap_ok env p n" using env by (simp add: good_env_def)
  ultimately obtain a b s1 where "free env p s = Some s1" "free_gives s rs a b s1"
    using free_live [OF rs(1)] by metis
  with p(3) obtain rs' where "alloc_inv s' rs'" "shape rs' = spec_free a (shape rs)"
    by (auto simp: free_gives_def)
  with spec_free_busy [of "shape rs" a] rs(2) show ?thesis
    unfolding busy_heap_def by (metis busy_shape)
qed

lemma write_busy:
  assumes b: "busy_heap s" and p: "simulates s L" "(q, m) \<in> L" "q \<le> unat p" "unat p + unat n \<le> q + m"
    "memset p v n s = Some s'"
  shows "busy_heap s'"
proof -
  obtain rs where rs: "alloc_inv s rs" "busy rs" using b by (auto simp: busy_heap_def)
  have "(q, m) \<in> live rs" using p(2) simulates_live [OF p(1) rs(1)] by simp
  then obtain s1 where "memset p v n s = Some s1" "alloc_inv s1 rs"
    using write_live [OF rs(1)] p(3,4) by metis
  with p(5) rs(2) show ?thesis by (auto simp: busy_heap_def)
qed

lemma calloc_busy:
  assumes run: "heap_run env s L" and b: "busy_heap s" and env: "good_env env" and sane: "sane_size env (k * n)"
    and c: "calloc env k n s = Some (p, s')"
  shows "busy_heap s'"
proof -
  from c obtain s1 where s1: "malloc env (k * n) s = Some (p, s1)" "memset p 0 (k * n) s1 = Some s'"
    by (auto simp: calloc_def split: bind_splits)
  have b1: "busy_heap s1" by (rule malloc_busy [OF b env sane s1(1)])
  show ?thesis
  proof (cases "k * n = 0")
    case True
    with s1 b1 show ?thesis by (simp add: memset_def)
  next
    case False
    obtain rs where rs: "alloc_inv s rs" "live rs = L"
      using heap_run_simulates [OF run env] by (auto simp: simulates_def)
    have "p \<noteq> 0" using calloc_live [OF rs(1) env sane c] False by auto
    then have L1: "simulates s1 (insert (unat p, unat (align8 (k * n))) L)"
      using malloc_simulates [OF heap_run_simulates [OF run env] env sane] s1(1) by (auto simp: handed_out_def)
    have "unat (k * n) \<le> unat (align8 (k * n))" using align8_bounds(2) [of "k * n"] sane by (simp add: sane_size_def)
    then show ?thesis by (intro write_busy [OF b1 L1 _ _ _ s1(2)]) auto
  qed
qed

lemma heap_run_busy:
  assumes "heap_run env s L" "good_env env"
  shows "busy_heap s"
  using assms(1)
proof induction
  case run_init
  show ?case using alloc_inv_init by (auto simp: busy_heap_def intro!: exI [of _ "[]"])
next
  case (run_malloc s L n p s')
  with assms(2) show ?case by (blast intro: malloc_busy)
next
  case (run_calloc s L k n p s')
  with assms(2) show ?case by (blast intro: calloc_busy)
next
  case (run_free s L p n s')
  with assms(2) show ?case by (blast intro: free_busy heap_run_simulates)
next
  case (run_realloc_null s L n p s')
  then have "malloc env (align8 n) s = Some (p, s')" by (simp add: realloc_def)
  with run_realloc_null assms(2) show ?case by (blast intro: malloc_busy)
next
  case (run_realloc_zero s L p n r s')
  then have "free env p s = Some s'" by (auto simp: realloc_def align8_def split: bind_splits)
  with run_realloc_zero assms(2) show ?case by (blast intro: free_busy heap_run_simulates)
next
  case (run_write s L q m p n v s')
  with assms(2) show ?case by (blast intro: write_busy heap_run_simulates)
qed (simp_all add: free_def realloc_def)

lemma list_all2_forth: "\<lbrakk>list_all2 P xs ys; x \<in> set xs\<rbrakk> \<Longrightarrow> \<exists>y \<in> set ys. P x y"
  by (induction rule: list_all2_induct) auto

lemma list_all2_back: "\<lbrakk>list_all2 P xs ys; y \<in> set ys\<rbrakk> \<Longrightarrow> \<exists>x \<in> set xs. P x y"
  by (induction rule: list_all2_induct) auto

lemma busy_areas:
  assumes inv: "alloc_inv s rs" and b: "busy rs" and ml: "(m, l) \<in> set (maps s)"
  shows "\<exists>(q, n) \<in> live rs. unat m + 48 \<le> q \<and> q + n \<le> unat m + unat l"
proof -
  have "list_all2 region_ok (maps s) rs" using inv by (simp add: alloc_inv_def)
  then obtain r where r: "region_ok (m, l) r" "r \<in> set rs"
    using ml by (blast dest: list_all2_forth)
  obtain a d where ad: "(a, d) \<in> set r" "usage d \<noteq> 0" using b r(2) by (auto simp: busy_def)
  have "blk_in (m, l) (a, d)" using r(1) ad(1) by (rule region_ok_in)
  then have "unat m \<le> unat a" "unat a + unat (bsize d) \<le> unat m + unat l" "blk_ok d"
    by (auto simp: blk_in_def)
  then have "unat m + 48 \<le> unat a + 48 \<and> unat a + 48 + (unat (usage d) - 48) \<le> unat m + unat l"
    using ad(2) by (auto simp: blk_ok_def word_le_nat_alt)
  moreover have "(unat a + 48, unat (usage d) - 48) \<in> live rs"
    unfolding live_def using ad r(2) by force
  ultimately show ?thesis by blast
qed

section \<open>No leak\<close>

text \<open>
  C9: The allocator does not leak. After any trace of calls and of writes inside the payloads,
  every area that is mapped contains a payload that the client still holds; so a client that has
  freed everything has given all memory back to the system, and the list is empty.
\<close>

theorem no_leak:
  assumes "heap_run env s L" "good_env env"
  shows "(\<forall>(m, l) \<in> set (maps s). \<exists>(q, n) \<in> L. unat m + 48 \<le> q \<and> q + n \<le> unat m + unat l)
    \<and> (L = {} \<longrightarrow> maps s = [] \<and> g_head s = 0)"
proof -
  obtain rs where rs: "alloc_inv s rs" "busy rs" using heap_run_busy [OF assms] by (auto simp: busy_heap_def)
  have "live rs = L" by (rule simulates_live [OF heap_run_simulates [OF assms] rs(1)])
  with busy_areas [OF rs] have areas: "\<forall>(m, l) \<in> set (maps s). \<exists>(q, n) \<in> L. unat m + 48 \<le> q \<and> q + n \<le> unat m + unat l"
    by blast
  moreover have "maps s = [] \<and> g_head s = 0" if "L = {}"
  proof -
    have "maps s = []" using areas that by (cases "maps s") auto
    with rs(1) have "rs = []" by (simp add: alloc_inv_def)
    with \<open>maps s = []\<close> head_zero [OF rs(1)] show ?thesis by simp
  qed
  ultimately show ?thesis by blast
qed

theorem no_leak_witness:
  "\<exists>s. free demo_env (0x10000 + HDR) demo_heap = Some s \<and> maps s = [] \<and> g_head s = 0"
proof -
  have m: "(unat (0x10030 :: u64), 104) \<in> {(65584, 104 :: nat)}" by simp
  obtain s where s: "free demo_env 0x10030 demo_heap = Some s"
    using free_simulates [OF heap_run_simulates [OF demo_run good_demo_env] good_demo_env m] by blast
  from run_free [OF demo_run m s] have "heap_run demo_env s {}" by simp
  from no_leak [OF this good_demo_env] s show ?thesis by (simp add: HDR_def)
qed

end
