(* ===== verification/Alloc_Free_Test.thy ===== *)
theory Alloc_Free_Test
  imports Alloc_Leak
begin

text \<open>
  The test program Project3/tests/progs/free.c: fifty rounds that allocate ten blocks of random
  sizes, fill them with zeroes, free them and look at the size of the process. It is verified
  for every sequence of random numbers and every heap it can start with.
\<close>

section \<open>The program\<close>

text \<open>
  \<open>vmsize\<close> reads the size of the process in pages from /proc. That is what the process has
  without the allocator, \<open>base\<close>, and the pages of the allocator's areas.
\<close>

definition vmsize :: "alloc_env \<Rightarrow> u64 \<Rightarrow> alloc_state \<Rightarrow> u64" where
  "vmsize env base s = base + sum_list (map (\<lambda>(m, l). l div page_sz env) (maps s))"

definition ALLOC_SZ :: nat where "ALLOC_SZ = 5000000"
definition NUM_ROUNDS :: nat where "NUM_ROUNDS = 50"
definition NUM_ALLOCATIONS :: nat where "NUM_ALLOCATIONS = 10"

datatype vm_line =
    Startup u64
  | Round nat u64
  | Leaking u64

text \<open>
  \<open>rnd k\<close> is the result of call \<open>k\<close> of \<open>rand\<close>. The loops count down what is left to do. The
  allocations end with None for the list when \<open>malloc\<close> returned a null pointer.
\<close>

fun alloc_loop ::
  "alloc_env \<Rightarrow> (nat \<Rightarrow> nat) \<Rightarrow> nat \<Rightarrow> nat \<Rightarrow> alloc_state \<Rightarrow> (u64 list option \<times> alloc_state) option" where
  "alloc_loop env rnd k 0 s = Some (Some [], s)"
| "alloc_loop env rnd k (Suc n) s = do {
     let len = of_nat (rnd k mod ALLOC_SZ) * 4;
     (a, s1) \<leftarrow> malloc env len s;
     if a = 0 then Some (None, s1)
     else do {
       s2 \<leftarrow> memset a 0 len s1;
       (allocs, s3) \<leftarrow> alloc_loop env rnd (k + 1) n s2;
       Some (map_option ((#) a) allocs, s3)
     }
   }"

fun free_loop :: "alloc_env \<Rightarrow> u64 list \<Rightarrow> alloc_state \<Rightarrow> alloc_state option" where
  "free_loop env [] s = Some s"
| "free_loop env (a # allocs) s = do { s1 \<leftarrow> free env a s; free_loop env allocs s1 }"

text \<open>The result is the exit status, the output and the heap.\<close>

fun round_loop ::
  "alloc_env \<Rightarrow> u64 \<Rightarrow> (nat \<Rightarrow> nat) \<Rightarrow> u64 \<Rightarrow> nat \<Rightarrow> nat \<Rightarrow> u64 \<Rightarrow> alloc_state
    \<Rightarrow> (nat \<times> vm_line list \<times> alloc_state) option" where
  "round_loop env base rnd vm_limit i 0 vm_start s = Some (0, [], s)"
| "round_loop env base rnd vm_limit i (Suc n) vm_start s = do {
     (allocs, s1) \<leftarrow> alloc_loop env rnd (i * NUM_ALLOCATIONS) NUM_ALLOCATIONS s;
     case allocs of
       None \<Rightarrow> Some (1, [], s1)
     | Some as \<Rightarrow> do {
         s2 \<leftarrow> free_loop env as s1;
         let vm = vmsize env base s2;
         let vm_start = (if vm_start = 0 then vm else vm_start);
         if vm - vm_start > vm_limit then Some (1, [Round i vm, Leaking vm_limit], s2)
         else do {
           (c, out, s3) \<leftarrow> round_loop env base rnd vm_limit (i + 1) n vm_start s2;
           Some (c, Round i vm # out, s3)
         }
       }
   }"

definition free_main ::
  "alloc_env \<Rightarrow> u64 \<Rightarrow> (nat \<Rightarrow> nat) \<Rightarrow> alloc_state \<Rightarrow> (nat \<times> vm_line list \<times> alloc_state) option" where
  "free_main env base rnd s = do {
     let vm_limit = (of_nat ALLOC_SZ div page_sz env) * 2;
     (c, out, s') \<leftarrow> round_loop env base rnd vm_limit 0 NUM_ROUNDS 0 s;
     Some (c, Startup (vmsize env base s) # out, s')
   }"

section \<open>The areas that hold payloads\<close>

text \<open>The areas in which the payload of \<open>n\<close> bytes at \<open>q\<close> lies, with the header before it.\<close>

definition homes :: "alloc_state \<Rightarrow> nat \<Rightarrow> nat \<Rightarrow> (u64 \<times> u64) set" where
  "homes s q n = {(m, l) \<in> set (maps s). unat m + 48 \<le> q \<and> q + n \<le> unat m + unat l}"

definition same_homes :: "alloc_state \<Rightarrow> alloc_state \<Rightarrow> (nat \<times> nat) set \<Rightarrow> bool" where
  "same_homes s s' L \<longleftrightarrow> (\<forall>(q, n) \<in> L. homes s q n = homes s' q n)"

lemma same_homes_refl: "same_homes s s L"
  by (simp add: same_homes_def)

lemma same_homes_trans: "\<lbrakk>same_homes s s' L; same_homes s' s'' L\<rbrakk> \<Longrightarrow> same_homes s s'' L"
  by (simp add: same_homes_def split_beta)

lemma same_homes_mono: "\<lbrakk>same_homes s s' L'; L \<subseteq> L'\<rbrakk> \<Longrightarrow> same_homes s s' L"
  unfolding same_homes_def by blast

lemma same_homes_sym: "same_homes s s' L \<Longrightarrow> same_homes s' s L"
  by (simp add: same_homes_def split_beta)

lemma live_home:
  assumes inv: "alloc_inv s rs" and qn: "(q, n) \<in> live rs"
  shows "homes s q n \<noteq> {}"
proof -
  obtain a b where ab: "(a, b) \<in> set (concat rs)" "usage b \<noteq> 0" "q = unat a + 48" "n = unat (usage b) - 48"
    using qn by (rule liveE)
  then obtain r where r: "r \<in> set rs" "(a, b) \<in> set r" by auto
  have "list_all2 region_ok (maps s) rs" using inv by (simp add: alloc_inv_def)
  then obtain m l where ml: "(m, l) \<in> set (maps s)" "region_ok (m, l) r"
    using r(1) by (auto dest: list_all2_back)
  have "blk_in (m, l) (a, b)" using ml(2) r(2) by (rule region_ok_in)
  then have "unat m \<le> unat a" "unat a + unat (bsize b) \<le> unat m + unat l" "blk_ok b"
    by (auto simp: blk_in_def)
  then have "unat m + 48 \<le> q \<and> q + n \<le> unat m + unat l"
    using ab(2-4) by (auto simp: blk_ok_def word_le_nat_alt)
  with ml(1) show ?thesis by (auto simp: homes_def)
qed

lemma sorted_wrt_sym:
  assumes "sorted_wrt P xs" "\<And>x y. P x y = P y x" "x \<in> set xs" "y \<in> set xs" "x \<noteq> y"
  shows "P x y"
  using assms by (induction xs) auto

lemma home_unique:
  assumes "alloc_inv s rs" "x \<in> homes s q n" "y \<in> homes s q n"
  shows "x = y"
proof (rule ccontr)
  assume ne: "x \<noteq> y"
  have "sorted_wrt area_sep (maps s)" using assms(1) by (simp add: alloc_inv_def)
  then have "area_sep x y"
    by (rule sorted_wrt_sym [OF _ area_sep_sym _ _ ne]) (use assms(2,3) in \<open>auto simp: homes_def\<close>)
  with assms(2,3) show False by (auto simp: homes_def area_sep_def)
qed

lemma homes_grow:
  assumes s: "simulates s L" and s': "simulates s' L'" and sub: "set (maps s) \<subseteq> set (maps s')"
  shows "same_homes s s' (L \<inter> L')"
proof -
  obtain rs rs' where inv: "alloc_inv s rs" "live rs = L" "alloc_inv s' rs'"
    using s s' by (auto simp: simulates_def)
  have "homes s q n = homes s' q n" if qn: "(q, n) \<in> L" for q n
  proof
    show le: "homes s q n \<subseteq> homes s' q n" using sub by (auto simp: homes_def)
    obtain x where x: "x \<in> homes s q n"
      using live_home [OF inv(1)] inv(2) qn by blast
    with le have "x \<in> homes s' q n" by blast
    with home_unique [OF inv(3) this] x show "homes s' q n \<subseteq> homes s q n" by blast
  qed
  then show ?thesis by (auto simp: same_homes_def)
qed

text \<open>Every area is the home of a payload, so the payloads determine the areas.\<close>

lemma maps_homes:
  assumes "heap_run env s L" "good_env env"
  shows "set (maps s) = (\<Union>(q, n) \<in> L. homes s q n)"
proof -
  obtain rs where rs: "alloc_inv s rs" "busy rs" using heap_run_busy [OF assms] by (auto simp: busy_heap_def)
  have "live rs = L" by (rule simulates_live [OF heap_run_simulates [OF assms] rs(1)])
  with busy_areas [OF rs] show ?thesis by (fastforce simp: homes_def)
qed

lemma same_maps:
  assumes "heap_run env s L" "heap_run env s' L" "good_env env" "same_homes s s' L"
  shows "set (maps s) = set (maps s')"
  unfolding maps_homes [OF assms(1,3)] maps_homes [OF assms(2,3)]
  by (rule SUP_cong [OF refl]) (use assms(4) in \<open>auto simp: same_homes_def\<close>)

lemma maps_distinct:
  assumes "alloc_inv s rs"
  shows "distinct (maps s)"
proof -
  have pos: "0 < unat (snd x)" if "x \<in> set (maps s)" for x
    using assms that list_all2_left region_pos unfolding alloc_inv_def by (metis prod.collapse)
  have "distinct ms" if "sorted_wrt area_sep ms" "\<And>x. x \<in> set ms \<Longrightarrow> 0 < unat (snd x)" for ms
    using that by (induction ms) (fastforce simp: area_sep_def)+
  from this [OF _ pos] assms show ?thesis unfolding alloc_inv_def by blast
qed

lemma vmsize_same:
  assumes "simulates s L" "simulates s' L'" "set (maps s) = set (maps s')"
  shows "vmsize env base s = vmsize env base s'"
  using assms maps_distinct unfolding simulates_def vmsize_def
  by (metis (no_types, lifting) sum_list_distinct_conv_sum_set)

section \<open>How the calls change the areas\<close>

lemma store_hdr_maps: "store_hdr p b s = Some s' \<Longrightarrow> maps s' = maps s"
  by (auto simp: store_hdr_def split: if_splits)

lemma memset_maps: "memset p v n s = Some s' \<Longrightarrow> maps s' = maps s"
  by (auto simp: memset_def split: if_splits)

lemma scribbled_maps: "scribbled env p n s = Some s' \<Longrightarrow> maps s' = maps s"
  by (auto simp: scribbled_def memset_maps split: if_splits)

lemma append_loop_maps: "append_loop c b s = Some s' \<Longrightarrow> maps s' = maps s"
proof (erule append_loop.raw_induct [rotated])
  fix loop :: "u64 \<Rightarrow> u64 \<Rightarrow> alloc_state \<Rightarrow> alloc_state option" and c b s s'
  assume IH: "\<And>c b s s'. loop c b s = Some s' \<Longrightarrow> maps s' = maps s"
    and "(if c = 0 then Some s else Option.bind (hdrs s c) (\<lambda>d.
      if nxt d = 0 then store_hdr c (d\<lparr>nxt := b\<rparr>) s else loop (nxt d) b s)) = Some s'"
  then show "maps s' = maps s" by (auto split: if_splits bind_splits dest: store_hdr_maps)
qed

lemma malloc_grows:
  assumes "malloc env n s = Some (p, s')"
  shows "set (maps s) \<subseteq> set (maps s')"
  using assms
  by (auto simp: malloc_def take_block_def split_block_def new_region_def map_area_def Let_def
      dest!: store_hdr_maps scribbled_maps append_loop_maps split: bind_splits if_splits option.splits)

lemma free_shrinks:
  assumes "simulates s L" "good_env env" "(unat p, n) \<in> L" "free env p s = Some s'"
  shows "set (maps s') \<subseteq> set (maps s)"
proof -
  from assms(1) obtain rs where rs: "alloc_inv s rs" "live rs = L" by (auto simp: simulates_def)
  have env: "\<forall>p n. munmap_ok env p n" using assms(2) by (simp add: good_env_def)
  have "(unat p, n) \<in> live rs" using assms(3) rs(2) by simp
  then obtain a b s1 where s1: "free env p s = Some s1" "free_gives s rs a b s1"
    using free_live [OF rs(1) _ env] by metis
  have "set (maps s1) \<subseteq> set (maps s)"
    using s1(2) set_remove1_subset [of _ "maps s"] by (auto simp: free_gives_def split: if_splits)
  with s1(1) assms(4) show ?thesis by simp
qed

section \<open>The loops\<close>

lemma malloc_homes:
  assumes "heap_run env s L" "good_env env" "malloc env len s = Some (p, s')" "heap_run env s' (insert y L)"
  shows "same_homes s s' L"
proof -
  have "same_homes s s' (L \<inter> insert y L)"
    by (rule homes_grow [OF heap_run_simulates [OF assms(1,2)] heap_run_simulates [OF assms(4,2)]
        malloc_grows [OF assms(3)]])
  then show ?thesis by (rule same_homes_mono) blast
qed

lemma free_run:
  assumes run: "heap_run env s L" and env: "good_env env" and p: "(unat p, n) \<in> L"
  obtains s' where "free env p s = Some s'" "heap_run env s' (L - {(unat p, n)})"
    "same_homes s s' (L - {(unat p, n)})"
proof -
  note sim = heap_run_simulates [OF run env]
  obtain s' where s': "free env p s = Some s'" using free_simulates [OF sim env p] by blast
  have run': "heap_run env s' (L - {(unat p, n)})" by (rule run_free [OF run p s'])
  have "same_homes s' s ((L - {(unat p, n)}) \<inter> L)"
    by (rule homes_grow [OF heap_run_simulates [OF run' env] sim free_shrinks [OF sim env p s']])
  then have "same_homes s s' (L - {(unat p, n)})" by (rule same_homes_sym [OF same_homes_mono]) blast
  with s' run' show thesis by (rule that)
qed

text \<open>The payloads \<open>ps\<close> that the program owns besides those of \<open>L\<close>.\<close>

definition owns :: "(nat \<times> nat) set \<Rightarrow> u64 list \<Rightarrow> (nat \<times> nat) list \<Rightarrow> bool" where
  "owns L as ps \<longleftrightarrow> map fst ps = map unat as \<and> distinct (map fst ps) \<and> fst ` set ps \<inter> fst ` L = {}"

lemma owns_Cons:
  assumes "owns (insert (unat p, m) L) as ps" "unat p \<notin> fst ` L"
  shows "owns L (p # as) ((unat p, m) # ps)"
proof -
  from assms(1) have eq: "map fst ps = map unat as" and d: "distinct (map fst ps)"
    and disj: "fst ` set ps \<inter> fst ` insert (unat p, m) L = {}"
    unfolding owns_def by blast+
  from disj have "unat p \<notin> fst ` set ps" "fst ` set ps \<inter> fst ` L = {}" by auto
  with d assms(2) have "distinct (map fst ((unat p, m) # ps))" "fst ` set ((unat p, m) # ps) \<inter> fst ` L = {}"
    by simp_all
  with eq show ?thesis by (simp only: owns_def list.map fst_conv simp_thms)
qed

lemma free_loop_run:
  assumes env: "good_env env"
  shows "\<lbrakk>heap_run env s (L \<union> set ps); owns L as ps\<rbrakk> \<Longrightarrow>
    \<exists>s'. free_loop env as s = Some s' \<and> heap_run env s' L \<and> same_homes s s' L"
proof (induction ps arbitrary: as s)
  case Nil
  then show ?case by (simp add: owns_def same_homes_refl)
next
  case (Cons y ps)
  then obtain a as' where as: "as = a # as'" "fst y = unat a" "owns L as' ps"
    by (auto simp: owns_def)
  obtain m where y: "y = (unat a, m)" using as(2) by (cases y) auto
  have diff: "L \<union> set (y # ps) - {y} = L \<union> set ps"
    using Cons.prems(2) by (force simp: owns_def)
  obtain s1 where s1: "free env a s = Some s1" "heap_run env s1 (L \<union> set ps)" "same_homes s s1 (L \<union> set ps)"
    by (rule free_run [OF Cons.prems(1) env, of a m]) (use y diff in auto)
  from Cons.IH [OF s1(2) as(3)] obtain s' where
    s': "free_loop env as' s1 = Some s'" "heap_run env s' L" "same_homes s1 s' L" by blast
  have "same_homes s s1 L" using s1(3) by (rule same_homes_mono) blast
  then have "same_homes s s' L" using s'(3) by (rule same_homes_trans)
  with s' s1(1) as(1) show ?case by simp
qed

text \<open>The system refuses an area for one of the sizes the program asks for.\<close>

definition refused :: "alloc_env \<Rightarrow> (nat \<Rightarrow> nat) \<Rightarrow> alloc_state \<Rightarrow> bool" where
  "refused env rnd s \<longleftrightarrow>
     (\<exists>k. mmap env (maps s) (region_bytes env (align8 (of_nat (rnd k mod ALLOC_SZ) * 4))) = None)"

definition sizes_fit :: "alloc_env \<Rightarrow> bool" where
  "sizes_fit env \<longleftrightarrow> (\<forall>x < ALLOC_SZ. sane_size env (of_nat x * 4))"

lemma zero_fill_run:
  assumes run: "heap_run env s (insert (unat p, unat (align8 len)) L)" and env: "good_env env"
    and sane: "sane_size env len"
  obtains s' where "memset p 0 len s = Some s'" "heap_run env s' (insert (unat p, unat (align8 len)) L)"
    "same_homes s s' L"
proof -
  have le: "unat len \<le> unat (align8 len)" using align8_bounds(2) [of len] sane by (simp add: sane_size_def)
  from heap_run_simulates [OF run env] obtain rs where
    rs: "alloc_inv s rs" "live rs = insert (unat p, unat (align8 len)) L" by (auto simp: simulates_def)
  have "(unat p, unat (align8 len)) \<in> live rs" using rs(2) by simp
  then obtain s' where s': "memset p 0 len s = Some s'" "maps s' = maps s"
    by (rule write_live [OF rs(1), of _ _ p len 0]) (use le in auto)
  have "heap_run env s' (insert (unat p, unat (align8 len)) L)"
    by (rule run_write [OF run _ _ _ s'(1), of "unat p" "unat (align8 len)"]) (use le in auto)
  with s' show thesis by (intro that) (auto simp: same_homes_def homes_def)
qed

lemma alloc_loop_run:
  assumes env: "good_env env" and sizes: "sizes_fit env"
  shows "heap_run env s L \<Longrightarrow>
    (\<exists>s'. alloc_loop env rnd k n s = Some (None, s') \<and> refused env rnd s')
    \<or> (\<exists>as ps s'. alloc_loop env rnd k n s = Some (Some as, s') \<and> heap_run env s' (L \<union> set ps)
         \<and> owns L as ps \<and> same_homes s s' L)"
proof (induction n arbitrary: k s L)
  case 0
  then show ?case by (auto simp: owns_def same_homes_refl intro!: exI [of _ "[]"])
next
  case (Suc n)
  let ?len = "of_nat (rnd k mod ALLOC_SZ) * 4 :: u64"
  have "rnd k mod ALLOC_SZ < ALLOC_SZ" by (simp add: ALLOC_SZ_def)
  with sizes have sane: "sane_size env ?len" unfolding sizes_fit_def by blast
  show ?case
  proof (rule malloc_run [OF Suc.prems env sane])
    assume "malloc env ?len s = Some (0, s)" "mmap env (maps s) (region_bytes env (align8 ?len)) = None"
    then show ?thesis by (auto simp: refused_def)
  next
    fix p :: u64 and s1
    let ?y = "(unat p, unat (align8 ?len))"
    assume p: "p \<noteq> 0" "malloc env ?len s = Some (p, s1)" "heap_run env s1 (insert ?y L)"
      "unat p \<notin> fst ` L"
    note same = malloc_homes [OF Suc.prems env p(2,3)]
    obtain s2 where s2: "memset p 0 ?len s1 = Some s2" "heap_run env s2 (insert ?y L)" "same_homes s1 s2 L"
      by (rule zero_fill_run [OF p(3) env sane])
    have step: "alloc_loop env rnd k (Suc n) s =
      map_option (\<lambda>(as, s3). (map_option ((#) p) as, s3)) (alloc_loop env rnd (k + 1) n s2)"
      using p(1,2) s2(1) by (cases "alloc_loop env rnd (k + 1) n s2") auto
    from Suc.IH [OF s2(2), of "k + 1"] show ?thesis
    proof (elim disjE exE conjE)
      fix s'
      assume "alloc_loop env rnd (k + 1) n s2 = Some (None, s')" "refused env rnd s'"
      with step show ?thesis by auto
    next
      fix as ps s'
      assume as: "alloc_loop env rnd (k + 1) n s2 = Some (Some as, s')"
        "heap_run env s' (insert ?y L \<union> set ps)" "owns (insert ?y L) as ps" "same_homes s2 s' (insert ?y L)"
      have "same_homes s2 s' L" using as(4) by (rule same_homes_mono) blast
      then have "same_homes s s' L" using same s2(3) by (blast intro: same_homes_trans)
      moreover have "owns L (p # as) (?y # ps)" by (rule owns_Cons [OF as(3) p(4)])
      moreover have "heap_run env s' (L \<union> set (?y # ps))" using as(2) by simp
      moreover have "alloc_loop env rnd k (Suc n) s = Some (Some (p # as), s')" using step as(1) by simp
      ultimately show ?thesis by blast
    qed
  qed
qed

lemma round_loop_run:
  assumes env: "good_env env" and sizes: "sizes_fit env" and v: "v = vmsize env base s0"
    and start: "heap_run env s0 L"
  shows "\<lbrakk>heap_run env s L; same_homes s0 s L; vs = 0 \<or> vs = v\<rbrakk> \<Longrightarrow>
    \<exists>c m s'. round_loop env base rnd limit i n vs s = Some (c, map (\<lambda>j. Round j v) [i..<i + m], s')
      \<and> (c = 0 \<and> m = n \<and> heap_run env s' L \<and> same_homes s0 s' L
         \<or> c = 1 \<and> m < n \<and> refused env rnd s')"
proof (induction n arbitrary: i s vs)
  case 0
  then show ?case by (intro exI [of _ 0] exI [of _ s]) simp
next
  case (Suc n)
  from alloc_loop_run [OF env sizes Suc.prems(1), of rnd "i * NUM_ALLOCATIONS" NUM_ALLOCATIONS] show ?case
  proof (elim disjE exE conjE)
    fix s1 assume "alloc_loop env rnd (i * NUM_ALLOCATIONS) NUM_ALLOCATIONS s = Some (None, s1)" "refused env rnd s1"
    then show ?case by (intro exI [of _ 1] exI [of _ 0] exI [of _ s1]) auto
  next
    fix as ps s1
    assume as: "alloc_loop env rnd (i * NUM_ALLOCATIONS) NUM_ALLOCATIONS s = Some (Some as, s1)"
      "heap_run env s1 (L \<union> set ps)" "owns L as ps" "same_homes s s1 L"
    obtain s2 where s2: "free_loop env as s1 = Some s2" "heap_run env s2 L" "same_homes s1 s2 L"
      using free_loop_run [OF env as(2,3)] by blast
    have same: "same_homes s0 s2 L" using Suc.prems(2) as(4) s2(3) by (blast intro: same_homes_trans)
    have vm: "vmsize env base s2 = v"
      unfolding v by (rule sym, rule vmsize_same [OF heap_run_simulates [OF start env]
        heap_run_simulates [OF s2(2) env] same_maps [OF start s2(2) env same]])
    have round: "round_loop env base rnd limit i (Suc n) vs s =
      map_option (\<lambda>(c, out, s3). (c, Round i v # out, s3)) (round_loop env base rnd limit (i + 1) n v s2)"
      using as(1) s2(1) vm Suc.prems(3) by (cases "round_loop env base rnd limit (i + 1) n v s2") (auto simp: Let_def)
    from Suc.IH [OF s2(2) same, of v "i + 1"] obtain c m s' where
      IH: "round_loop env base rnd limit (i + 1) n v s2 = Some (c, map (\<lambda>j. Round j v) [i + 1..<i + 1 + m], s')"
      "c = 0 \<and> m = n \<and> heap_run env s' L \<and> same_homes s0 s' L
         \<or> c = 1 \<and> m < n \<and> refused env rnd s'" by blast
    have "Round i v # map (\<lambda>j. Round j v) [i + 1..<i + 1 + m] = map (\<lambda>j. Round j v) [i..<i + Suc m]"
      by (simp add: upt_conv_Cons)
    with round IH(1) have "round_loop env base rnd limit i (Suc n) vs s =
      Some (c, map (\<lambda>j. Round j v) [i..<i + Suc m], s')" by simp
    with IH(2) show ?case by (intro exI [of _ c] exI [of _ "Suc m"] exI [of _ s']) auto
  qed
qed

section \<open>The program finds no leak\<close>

text \<open>
  C24: The test program free.c never reports a leak. Whatever the random numbers are and whatever
  payloads the process owns when it starts, it prints the size it had at startup after every
  round; it ends with status 0 after the fifty rounds, with the same areas mapped as before, or
  with status 1 in the middle of a round, where the system refuses an area for one of the sizes.
\<close>

theorem free_test_finds_no_leak:
  assumes "heap_run env s L" "good_env env" "unat (page_sz env) \<le> 2 ^ 32"
  shows "\<exists>c m s'. free_main env base rnd s =
      Some (c, Startup (vmsize env base s) # map (\<lambda>i. Round i (vmsize env base s)) [0..<m], s')
    \<and> (c = 0 \<and> m = 50 \<and> set (maps s') = set (maps s)
       \<or> c = 1 \<and> m < 50 \<and> refused env rnd s')"
proof -
  have "unat (of_nat x * 4 :: u64) = x * 4" if "x < ALLOC_SZ" for x
    using that by (simp add: ALLOC_SZ_def unat_word_ariths unat_of_nat)
  then have sizes: "sizes_fit env" using assms(3) by (auto simp: sizes_fit_def sane_size_def ALLOC_SZ_def)
  from round_loop_run [OF assms(2) sizes refl assms(1,1) same_homes_refl, of 0 base rnd
      "of_nat ALLOC_SZ div page_sz env * 2" 0 NUM_ROUNDS]
  obtain c m s' where r: "round_loop env base rnd (of_nat ALLOC_SZ div page_sz env * 2) 0 NUM_ROUNDS 0 s =
      Some (c, map (\<lambda>i. Round i (vmsize env base s)) [0..<m], s')"
    "c = 0 \<and> m = NUM_ROUNDS \<and> heap_run env s' L \<and> same_homes s s' L
     \<or> c = 1 \<and> m < NUM_ROUNDS \<and> refused env rnd s'" unfolding add_0 by blast
  have "set (maps s') = set (maps s)" if "heap_run env s' L" "same_homes s s' L"
    using same_maps [OF assms(1) that(1) assms(2) that(2)] by simp
  with r show ?thesis by (intro exI [of _ c] exI [of _ m] exI [of _ s']) (auto simp: free_main_def NUM_ROUNDS_def)
qed

theorem free_test_finds_no_leak_witness:
  "\<exists>c m s'. free_main demo_env 7 (\<lambda>k. k) demo_heap =
      Some (c, Startup 8 # map (\<lambda>i. Round i 8) [0..<m], s')"
proof -
  have "vmsize demo_env 7 demo_heap = 8" by (simp add: vmsize_def demo_heap_def demo_env_def)
  moreover have "unat (page_sz demo_env) \<le> 2 ^ 32" by (simp add: demo_env_def)
  ultimately show ?thesis
    using free_test_finds_no_leak [OF demo_run good_demo_env, of 7 "\<lambda>k. k"] by force
qed

end
