(* ===== verification/Alloc_Threads.thy ===== *)
theory Alloc_Threads
  imports Alloc_Spec
begin

text \<open>
  The allocator with several threads. \<open>g_alloc_mutex\<close> is declared in allocator.c and never
  locked, so the parts of calls of \<open>malloc\<close> and \<open>free\<close> can interleave. The threads of the test program
  Project3/tests/progs/thread-safety.c are modelled as steps on the shared heap.
\<close>

section \<open>Integers in memory\<close>

text \<open>Little-endian integers of \<open>n\<close> bytes; a store is made of writes of single bytes.\<close>

fun store_le :: "u64 \<Rightarrow> nat \<Rightarrow> nat \<Rightarrow> alloc_state \<Rightarrow> alloc_state option" where
  "store_le p 0 v s = Some s"
| "store_le p (Suc n) v s = do { s1 \<leftarrow> memset p (of_nat v) 1 s; store_le (p + 1) n (v div 256) s1 }"

fun load_le :: "(u64 \<Rightarrow> u8) \<Rightarrow> u64 \<Rightarrow> nat \<Rightarrow> nat" where
  "load_le f p 0 = 0"
| "load_le f p (Suc n) = unat (f p) + 256 * load_le f (p + 1) n"

definition load_int :: "u64 \<Rightarrow> nat \<Rightarrow> alloc_state \<Rightarrow> nat option" where
  "load_int p n s = (if mapped s p n then Some (load_le (bytes s) p n) else None)"

lemma unat_plus: "unat p + n < 2 ^ 64 \<Longrightarrow> unat (p + of_nat n :: u64) = unat p + n"
  by (simp add: unat_word_ariths unat_of_nat)

lemma unat_Suc: "unat p + 1 < 2 ^ 64 \<Longrightarrow> unat (p + 1 :: u64) = unat p + 1"
  using unat_plus [of p 1] by simp

lemma load_le_cong:
  "\<lbrakk>unat p + n \<le> 2 ^ 64; \<And>x. in_range p n x \<Longrightarrow> f x = g x\<rbrakk> \<Longrightarrow> load_le f p n = load_le g p n"
proof (induction n arbitrary: p)
  case (Suc n)
  have "f p = g p" by (rule Suc.prems(2)) (simp add: in_range_def)
  moreover have "load_le f (p + 1) n = load_le g (p + 1) n"
  proof (cases "n = 0")
    case False
    then have u: "unat (p + 1) = unat p + 1" using Suc.prems(1) by (intro unat_Suc) simp
    show ?thesis
      by (rule Suc.IH) (use Suc.prems u in \<open>auto simp: in_range_def\<close>)
  qed simp
  ultimately show ?case by simp
qed simp

lemma mapped_sub:
  assumes "mapped s p n" "unat p \<le> unat q" "unat q + m \<le> unat p + n"
  shows "mapped s q m"
proof -
  from assms(1) obtain x where x: "x \<in> set (maps s)" "unat (fst x) \<le> unat p" "unat p + n \<le> unat (fst x) + unat (snd x)"
    by (auto simp: mapped_def list_ex_iff)
  then have "unat (fst x) \<le> unat q \<and> unat q + m \<le> unat (fst x) + unat (snd x)" using assms(2,3) by linarith
  with x(1) show ?thesis by (auto simp: mapped_def list_ex_iff split_beta)
qed

lemma live_mapped:
  assumes "alloc_inv s rs" "(unat q, m) \<in> live rs"
  shows "mapped s q m" "unat q + m < 2 ^ 64"
proof -
  obtain a b where ab: "(a, b) \<in> set (concat rs)" "usage b \<noteq> 0" "unat q = unat a + 48"
    "m = unat (usage b) - 48" using assms(2) by (rule liveE)
  note B = inv_block [OF assms(1) ab(1)]
  show m: "mapped s q m" using B(3) ab by (intro B(5)) (auto simp: blk_ok_def word_le_nat_alt)
  show "unat q + m < 2 ^ 64" using mapped_bound [OF assms(1) m] .
qed

lemma mapped_maps: "maps s' = maps s \<Longrightarrow> mapped s' = mapped s"
  by (simp add: mapped_def fun_eq_iff)

text \<open>What is stored is read back, and nothing else changes.\<close>

lemma store_le_ok:
  "\<lbrakk>mapped s p n; unat p + n < 2 ^ 64\<rbrakk> \<Longrightarrow> \<exists>s'. store_le p n v s = Some s' \<and> maps s' = maps s
     \<and> (\<forall>x. \<not> in_range p n x \<longrightarrow> bytes s' x = bytes s x) \<and> load_le (bytes s') p n = v mod 256 ^ n"
proof (induction n arbitrary: p v s)
  case (Suc n)
  have u: "unat (p + 1) = unat p + 1" using Suc.prems(2) by (intro unat_Suc) simp
  have "mapped s p 1" using Suc.prems(1) by (rule mapped_sub) auto
  then obtain s1 where s1: "memset p (of_nat v) 1 s = Some s1" "maps s1 = maps s"
    "bytes s1 = (\<lambda>x. if in_range p 1 x then of_nat v else bytes s x)" by (auto simp: memset_def)
  have "mapped s1 (p + 1) n"
    unfolding mapped_maps [OF s1(2)] using Suc.prems(1) by (rule mapped_sub) (use u in auto)
  from Suc.IH [OF this, of "v div 256"] u Suc.prems(2) obtain s' where
    s': "store_le (p + 1) n (v div 256) s1 = Some s'" "maps s' = maps s1"
      "\<forall>x. \<not> in_range (p + 1) n x \<longrightarrow> bytes s' x = bytes s1 x"
      "load_le (bytes s') (p + 1) n = v div 256 mod 256 ^ n" by auto
  have "bytes s' p = of_nat v" using s'(3) s1(3) u by (simp add: in_range_def)
  then have "load_le (bytes s') p (Suc n) = v mod 256 ^ Suc n"
    using s'(4) by (simp add: unat_of_nat mod_mult2_eq)
  moreover have "bytes s' x = bytes s x" if "\<not> in_range p (Suc n) x" for x
    using that s'(3) s1(3) u by (auto simp: in_range_def)
  ultimately show ?case using s1 s' by auto
qed simp

lemma store_le_run:
  "\<lbrakk>store_le p n v s = Some s'; heap_run env s L; (q, m) \<in> L; q \<le> unat p; unat p + n \<le> q + m;
    unat p + n < 2 ^ 64\<rbrakk> \<Longrightarrow> heap_run env s' L"
proof (induction n arbitrary: p v s)
  case (Suc n)
  from Suc.prems(1) obtain s1 where s1: "memset p (of_nat v) 1 s = Some s1"
    "store_le (p + 1) n (v div 256) s1 = Some s'" by (auto split: bind_splits)
  have "heap_run env s1 L" by (rule run_write [OF Suc.prems(2-4) _ s1(1)]) (use Suc.prems(5) in simp)
  moreover have "unat (p + 1) = unat p + 1" using Suc.prems(6) by (intro unat_Suc) simp
  ultimately show ?case using Suc.IH [OF s1(2)] Suc.prems by simp
qed simp

section \<open>The threads\<close>

text \<open>
  \<open>malloc\<close> in two steps: the search for a block and what is done with its result.
\<close>

definition malloc_rest :: "alloc_env \<Rightarrow> u64 \<Rightarrow> u64 \<Rightarrow> alloc_state \<Rightarrow> (u64 \<times> alloc_state) option" where
  "malloc_rest env reusable_block sz s =
     (if reusable_block \<noteq> 0 then do {
        b \<leftarrow> hdrs s reusable_block;
        if usage b = 0 then take_block env reusable_block sz s
        else split_block env reusable_block sz s
      }
      else new_region env sz s)"

lemma malloc_in_steps:
  "malloc env req s = do { r \<leftarrow> reuse env (align8 req) s; malloc_rest env r (align8 req) s }"
  by (simp add: malloc_def malloc_rest_def Let_def)

text \<open>
  \<open>free\<close> in its steps: the block is marked, the scan looks at one block of the region after the
  other, then a free region is taken out of the chain, and then it is unmapped. Every step reads
  the header \<open>blk\<close> anew, as the code does.
\<close>

definition free_mark :: "u64 \<Rightarrow> alloc_state \<Rightarrow> (u64 \<times> alloc_state) option" where
  "free_mark ptr s = do {
     b \<leftarrow> hdrs s (ptr - HDR);
     s1 \<leftarrow> store_hdr (ptr - HDR) (b\<lparr>usage := 0\<rparr>) s;
     Some (region_start b, s1)
   }"

datatype scan_result = Next u64 | All_Free u64 | In_Use

definition free_look :: "u64 \<Rightarrow> u64 \<Rightarrow> alloc_state \<Rightarrow> scan_result option" where
  "free_look ptr current s =
     (if current = 0 then Some (All_Free current)
      else do {
        b \<leftarrow> hdrs s current;
        blk \<leftarrow> hdrs s (ptr - HDR);
        Some (if region_start b \<noteq> region_start blk then All_Free current
              else if usage b \<noteq> 0 then In_Use
              else Next (nxt b))
      })"

definition free_unlink :: "u64 \<Rightarrow> u64 \<Rightarrow> alloc_state \<Rightarrow> alloc_state option" where
  "free_unlink ptr current s = do {
     blk \<leftarrow> hdrs s (ptr - HDR);
     unlink_region (region_start blk) current s
   }"

definition free_unmap :: "alloc_env \<Rightarrow> u64 \<Rightarrow> alloc_state \<Rightarrow> alloc_state option" where
  "free_unmap env ptr s = do {
     blk \<leftarrow> hdrs s (ptr - HDR);
     Some (if munmap_ok env (region_start blk) (region_size blk)
           then unmap_area (region_start blk) (region_size blk) s else s)
   }"

datatype phase =
    Asking
  | Chosen u64
  | Filling u64 nat
  | Summing u64 nat u64
  | Checked u64 bool
  | Scanning u64 u64 bool
  | Unlinking u64 u64 bool
  | Unmapping u64 bool
  | Done bool

text \<open>
  A thread: its argument, the number \<open>r\<close> of its integers and how far it is. The loops
  \<open>mem[i] = (long) arg\<close> and \<open>total += mem[i]\<close> are at an index, the second with its total; from
  \<open>Checked\<close> on the flag says whether the thread has printed the message of a mismatch.
\<close>

record thread =
  arg :: u64
  ints :: nat
  phase :: phase

definition thread_step :: "alloc_env \<Rightarrow> thread \<Rightarrow> alloc_state \<Rightarrow> (thread \<times> alloc_state) option" where
  "thread_step env t s =
     (let sz = align8 (4 * of_nat (ints t)) in
      case phase t of
        Asking \<Rightarrow> do { r \<leftarrow> reuse env sz s; Some (t\<lparr>phase := Chosen r\<rparr>, s) }
      | Chosen r \<Rightarrow> do { (mem, s1) \<leftarrow> malloc_rest env r sz s; Some (t\<lparr>phase := Filling mem 0\<rparr>, s1) }
      | Filling mem i \<Rightarrow>
          (if i < ints t then do {
             s1 \<leftarrow> store_le (mem + 4 * of_nat i) 4 (unat (ucast (arg t) :: u32)) s;
             Some (t\<lparr>phase := Filling mem (i + 1)\<rparr>, s1)
           }
           else Some (t\<lparr>phase := Summing mem 0 0\<rparr>, s))
      | Summing mem i tot \<Rightarrow>
          (if i < ints t then do {
             v \<leftarrow> load_int (mem + 4 * of_nat i) 4 s;
             Some (t\<lparr>phase := Summing mem (i + 1) (tot + scast (of_nat v :: u32))\<rparr>, s)
           }
           else Some (t\<lparr>phase := Checked mem (tot \<noteq> arg t * of_nat (ints t))\<rparr>, s))
      | Checked mem bad \<Rightarrow>
          (if mem = 0 then Some (t\<lparr>phase := Done bad\<rparr>, s)
           else do { (current, s1) \<leftarrow> free_mark mem s; Some (t\<lparr>phase := Scanning mem current bad\<rparr>, s1) })
      | Scanning mem current bad \<Rightarrow> do {
          r \<leftarrow> free_look mem current s;
          Some (t\<lparr>phase := (case r of Next c \<Rightarrow> Scanning mem c bad
            | All_Free c \<Rightarrow> Unlinking mem c bad | In_Use \<Rightarrow> Done bad)\<rparr>, s)
        }
      | Unlinking mem current bad \<Rightarrow> do {
          s1 \<leftarrow> free_unlink mem current s; Some (t\<lparr>phase := Unmapping mem bad\<rparr>, s1)
        }
      | Unmapping mem bad \<Rightarrow> do { s1 \<leftarrow> free_unmap env mem s; Some (t\<lparr>phase := Done bad\<rparr>, s1) }
      | Done bad \<Rightarrow> Some (t, s))"

text \<open>
  A schedule names the thread that takes the next step. Each step is taken as atomic, so every
  interleaving of the model is one of the program.
\<close>

fun run_schedule :: "alloc_env \<Rightarrow> nat list \<Rightarrow> thread list \<times> alloc_state \<Rightarrow> (thread list \<times> alloc_state) option" where
  "run_schedule env [] (ts, s) = Some (ts, s)"
| "run_schedule env (j # js) (ts, s) = do {
     (t, s1) \<leftarrow> (if j < length ts then thread_step env (ts ! j) s else None);
     run_schedule env js (ts[j := t], s1)
   }"

lemma run_schedule_append:
  "run_schedule env (js @ ks) x = do { y \<leftarrow> run_schedule env js x; run_schedule env ks y }"
  by (induction env js x rule: run_schedule.induct) (auto split: bind_splits)

section \<open>The steps of a call that nobody interrupts\<close>

text \<open>The scan of \<open>free\<close> and what follows it, as one function of the heap.\<close>

definition free_rest :: "alloc_env \<Rightarrow> u64 \<Rightarrow> u64 \<Rightarrow> alloc_state \<Rightarrow> alloc_state option" where
  "free_rest env ptr start s = do {
     (all_free, current) \<leftarrow> scan_loop (hdrs s) start start;
     if all_free then do { s1 \<leftarrow> free_unlink ptr current s; free_unmap env ptr s1 } else Some s
   }"

lemma free_mark_hdr:
  "free_mark ptr s = Some (start, s1) \<Longrightarrow> \<exists>b. hdrs s (ptr - HDR) = Some b \<and> start = region_start b
     \<and> hdrs s1 (ptr - HDR) = Some (b\<lparr>usage := 0\<rparr>)
     \<and> store_hdr (ptr - HDR) (b\<lparr>usage := 0\<rparr>) s = Some s1"
  by (auto simp: free_mark_def store_hdr_def split: bind_splits if_splits)

lemma free_in_steps:
  assumes "ptr \<noteq> 0"
  shows "free env ptr s = do { (start, s1) \<leftarrow> free_mark ptr s; free_rest env ptr start s1 }"
proof (cases "hdrs s (ptr - HDR)")
  case (Some b)
  show ?thesis
  proof (cases "store_hdr (ptr - HDR) (b\<lparr>usage := 0\<rparr>) s")
    case (Some s1)
    then have "hdrs s1 (ptr - HDR) = Some (b\<lparr>usage := 0\<rparr>)" by (auto simp: store_hdr_def split: if_splits)
    then have link: "free_unlink ptr c s1 = unlink_region (region_start b) c s1" for c
      by (simp add: free_unlink_def)
    have "free_mark ptr s = Some (region_start b, s1)" using Some \<open>hdrs s (ptr - HDR) = Some b\<close> by (simp add: free_mark_def)
    then show ?thesis using assms Some \<open>hdrs s (ptr - HDR) = Some b\<close>
      by (cases "scan_loop (hdrs s1) (region_start b) (region_start b)")
        (auto simp: free_def free_rest_def free_unmap_def Let_def link if_distrib split: bind_splits)
  qed (use assms Some in \<open>simp add: free_def free_mark_def Let_def\<close>)
qed (use assms in \<open>simp add: free_def free_mark_def Let_def\<close>)

text \<open>The steps of the scan do what the loop does.\<close>

lemma scan_steps:
  "scan_loop h start c = Some r \<Longrightarrow> h = hdrs s \<Longrightarrow> j < length ts \<Longrightarrow> phase (ts ! j) = Scanning mem c bad \<Longrightarrow>
   h (mem - HDR) = Some b \<Longrightarrow> region_start b = start \<Longrightarrow>
   \<exists>k. run_schedule env (replicate k j) (ts, s) =
     Some (ts[j := (ts ! j)\<lparr>phase := (if fst r then Unlinking mem (snd r) bad else Done bad)\<rparr>], s)"
proof (induction h start c r arbitrary: ts rule: scan_loop.raw_induct [rotated, consumes 1, case_names step])
  case (step loop h st c r)
  let ?t = "ts ! j"
  show ?case
  proof (cases "\<exists>c'. free_look mem c s = Some (Next c')")
    case True
    then obtain c' where c': "free_look mem c s = Some (Next c')" ..
    then have "loop h st c' = Some r" using step.hyps step.prems(1,4,5) by (auto simp: free_look_def split: bind_splits if_splits)
    from step.IH [OF this step.prems(1), of "ts[j := ?t\<lparr>phase := Scanning mem c' bad\<rparr>]"] step.prems(2,4,5) obtain k where
      "run_schedule env (replicate k j) (ts[j := ?t\<lparr>phase := Scanning mem c' bad\<rparr>], s) =
        Some (ts[j := ?t\<lparr>phase := (if fst r then Unlinking mem (snd r) bad else Done bad)\<rparr>], s)" by auto
    then show ?thesis using c' step.prems(2,3) by (intro exI [of _ "Suc k"]) (simp add: thread_step_def Let_def)
  next
    case False
    then have "free_look mem c s = Some (if fst r then All_Free (snd r) else In_Use)"
      using step.hyps step.prems(1,4,5) by (auto simp: free_look_def split: bind_splits if_splits)
    then show ?thesis using step.prems(2,3) by (intro exI [of _ 1]) (simp add: thread_step_def Let_def)
  qed
qed

section \<open>The loops on an array\<close>

text \<open>What the two loops compute when nobody interrupts them, from the address of the next integer.\<close>

fun fill :: "u64 \<Rightarrow> u64 \<Rightarrow> nat \<Rightarrow> alloc_state \<Rightarrow> alloc_state option" where
  "fill p a 0 s = Some s"
| "fill p a (Suc n) s = do { s1 \<leftarrow> store_le p 4 (unat (ucast a :: u32)) s; fill (p + 4) a n s1 }"

fun total_of :: "u64 \<Rightarrow> nat \<Rightarrow> u64 \<Rightarrow> alloc_state \<Rightarrow> u64 option" where
  "total_of p 0 tot s = Some tot"
| "total_of p (Suc n) tot s = do {
     v \<leftarrow> load_int p 4 s;
     total_of (p + 4) n (tot + scast (of_nat v :: u32)) s
   }"

lemma fill_steps:
  "\<lbrakk>fill (mem + 4 * of_nat i) (arg (ts ! j)) n s = Some s'; i + n = ints (ts ! j); j < length ts;
    phase (ts ! j) = Filling mem i\<rbrakk> \<Longrightarrow>
   run_schedule env (replicate (n + 1) j) (ts, s) = Some (ts[j := (ts ! j)\<lparr>phase := Summing mem 0 0\<rparr>], s')"
proof (induction n arbitrary: i s ts)
  case 0
  then show ?case by (simp add: thread_step_def Let_def)
next
  case (Suc n)
  from Suc.prems(1) obtain s1 where s1: "store_le (mem + 4 * of_nat i) 4 (unat (ucast (arg (ts ! j)) :: u32)) s = Some s1"
    "fill (mem + 4 * of_nat i + 4) (arg (ts ! j)) n s1 = Some s'" by (auto split: bind_splits)
  let ?ts = "ts[j := (ts ! j)\<lparr>phase := Filling mem (i + 1)\<rparr>]"
  have "fill (mem + 4 * of_nat (i + 1)) (arg (?ts ! j)) n s1 = Some s'"
    using s1(2) Suc.prems(3) by (simp add: algebra_simps)
  from Suc.IH [OF this] Suc.prems(2-4)
  have "run_schedule env (replicate (n + 1) j) (ts[j := (ts ! j)\<lparr>phase := Filling mem (i + 1)\<rparr>], s1)
      = Some (ts[j := (ts ! j)\<lparr>phase := Summing mem 0 0\<rparr>], s')" by simp
  moreover have "thread_step env (ts ! j) s = Some ((ts ! j)\<lparr>phase := Filling mem (i + 1)\<rparr>, s1)"
    using s1(1) Suc.prems(2,4) by (simp add: thread_step_def Let_def)
  ultimately show ?case using Suc.prems(3) by simp
qed

lemma sum_steps:
  "\<lbrakk>total_of (mem + 4 * of_nat i) n tot s = Some tot'; i + n = ints (ts ! j); j < length ts;
    phase (ts ! j) = Summing mem i tot\<rbrakk> \<Longrightarrow>
   run_schedule env (replicate (n + 1) j) (ts, s) =
     Some (ts[j := (ts ! j)\<lparr>phase := Checked mem (tot' \<noteq> arg (ts ! j) * of_nat (ints (ts ! j)))\<rparr>], s)"
proof (induction n arbitrary: i tot ts)
  case 0
  then show ?case by (simp add: thread_step_def Let_def)
next
  case (Suc n)
  from Suc.prems(1) obtain v where v: "load_int (mem + 4 * of_nat i) 4 s = Some v"
    "total_of (mem + 4 * of_nat i + 4) n (tot + scast (of_nat v :: u32)) s = Some tot'" by (auto split: bind_splits)
  let ?t = "(ts ! j)\<lparr>phase := Summing mem (i + 1) (tot + scast (of_nat v :: u32))\<rparr>"
  have "total_of (mem + 4 * of_nat (i + 1)) n (tot + scast (of_nat v :: u32)) s = Some tot'"
    using v(2) by (simp add: algebra_simps)
  from Suc.IH [OF this, of "ts[j := ?t]"] Suc.prems(2-4)
  have "run_schedule env (replicate (n + 1) j) (ts[j := ?t], s) =
      Some (ts[j := (ts ! j)\<lparr>phase := Checked mem (tot' \<noteq> arg (ts ! j) * of_nat (ints (ts ! j)))\<rparr>], s)" by simp
  moreover have "thread_step env (ts ! j) s = Some (?t, s)"
    using v(1) Suc.prems(2,4) by (simp add: thread_step_def Let_def)
  ultimately show ?case using Suc.prems(3) by simp
qed

text \<open>The call of \<open>free\<close>, step by step.\<close>

lemma free_steps:
  assumes "free env mem s = Some s'" "j < length ts" "phase (ts ! j) = Checked mem bad"
  shows "\<exists>k. run_schedule env (replicate k j) (ts, s) = Some (ts[j := (ts ! j)\<lparr>phase := Done bad\<rparr>], s')"
proof (cases "mem = 0")
  case True
  with assms show ?thesis
    by (intro exI [of _ 1]) (simp add: free_def thread_step_def Let_def)
next
  case False
  let ?t = "\<lambda>p. (ts ! j)\<lparr>phase := p\<rparr>"
  from assms(1) obtain st s1 where m: "free_mark mem s = Some (st, s1)" "free_rest env mem st s1 = Some s'"
    unfolding free_in_steps [OF False] by (auto split: bind_splits)
  from free_mark_hdr [OF m(1)] obtain b where b: "hdrs s1 (mem - HDR) = Some b" "region_start b = st" by auto
  from m(2) obtain r where r: "scan_loop (hdrs s1) st st = Some r" by (auto simp: free_rest_def split: bind_splits)
  have "j < length (ts[j := ?t (Scanning mem st bad)])" "phase (ts[j := ?t (Scanning mem st bad)] ! j) = Scanning mem st bad"
    using assms(2) by simp_all
  from scan_steps [OF r refl this b] assms(2) obtain k where
    "run_schedule env (replicate k j) (ts[j := ?t (Scanning mem st bad)], s1) =
      Some (ts[j := ?t (if fst r then Unlinking mem (snd r) bad else Done bad)], s1)" by auto
  then have scan: "run_schedule env (replicate (Suc k) j) (ts, s) =
      Some (ts[j := ?t (if fst r then Unlinking mem (snd r) bad else Done bad)], s1)"
    using m(1) False assms(2,3) by (simp add: thread_step_def Let_def)
  show ?thesis
  proof (cases "fst r")
    case True
    with r m(2) obtain s2 where s2: "free_unlink mem (snd r) s1 = Some s2" "free_unmap env mem s2 = Some s'"
      by (cases r) (auto simp: free_rest_def split: bind_splits)
    have "run_schedule env (replicate (Suc k) j @ [j, j]) (ts, s) = Some (ts[j := ?t (Done bad)], s')"
      unfolding run_schedule_append scan using True s2 assms(2) by (simp add: thread_step_def Let_def)
    moreover have "replicate (Suc k) j @ [j, j] = replicate (Suc k + 2) j"
      unfolding replicate_add by (simp add: numeral_2_eq_2)
    ultimately show ?thesis by metis
  next
    case False
    then have "s' = s1" using r m(2) by (cases r) (auto simp: free_rest_def)
    with scan False show ?thesis by (intro exI [of _ "Suc k"]) simp
  qed
qed

lemma fill_ok:
  "\<lbrakk>mapped s p (4 * n); unat p + 4 * n < 2 ^ 64\<rbrakk> \<Longrightarrow> \<exists>s'. fill p a n s = Some s' \<and> maps s' = maps s
     \<and> (\<forall>x. \<not> in_range p (4 * n) x \<longrightarrow> bytes s' x = bytes s x)
     \<and> (\<forall>i < n. load_le (bytes s') (p + of_nat (4 * i)) 4 = unat (ucast a :: u32))"
proof (induction n arbitrary: p s)
  case (Suc n)
  let ?v = "unat (ucast a :: u32)"
  have u: "unat (p + 4) = unat p + 4" using unat_plus [of p 4] Suc.prems(2) by simp
  have "mapped s p 4" using Suc.prems(1) by (rule mapped_sub) auto
  from store_le_ok [OF this, of ?v] Suc.prems(2) obtain s1 where s1: "store_le p 4 ?v s = Some s1"
    "maps s1 = maps s" "\<forall>x. \<not> in_range p 4 x \<longrightarrow> bytes s1 x = bytes s x" "load_le (bytes s1) p 4 = ?v mod 256 ^ 4"
    by auto
  have "mapped s1 (p + 4) (4 * n)"
    unfolding mapped_maps [OF s1(2)] using Suc.prems(1) by (rule mapped_sub) (use u in auto)
  from Suc.IH [OF this] u Suc.prems(2) obtain s' where s': "fill (p + 4) a n s1 = Some s'" "maps s' = maps s1"
    "\<forall>x. \<not> in_range (p + 4) (4 * n) x \<longrightarrow> bytes s' x = bytes s1 x"
    "\<forall>i < n. load_le (bytes s') (p + 4 + of_nat (4 * i)) 4 = ?v" by auto
  have v: "?v mod 256 ^ 4 = ?v" using unsigned_less [where w = "ucast a :: u32" and ?'a = nat] by simp
  have "load_le (bytes s') p 4 = load_le (bytes s1) p 4"
    by (rule load_le_cong) (use s'(3) u Suc.prems(2) in \<open>auto simp: in_range_def\<close>)
  then have first: "load_le (bytes s') p 4 = ?v" using s1(4) v by simp
  have "load_le (bytes s') (p + of_nat (4 * i)) 4 = ?v" if "i < Suc n" for i
    using that first s'(4) by (cases i) (auto simp: algebra_simps)
  moreover have "bytes s' x = bytes s x" if "\<not> in_range p (4 * Suc n) x" for x
  proof -
    have "\<not> in_range (p + 4) (4 * n) x" "\<not> in_range p 4 x" using that u by (auto simp: in_range_def)
    with s'(3) s1(3) show ?thesis by simp
  qed
  ultimately show ?case using s1 s' by (intro exI [of _ s']) simp
qed simp

lemma fill_run:
  "\<lbrakk>fill p a n s = Some s'; heap_run env s L; (q, m) \<in> L; q \<le> unat p; unat p + 4 * n \<le> q + m;
    unat p + 4 * n < 2 ^ 64\<rbrakk> \<Longrightarrow> heap_run env s' L"
proof (induction n arbitrary: p s)
  case (Suc n)
  from Suc.prems(1) obtain s1 where s1: "store_le p 4 (unat (ucast a :: u32)) s = Some s1"
    "fill (p + 4) a n s1 = Some s'" by (auto split: bind_splits)
  have "heap_run env s1 L" by (rule store_le_run [OF s1(1) Suc.prems(2-4)]) (use Suc.prems in auto)
  moreover have "unat (p + 4) = unat p + 4" using unat_plus [of p 4] Suc.prems(6) by simp
  ultimately show ?case using Suc.IH [OF s1(2)] Suc.prems by simp
qed simp

lemma total_of_ok:
  "\<lbrakk>mapped s p (4 * n); unat p + 4 * n < 2 ^ 64;
    \<forall>i < n. load_le (bytes s) (p + of_nat (4 * i)) 4 = unat (v :: u32)\<rbrakk> \<Longrightarrow>
   total_of p n t s = Some (t + of_nat n * scast v)"
proof (induction n arbitrary: p t)
  case (Suc n)
  have u: "unat (p + 4) = unat p + 4" using unat_plus [of p 4] Suc.prems(2) by simp
  have "mapped s p 4" using Suc.prems(1) by (rule mapped_sub) auto
  moreover have "load_le (bytes s) p 4 = unat v" using Suc.prems(3) by (auto dest: spec [of _ 0])
  moreover have "mapped s (p + 4) (4 * n)" using Suc.prems(1) by (rule mapped_sub) (use u in auto)
  moreover have "\<forall>i < n. load_le (bytes s) (p + 4 + of_nat (4 * i)) 4 = unat v"
    using Suc.prems(3) by (auto dest: spec [of _ "Suc _"] simp: algebra_simps)
  ultimately show ?case
    using Suc.IH [of "p + 4" "t + scast v"] Suc.prems(2) u by (simp add: load_int_def algebra_simps)
qed simp

lemma small_int:
  assumes "unat (a :: u64) < 2 ^ 31"
  shows "(scast (ucast a :: u32) :: u64) = a"
proof -
  have "int (unat a) < int (2 ^ 31)" using assms by (simp only: of_nat_less_iff)
  then have a: "uint a < 2 ^ 31" by simp
  then have "uint (ucast a :: u32) = uint a" by (simp add: unsigned_ucast_eq take_bit_int_eq_self)
  moreover have "- (2 ^ 31) \<le> uint a" by (rule order.trans [of _ 0]) simp_all
  ultimately have "sint (ucast a :: u32) = uint a"
    using signed_take_bit_int_eq_self [of 31 "uint a"] a by (simp add: sint_uint)
  then have "of_int (sint (ucast a :: u32)) = a" by simp
  then show ?thesis by simp
qed

section \<open>A thread alone\<close>

lemma thread_alone:
  assumes run: "heap_run env s L" and env: "good_env env" and page: "unat (page_sz env) \<le> 2 ^ 32"
    and t: "phase t = Asking" "ints t < 2050" "unat (arg t) < 2 ^ 31"
    and room: "malloc env (4 * of_nat (ints t)) s \<noteq> Some (0, s)"
  shows "\<exists>k s'. run_schedule env (replicate k 0) ([t], s) = Some ([t\<lparr>phase := Done False\<rparr>], s') \<and> heap_run env s' L"
proof -
  let ?len = "4 * of_nat (ints t) :: u64" and ?n = "ints t"
  have len: "unat ?len = 4 * ?n" using t(2) by (simp add: unat_word_ariths unat_of_nat)
  with t(2) page have sane: "sane_size env ?len" by (simp add: sane_size_def)
  have le: "unat ?len \<le> unat (align8 ?len)" using align8_bounds(2) [of ?len] sane by (simp add: sane_size_def)
  obtain p s1 where p: "malloc env ?len s = Some (p, s1)" "heap_run env s1 (insert (unat p, unat (align8 ?len)) L)"
    "unat p \<notin> fst ` L" "mapped s1 p (unat (align8 ?len))"
    by (rule malloc_run [OF run env sane]) (use room in blast)+
  let ?L = "insert (unat p, unat (align8 ?len)) L"
  from heap_run_simulates [OF p(2) env] obtain rs1 where "alloc_inv s1 rs1" by (auto simp: simulates_def)
  from mapped_bound [OF this p(4)] have b: "unat p + unat (align8 ?len) < 2 ^ 64" .
  have mp: "mapped s1 p (4 * ?n)" using p(4) by (rule mapped_sub) (use le len in auto)
  have pb: "unat p + 4 * ?n < 2 ^ 64" using b le len by simp
  from fill_ok [OF mp pb, of "arg t"] obtain s2 where s2: "fill p (arg t) ?n s1 = Some s2" "maps s2 = maps s1"
    "\<forall>i < ?n. load_le (bytes s2) (p + of_nat (4 * i)) 4 = unat (ucast (arg t) :: u32)" by blast
  have run2: "heap_run env s2 ?L" by (rule fill_run [OF s2(1) p(2), of "unat p"]) (use le len pb in auto)
  have "mapped s2 p (4 * ?n)" using mp by (simp add: mapped_maps [OF s2(2)])
  from total_of_ok [OF this pb s2(3), of 0] have tot: "total_of p ?n 0 s2 = Some (arg t * of_nat ?n)"
    using small_int [OF t(3)] by (simp add: mult.commute)
  obtain s3 where s3: "free env p s2 = Some s3"
    using free_simulates [OF heap_run_simulates [OF run2 env] env, of p "unat (align8 ?len)"] by auto
  have "heap_run env s3 (?L - {(unat p, unat (align8 ?len))})" by (rule run_free [OF run2 _ s3]) simp
  moreover have "?L - {(unat p, unat (align8 ?len))} = L" using p(3) by force
  ultimately have run3: "heap_run env s3 L" by simp
  obtain r where "reuse env (align8 ?len) s = Some r" "malloc_rest env r (align8 ?len) s = Some (p, s1)"
    using p(1) unfolding malloc_in_steps by (auto split: bind_splits)
  then have 1: "run_schedule env (replicate 2 0) ([t], s) = Some ([t\<lparr>phase := Filling p 0\<rparr>], s1)"
    using t(1) by (simp add: thread_step_def Let_def numeral_2_eq_2)
  have 2: "run_schedule env (replicate (?n + 1) 0) ([t\<lparr>phase := Filling p 0\<rparr>], s1) = Some ([t\<lparr>phase := Summing p 0 0\<rparr>], s2)"
    using fill_steps [of p 0 "[t\<lparr>phase := Filling p 0\<rparr>]" 0 ?n] s2(1) by simp
  have 3: "run_schedule env (replicate (?n + 1) 0) ([t\<lparr>phase := Summing p 0 0\<rparr>], s2) = Some ([t\<lparr>phase := Checked p False\<rparr>], s2)"
    using sum_steps [of p 0 ?n 0 s2 _ "[t\<lparr>phase := Summing p 0 0\<rparr>]" 0] tot by simp
  obtain k where 4: "run_schedule env (replicate k 0) ([t\<lparr>phase := Checked p False\<rparr>], s2) = Some ([t\<lparr>phase := Done False\<rparr>], s3)"
    using free_steps [OF s3, of 0 "[t\<lparr>phase := Checked p False\<rparr>]" False] by auto
  have "run_schedule env (replicate (2 + ((?n + 1) + ((?n + 1) + k))) 0) ([t], s) = Some ([t\<lparr>phase := Done False\<rparr>], s3)"
    unfolding replicate_add [of 2] replicate_add [of "?n + 1" "?n + 1 + k"] replicate_add [of "?n + 1" k]
      run_schedule_append 1 2 3 4 bind.bind_lunit ..
  with run3 show ?thesis by blast
qed

section \<open>Two threads\<close>

text \<open>The split of a block, done twice with the result of the same search.\<close>

lemma split_again:
  assumes inv: "alloc_inv s rs" and ab: "(a, b) \<in> set (concat rs)" and used: "usage b \<noteq> 0"
    and room: "unat (usage b) + (unat sz + 48) \<le> unat (bsize b)" and al: "8 dvd unat sz"
  obtains s1 s2 where "malloc_rest env a sz s = Some (a + usage b + HDR, s1)"
    "malloc_rest env a sz s1 = Some (a + usage b + HDR, s2)"
    "mapped s2 (a + usage b + HDR) (unat sz)" "unat (a + usage b + HDR) + unat sz < 2 ^ 64"
    "a + usage b + HDR \<noteq> 0"
proof -
  obtain R1 r1 r2 R2 where rs: "rs = R1 @ (r1 @ (a, b) # r2) # R2" using ab by (rule region_of_block)
  note inv' = inv [unfolded rs] and B = inv_block [OF inv ab]
  let ?h = "a + usage b" and ?b = "b\<lparr>bsize := usage b, nxt := a + usage b\<rparr>"
  let ?nb = "\<lparr>alloc_id = g_allocations s, bsize = bsize b - usage b, usage = sz + HDR,
        region_start = region_start b, region_size = region_size b, nxt = nxt b\<rparr>"
  let ?rs = "R1 @ (r1 @ (a, ?b) # (?h, ?nb) # r2) # R2"
  obtain s1 where s1: "split_block env a sz s = Some (?h + HDR, s1)" "alloc_inv s1 ?rs"
    "unat ?h = unat a + unat (usage b)"
    by (rule split_block_ok [OF inv' used room al, of env]) blast
  have h1: "hdrs s1 a = Some ?b" and m1: "\<And>(p :: u64) n. unat a \<le> unat p \<Longrightarrow>
      unat p + n \<le> unat a + unat (usage b) \<Longrightarrow> mapped s1 p n"
    using inv_block(1,5) [OF s1(2), of a ?b] by simp_all
  have size: "unat (bsize ?nb) = unat (bsize b) - unat (usage b)" using B(3) by (simp add: blk_ok_def unat_sub_le)
  have m2: "\<And>(p :: u64) n. unat ?h \<le> unat p \<Longrightarrow>
      unat p + n \<le> unat ?h + (unat (bsize b) - unat (usage b)) \<Longrightarrow> mapped s1 p n"
    using inv_block(5) [OF s1(2), of ?h ?nb] size by simp
  have ub: "48 \<le> unat (usage b)" using B(3) used by (simp add: blk_ok_def)
  have hb: "unat ?h + 48 + unat sz < 2 ^ 64" using s1(3) room B(4) by simp
  then have hh: "unat (?h + HDR) = unat ?h + 48" by (intro addr_HDR) simp
  obtain s3 where s3: "store_hdr ?h \<lparr>alloc_id = g_allocations s1, bsize = 0, usage = sz + HDR,
      region_start = region_start b, region_size = region_size b, nxt = ?h\<rparr> s1 = Some s3"
    "maps s3 = maps s1" "\<And>a. clear_of ?h 48 a \<Longrightarrow> hdrs s3 a = hdrs s1 a"
    by (rule store_hdr_mapped [of s1 ?h]) (use m2 room in auto)
  have h3: "hdrs s3 a = Some ?b" using s3(3) [of a] h1 s1(3) ub by (simp add: clear_of_def)
  have "mapped s3 a 48" using m1 [of a 48] ub by (simp add: mapped_maps [OF s3(2)])
  then obtain s4 where s4: "store_hdr a (?b\<lparr>bsize := usage ?b, nxt := ?h\<rparr>) (s3\<lparr>g_allocations := g_allocations s3 + 1\<rparr>) = Some s4"
    "maps s4 = maps s3" by (auto simp: store_hdr_def mapped_def)
  have m4: "mapped s4 (?h + HDR) (unat sz)"
    using m2 [of "?h + HDR" "unat sz"] hh room by (simp add: mapped_maps [OF s4(2)] mapped_maps [OF s3(2)])
  then obtain s5 where s5: "scribbled env (?h + HDR) sz s4 = Some s5" "maps s5 = maps s4"
    by (cases "scribble env"; cases "sz = 0") (auto simp: scribbled_def memset_def)
  have "malloc_rest env a sz s1 = Some (?h + HDR, s5)"
    using B(2) h1 used s3(1) h3 s4(1) s5(1) by (simp add: malloc_rest_def split_block_def Let_def)
  moreover have "malloc_rest env a sz s = Some (?h + HDR, s1)"
    using B(1,2) used s1(1) by (simp add: malloc_rest_def)
  moreover have "mapped s5 (?h + HDR) (unat sz)" using m4 by (simp add: mapped_maps [OF s5(2)])
  moreover have "unat (?h + HDR) + unat sz < 2 ^ 64" using hb hh by simp
  moreover have "?h + HDR \<noteq> 0" using hh by (metis add_is_0 unat_0 zero_neq_numeral)
  ultimately show thesis using that by blast
qed

text \<open>When two threads fill the same array, the first one finds a wrong sum.\<close>

lemma overwritten:
  assumes m: "mapped s p (4 * n)" "unat p + 4 * n < 2 ^ 64" and n: "0 < n" "n < 2050"
    and args: "unat (a :: u64) < 2 ^ 31" "unat (b :: u64) < 2 ^ 31" "a \<noteq> b"
  obtains s1 s2 tot where "fill p a n s = Some s1" "fill p b n s1 = Some s2"
    "total_of p n 0 s2 = Some tot" "tot \<noteq> a * of_nat n"
proof -
  from fill_ok [OF m, of a] obtain s1 where s1: "fill p a n s = Some s1" "maps s1 = maps s" by blast
  have m1: "mapped s1 p (4 * n)" using m(1) by (simp add: mapped_maps [OF s1(2)])
  from fill_ok [OF this m(2), of b] obtain s2 where s2: "fill p b n s1 = Some s2" "maps s2 = maps s1"
    "\<forall>i < n. load_le (bytes s2) (p + of_nat (4 * i)) 4 = unat (ucast b :: u32)" by blast
  have "mapped s2 p (4 * n)" using m1 by (simp add: mapped_maps [OF s2(2)])
  from total_of_ok [OF this m(2) s2(3), of 0] have tot: "total_of p n 0 s2 = Some (of_nat n * b)"
    using small_int [OF args(2)] by simp
  have prod: "unat (of_nat n * x) = n * unat x" if "unat (x :: u64) < 2 ^ 31" for x
  proof -
    have "n * unat x \<le> 2050 * 2 ^ 31" using n(2) that by (intro mult_le_mono) auto
    then show ?thesis using n(2) by (simp add: unat_word_ariths unat_of_nat)
  qed
  have "of_nat n * b \<noteq> a * of_nat n"
  proof
    assume "of_nat n * b = a * of_nat n"
    also have "\<dots> = of_nat n * a" by (rule mult.commute)
    finally have "n * unat b = n * unat a"
      unfolding prod [OF args(1), symmetric] prod [OF args(2), symmetric] by (rule arg_cong)
    then have "unat b = unat a" using n(1) by simp
    then have "b = a" by (simp only: word_unat_eq_iff)
    with args(3) show False by simp
  qed
  with s1(1) s2(1) tot show thesis by (rule that)
qed

text \<open>The schedule: both search, both split, then the first fills, the second fills, the first sums up.\<close>

definition racing :: "nat \<Rightarrow> nat list" where
  "racing n = [0, 1, 0, 1] @ replicate (n + 1) 0 @ replicate (n + 1) 1 @ replicate (n + 1) 0"

lemma race:
  assumes run: "heap_run env s L" and env: "good_env env" and page: "unat (page_sz env) \<le> 2 ^ 32"
    and t: "phase t = Asking" "phase u = Asking" "ints u = ints t" "0 < ints t" "ints t < 2050"
    and args: "unat (arg t) < 2 ^ 31" "unat (arg u) < 2 ^ 31" "arg t \<noteq> arg u"
    and found: "reuse env (align8 (4 * of_nat (ints t))) s = Some r" "r \<noteq> 0" "hdrs s r = Some b" "usage b \<noteq> 0"
  shows "malloc env (4 * of_nat (ints t)) s \<noteq> Some (0, s) \<and> (\<exists>mem s'.
    run_schedule env (racing (ints t)) ([t, u], s) =
      Some ([t\<lparr>phase := Checked mem True\<rparr>, u\<lparr>phase := Summing mem 0 0\<rparr>], s'))"
proof -
  let ?n = "ints t"
  let ?len = "4 * of_nat ?n :: u64"
  have len: "unat ?len = 4 * ?n" using t(5) by (simp add: unat_word_ariths unat_of_nat)
  with t(5) page have sane: "sane_size env ?len" by (simp add: sane_size_def)
  then have small: "unat ?len + 7 < 2 ^ 64" by (simp add: sane_size_def)
  note al = align8_bounds [of ?len, OF small]
  from heap_run_simulates [OF run env] obtain rs where rs: "alloc_inv s rs" by (auto simp: simulates_def)
  have seg: "seg (hdrs s) (g_head s) (concat rs) 0" using rs by (simp add: alloc_inv_def)
  have ok: "usage b \<le> bsize b" if "(a, b) \<in> set (concat rs)" for a b
    using inv_block(3) [OF rs that] by (simp add: blk_ok_def)
  have s48: "unat (align8 ?len) + 48 < 2 ^ 64" using al(3) len t(5) by simp
  have "\<exists>r'. reuse env (align8 ?len) s = Some r' \<and> (r' = 0 \<or> (\<exists>b. (r', b) \<in> set (concat rs)
      \<and> unat (usage b) + (unat (align8 ?len) + 48) \<le> unat (bsize b)))"
    by (rule reuse_room [OF seg _ s48]) (rule ok)
  with found(1,2) obtain b' where b': "(r, b') \<in> set (concat rs)"
    "unat (usage b') + (unat (align8 ?len) + 48) \<le> unat (bsize b')" by auto
  have "b' = b" using inv_block(1) [OF rs b'(1)] found(3) by simp
  let ?mem = "r + usage b + HDR"
  obtain s1 s2 where s: "malloc_rest env r (align8 ?len) s = Some (?mem, s1)"
    "malloc_rest env r (align8 ?len) s1 = Some (?mem, s2)"
    "mapped s2 ?mem (unat (align8 ?len))" "unat ?mem + unat (align8 ?len) < 2 ^ 64" "?mem \<noteq> 0"
    using split_again [OF rs _ found(4) _ al(1), of r env thesis] b' \<open>b' = b\<close> by auto
  have mp: "mapped s2 ?mem (4 * ?n)" using s(3) by (rule mapped_sub) (use al(2) len in auto)
  have pb: "unat ?mem + 4 * ?n < 2 ^ 64" using s(4) al(2) len by simp
  obtain s3 s4 tot where f: "fill ?mem (arg t) ?n s2 = Some s3" "fill ?mem (arg u) ?n s3 = Some s4"
    "total_of ?mem ?n 0 s4 = Some tot" "tot \<noteq> arg t * of_nat ?n"
    by (rule overwritten [OF mp pb t(4,5) args])
  have 1: "run_schedule env [0, 1, 0, 1] ([t, u], s) = Some ([t\<lparr>phase := Filling ?mem 0\<rparr>, u\<lparr>phase := Filling ?mem 0\<rparr>], s2)"
    using t(1,2,3) found(1) s(1,2) by (simp add: thread_step_def Let_def)
  have 2: "run_schedule env (replicate (?n + 1) 0) ([t\<lparr>phase := Filling ?mem 0\<rparr>, u\<lparr>phase := Filling ?mem 0\<rparr>], s2)
      = Some ([t\<lparr>phase := Summing ?mem 0 0\<rparr>, u\<lparr>phase := Filling ?mem 0\<rparr>], s3)"
    using fill_steps [of ?mem 0 "[t\<lparr>phase := Filling ?mem 0\<rparr>, u\<lparr>phase := Filling ?mem 0\<rparr>]" 0 ?n] f(1) by simp
  have 3: "run_schedule env (replicate (?n + 1) 1) ([t\<lparr>phase := Summing ?mem 0 0\<rparr>, u\<lparr>phase := Filling ?mem 0\<rparr>], s3)
      = Some ([t\<lparr>phase := Summing ?mem 0 0\<rparr>, u\<lparr>phase := Summing ?mem 0 0\<rparr>], s4)"
    using fill_steps [of ?mem 0 "[t\<lparr>phase := Summing ?mem 0 0\<rparr>, u\<lparr>phase := Filling ?mem 0\<rparr>]" 1 ?n] f(2) t(3) by simp
  have 4: "run_schedule env (replicate (?n + 1) 0) ([t\<lparr>phase := Summing ?mem 0 0\<rparr>, u\<lparr>phase := Summing ?mem 0 0\<rparr>], s4)
      = Some ([t\<lparr>phase := Checked ?mem True\<rparr>, u\<lparr>phase := Summing ?mem 0 0\<rparr>], s4)"
    using sum_steps [of ?mem 0 ?n 0 s4 _ "[t\<lparr>phase := Summing ?mem 0 0\<rparr>, u\<lparr>phase := Summing ?mem 0 0\<rparr>]" 0] f(3,4) by simp
  have "run_schedule env (racing ?n) ([t, u], s) =
      Some ([t\<lparr>phase := Checked ?mem True\<rparr>, u\<lparr>phase := Summing ?mem 0 0\<rparr>], s4)"
    unfolding racing_def run_schedule_append 1 2 3 4 bind.bind_lunit ..
  moreover have "malloc env ?len s \<noteq> Some (0, s)"
    using found(1) s(1,5) by (auto simp: malloc_in_steps)
  ultimately show ?thesis by blast
qed

section \<open>The missing lock\<close>

text \<open>
  C25: malloc is not safe for threads, because its mutex is never taken. In any heap of a program
  so far, let two threads of the test program thread-safety.c ask for the same number of integers
  when the search finds room behind a block in use. Each of the threads alone, from allocation to
  \<open>free\<close>, finds its own sum and leaves the live payloads as they were. But in the interleaving in
  which both search before either splits the block, both get the same payload: the second
  overwrites the integers of the first, which reports memory corruption.
\<close>

theorem threads_race:
  assumes "heap_run env s L" "good_env env" "unat (page_sz env) \<le> 2 ^ 32"
    and "phase t = Asking" "phase u = Asking" "ints u = ints t" "0 < ints t" "ints t < 2050"
    and "unat (arg t) < 2 ^ 31" "unat (arg u) < 2 ^ 31" "arg t \<noteq> arg u"
    and "reuse env (align8 (4 * of_nat (ints t))) s = Some r" "r \<noteq> 0" "hdrs s r = Some b" "usage b \<noteq> 0"
  shows "(\<exists>k s'. run_schedule env (replicate k 0) ([t], s) = Some ([t\<lparr>phase := Done False\<rparr>], s') \<and> heap_run env s' L)
    \<and> (\<exists>k s'. run_schedule env (replicate k 0) ([u], s) = Some ([u\<lparr>phase := Done False\<rparr>], s') \<and> heap_run env s' L)
    \<and> (\<exists>mem s'. run_schedule env (racing (ints t)) ([t, u], s) =
         Some ([t\<lparr>phase := Checked mem True\<rparr>, u\<lparr>phase := Summing mem 0 0\<rparr>], s'))"
proof -
  note R = race [OF assms]
  with thread_alone [OF assms(1-4,8,9)] thread_alone [OF assms(1-3,5) _ assms(10)] assms(6,8)
  show ?thesis by auto
qed

theorem threads_race_witness:
  "\<exists>mem s'. run_schedule demo_env (racing 10)
     ([\<lparr>arg = 0, ints = 10, phase = Asking\<rparr>, \<lparr>arg = 1, ints = 10, phase = Asking\<rparr>], demo_heap) =
       Some ([\<lparr>arg = 0, ints = 10, phase = Checked mem True\<rparr>, \<lparr>arg = 1, ints = 10, phase = Summing mem 0 0\<rparr>], s')"
proof -
  have "unat (page_sz demo_env) \<le> 2 ^ 32" by (simp add: demo_env_def)
  moreover have "reuse demo_env (align8 (4 * of_nat 10)) demo_heap = Some 0x10000"
    by (simp add: reuse_def demo_env_def demo_heap_def first_fit_def first_fit_loop.simps fresh_block_def align8_def HDR_def)
  moreover have "hdrs demo_heap 0x10000 = Some (fresh_block 0 0x10000 4096 104)" by (simp add: demo_heap_def)
  moreover have "usage (fresh_block 0 0x10000 4096 104) \<noteq> 0" by (simp add: fresh_block_def HDR_def)
  ultimately show ?thesis
    using threads_race [OF demo_run good_demo_env, of "\<lparr>arg = 0, ints = 10, phase = Asking\<rparr>"
        "\<lparr>arg = 1, ints = 10, phase = Asking\<rparr>"] by fastforce
qed

end
