(* ===== verification/Alloc_Whole.thy ===== *)
theory Alloc_Whole
  imports Alloc_Threads
begin

text \<open>
  The threads of the test program thread-safety.c when each call of \<open>malloc\<close> and \<open>free\<close> is one
  step: what a thread holds, and the invariant that every step keeps. Alloc_Locked carries it over
  to the steps inside the calls.
\<close>

section \<open>What a thread holds\<close>

definition block_size :: "thread \<Rightarrow> nat" where
  "block_size t = unat (align8 (4 * of_nat (ints t)))"

definition held :: "thread \<Rightarrow> nat list" where
  "held t = (case phase t of Filling m i \<Rightarrow> [unat m] | Summing m i tot \<Rightarrow> [unat m] | Checked m b \<Rightarrow> [unat m] | _ \<Rightarrow> [])"

definition addrs :: "thread \<Rightarrow> nat list" where
  "addrs t = filter (\<lambda>q. q \<noteq> 0) (held t)"

definition own :: "thread \<Rightarrow> (nat \<times> nat) set" where
  "own t = (\<lambda>q. (q, block_size t)) ` set (addrs t)"

text \<open>The first \<open>k\<close> integers are written.\<close>

definition written :: "alloc_state \<Rightarrow> u64 \<Rightarrow> thread \<Rightarrow> nat \<Rightarrow> bool" where
  "written s m t k \<longleftrightarrow> (\<forall>i < k. load_le (bytes s) (m + 4 * of_nat i) 4 = unat (ucast (arg t) :: u32))"

text \<open>What is known of a thread between its calls.\<close>

fun sound :: "alloc_state \<Rightarrow> thread \<Rightarrow> phase \<Rightarrow> bool" where
  "sound s t Asking \<longleftrightarrow> True"
| "sound s t (Filling m i) \<longleftrightarrow> i \<le> ints t \<and> (m = 0 \<longrightarrow> i = 0) \<and> written s m t i"
| "sound s t (Summing m i tot) \<longleftrightarrow> i \<le> ints t \<and> (m = 0 \<longrightarrow> ints t = 0) \<and> written s m t (ints t) \<and> tot = of_nat i * arg t"
| "sound s t (Checked m bad) \<longleftrightarrow> \<not> bad"
| "sound s t (Done bad) \<longleftrightarrow> \<not> bad"
| "sound s t p \<longleftrightarrow> False"

definition small :: "thread \<Rightarrow> bool" where
  "small t \<longleftrightarrow> ints t < 2050 \<and> unat (arg t) < 2 ^ 31"

text \<open>The bytes of the payloads in \<open>L\<close> are the same.\<close>

definition same_bytes :: "(nat \<times> nat) set \<Rightarrow> alloc_state \<Rightarrow> alloc_state \<Rightarrow> bool" where
  "same_bytes L s s' \<longleftrightarrow> (\<forall>(q, m) \<in> L. \<forall>x. q \<le> unat x \<longrightarrow> unat x < q + m \<longrightarrow> bytes s' x = bytes s x)"

lemma held_simps [simp]:
  "phase t = Asking \<Longrightarrow> addrs t = []" "phase t = Done b \<Longrightarrow> addrs t = []"
  "phase t = Filling m i \<Longrightarrow> addrs t = (if m = 0 then [] else [unat m])"
  "phase t = Summing m i tot \<Longrightarrow> addrs t = (if m = 0 then [] else [unat m])"
  "phase t = Checked m b \<Longrightarrow> addrs t = (if m = 0 then [] else [unat m])"
  "phase t = Checked m False \<Longrightarrow> addrs t = (if m = 0 then [] else [unat m])"
  "phase t = Done False \<Longrightarrow> addrs t = []"
  "addrs (t\<lparr>phase := Checked m b\<rparr>) = (if m = 0 then [] else [unat m])"
  "addrs (t\<lparr>phase := Done b\<rparr>) = []"
  by (simp_all add: addrs_def held_def unat_eq_zero_iff)

lemma block_size_phase [simp]: "block_size (t\<lparr>phase := p\<rparr>) = block_size t"
  by (simp add: block_size_def)

lemma sizes:
  assumes "small t" "unat (page_sz env) \<le> 2 ^ 32"
  shows "sane_size env (4 * of_nat (ints t))" "4 * ints t \<le> block_size t"
proof -
  let ?len = "4 * of_nat (ints t) :: u64"
  have len: "unat ?len = 4 * ints t" using assms(1) by (simp add: small_def unat_word_ariths unat_of_nat)
  with assms show sane: "sane_size env ?len" by (simp add: sane_size_def small_def)
  then show "4 * ints t \<le> block_size t"
    using align8_bounds(2) [of ?len] len by (simp add: sane_size_def block_size_def)
qed

text \<open>The addresses of the integers.\<close>

lemma int_addr: "unat m + 4 * i < 2 ^ 64 \<Longrightarrow> unat (m + 4 * of_nat i :: u64) = unat m + 4 * i"
  using unat_plus [of m "4 * i"] by simp

lemma written_keeps:
  assumes "written s m t k" "k \<le> ints t" "same_bytes L s s'" "(unat m, block_size t) \<in> L"
    "unat m + block_size t < 2 ^ 64" "4 * ints t \<le> block_size t"
  shows "written s' m t k"
  unfolding written_def
proof (intro allI impI)
  fix i assume i: "i < k"
  let ?p = "m + 4 * of_nat i"
  have p: "unat ?p = unat m + 4 * i" using assms(2,5,6) i by (intro int_addr) simp
  have "load_le (bytes s') ?p 4 = load_le (bytes s) ?p 4"
  proof (rule load_le_cong)
    show "bytes s' x = bytes s x" if "in_range ?p 4 x" for x
      using assms(2-4,6) that p i unfolding same_bytes_def in_range_def by fastforce
  qed (use p assms(2,5,6) i in simp)
  with assms(1) i show "load_le (bytes s') ?p 4 = unat (ucast (arg t) :: u32)" by (simp add: written_def)
qed

section \<open>A step of one thread, with its calls in one piece\<close>

definition whole_step :: "alloc_env \<Rightarrow> thread \<Rightarrow> alloc_state \<Rightarrow> (thread \<times> alloc_state) option" where
  "whole_step env t s = (case phase t of
       Asking \<Rightarrow> do { (mem, s1) \<leftarrow> malloc env (4 * of_nat (ints t)) s; Some (t\<lparr>phase := Filling mem 0\<rparr>, s1) }
     | Checked mem bad \<Rightarrow> do { s1 \<leftarrow> free env mem s; Some (t\<lparr>phase := Done bad\<rparr>, s1) }
     | _ \<Rightarrow> thread_step env t s)"

text \<open>
  The step of a thread that holds what is not in \<open>Lo\<close>: it is defined, and leaves alone the
  payloads of \<open>Lo\<close>, those of the other threads and of the rest of the program.
\<close>

definition steps_well :: "alloc_env \<Rightarrow> (nat \<times> nat) set \<Rightarrow> thread \<Rightarrow> alloc_state \<Rightarrow> bool" where
  "steps_well env Lo t s \<longleftrightarrow> (\<exists>p s'. whole_step env t s = Some (t\<lparr>phase := p\<rparr>, s')
     \<and> heap_run env s' (Lo \<union> own (t\<lparr>phase := p\<rparr>)) \<and> sound s' (t\<lparr>phase := p\<rparr>) p
     \<and> set (addrs (t\<lparr>phase := p\<rparr>)) \<inter> fst ` Lo = {} \<and> distinct (addrs (t\<lparr>phase := p\<rparr>)) \<and> same_bytes Lo s s')"

lemma same_bytes_refl: "same_bytes L s s"
  by (simp add: same_bytes_def split_beta)

lemma step_asking:
  assumes run: "heap_run env s Lo" and env: "good_env env" and page: "unat (page_sz env) \<le> 2 ^ 32"
    and t: "small t" "phase t = Asking"
  shows "steps_well env Lo t s"
proof -
  let ?len = "4 * of_nat (ints t) :: u64"
  have step: "whole_step env t s = Some (t\<lparr>phase := Filling p 0\<rparr>, s')" if "malloc env ?len s = Some (p, s')" for p s'
    using that t(2) by (simp add: whole_step_def)
  show ?thesis
  proof (rule malloc_run [OF run env sizes(1) [OF t(1) page]])
    assume "malloc env ?len s = Some (0, s)"
    then show ?thesis unfolding steps_well_def
      by (intro exI [of _ "Filling 0 0"] exI [of _ s]) (simp add: step run own_def same_bytes_refl written_def)
  next
    fix p :: u64 and s'
    assume p: "p \<noteq> 0" "malloc env ?len s = Some (p, s')" "heap_run env s' (insert (unat p, unat (align8 ?len)) Lo)"
      "unat p \<notin> fst ` Lo" "\<And>q m x. (q, m) \<in> Lo \<Longrightarrow> q \<le> unat x \<Longrightarrow> unat x < q + m \<Longrightarrow> bytes s' x = bytes s x"
    have "heap_run env s' (Lo \<union> own (t\<lparr>phase := Filling p 0\<rparr>))" using p(1,3) by (simp add: own_def block_size_def)
    moreover have "same_bytes Lo s s'" unfolding same_bytes_def using p(5) by blast
    ultimately show ?thesis unfolding steps_well_def
      using step [OF p(2)] p(1,4) by (intro exI [of _ "Filling p 0"] exI [of _ s']) (simp add: written_def)
  qed
qed

text \<open>A payload that a thread holds, in a heap of the program.\<close>

lemma payload_mapped:
  assumes "heap_run env s M" "good_env env" "(unat m, n) \<in> M"
  shows "mapped s m n" "unat m + n < 2 ^ 64"
proof -
  from heap_run_simulates [OF assms(1,2)] obtain rs where rs: "alloc_inv s rs" "live rs = M"
    by (auto simp: simulates_def)
  have "(unat m, n) \<in> live rs" using assms(3) rs(2) by simp
  from live_mapped [OF rs(1) this] show "mapped s m n" "unat m + n < 2 ^ 64" .
qed

lemma held_payload:
  assumes run: "heap_run env s (Lo \<union> own t)" and env: "good_env env" and page: "unat (page_sz env) \<le> 2 ^ 32"
    and t: "small t" "m \<noteq> 0" "addrs t = [unat m]" and apart: "set (addrs t) \<inter> fst ` Lo = {}"
  shows "(unat m, block_size t) \<in> Lo \<union> own t" "mapped s m (4 * ints t)" "unat m + block_size t < 2 ^ 64"
    "\<And>q n. (q, n) \<in> Lo \<Longrightarrow> q + n \<le> unat m \<or> unat m + block_size t \<le> q"
    "\<And>i. i < ints t \<Longrightarrow> mapped s (m + 4 * of_nat i) 4 \<and> unat (m + 4 * of_nat i) = unat m + 4 * i"
proof -
  show mem: "(unat m, block_size t) \<in> Lo \<union> own t" using t(3) by (simp add: own_def)
  note M = payload_mapped [OF run env mem]
  show map: "mapped s m (4 * ints t)" using M(1) by (rule mapped_sub) (use sizes(2) [OF t(1) page] in auto)
  show b: "unat m + block_size t < 2 ^ 64" by (rule M(2))
  show "q + n \<le> unat m \<or> unat m + block_size t \<le> q" if qn: "(q, n) \<in> Lo" for q n
  proof -
    have "(q, n) \<noteq> (unat m, block_size t)" using qn apart t(3) by force
    then show ?thesis
      using simulates_disjoint [OF heap_run_simulates [OF run env], of q n "unat m" "block_size t"] qn mem by auto
  qed
  show "mapped s (m + 4 * of_nat i) 4 \<and> unat (m + 4 * of_nat i) = unat m + 4 * i" if "i < ints t" for i
  proof -
    have a: "unat (m + 4 * of_nat i) = unat m + 4 * i"
      using that b sizes(2) [OF t(1) page] by (intro int_addr) simp
    have "mapped s (m + 4 * of_nat i) 4" using map by (rule mapped_sub) (use that a in auto)
    with a show ?thesis by blast
  qed
qed

lemma next_int:
  assumes run: "heap_run env s (Lo \<union> own t)" and env: "good_env env" and page: "unat (page_sz env) \<le> 2 ^ 32"
    and t: "small t" "phase t = Filling m i" "sound s t (Filling m i)" "m \<noteq> 0" "i < ints t"
    and apart: "set (addrs t) \<inter> fst ` Lo = {}"
  shows "steps_well env Lo t s"
proof -
  have a: "addrs t = [unat m]" using t(2,4) by simp
  note P = held_payload [OF run env page t(1,4) a apart]
  let ?p = "m + 4 * of_nat i" and ?v = "unat (ucast (arg t) :: u32)" and ?t = "t\<lparr>phase := Filling m (i + 1)\<rparr>"
  have le: "4 * ints t \<le> block_size t" by (rule sizes(2) [OF t(1) page])
  have p: "mapped s ?p 4" "unat ?p = unat m + 4 * i" using P(5) [OF t(5)] by blast+
  have b: "unat ?p + 4 < 2 ^ 64" "unat ?p + 4 \<le> unat m + block_size t" using P(3) p(2) le t(5) by simp_all
  from store_le_ok [OF p(1) b(1), of ?v] obtain s' where s': "store_le ?p 4 ?v s = Some s'"
    "\<forall>x. \<not> in_range ?p 4 x \<longrightarrow> bytes s' x = bytes s x" "load_le (bytes s') ?p 4 = ?v mod 256 ^ 4" by blast
  have v: "?v mod 256 ^ 4 = ?v" using unsigned_less [where w = "ucast (arg t) :: u32" and ?'a = nat] by simp
  have "load_le (bytes s') (m + 4 * of_nat k) 4 = ?v" if "k < i + 1" for k
  proof (cases "k = i")
    case False
    with that have k: "k < i" by simp
    have ak: "unat (m + 4 * of_nat k) = unat m + 4 * k" using P(5) [of k] k t(5) by simp
    have "load_le (bytes s') (m + 4 * of_nat k) 4 = load_le (bytes s) (m + 4 * of_nat k) 4"
      by (rule load_le_cong) (use s'(2) ak p(2) k b(1) in \<open>auto simp: in_range_def\<close>)
    with k t(3) show ?thesis by (simp add: written_def)
  qed (use s'(3) v in simp)
  then have w: "written s' m ?t (i + 1)" by (simp add: written_def)
  have "heap_run env s' (Lo \<union> own t)" by (rule store_le_run [OF s'(1) run P(1) _ b(2,1)]) (simp add: p(2))
  moreover have "own ?t = own t" using a t(4) by (simp add: own_def)
  moreover have "same_bytes Lo s s'"
    unfolding same_bytes_def using P(4) s'(2) p(2) b(2) by (fastforce simp: in_range_def)
  moreover have "whole_step env t s = Some (?t, s')"
    using t(2,5) s'(1) by (simp add: whole_step_def thread_step_def Let_def)
  ultimately show ?thesis unfolding steps_well_def
    using w t(4,5) apart a by (intro exI [of _ "Filling m (i + 1)"] exI [of _ s']) simp
qed

text \<open>The steps that read at most, and go on to a phase that holds the same.\<close>

lemma step_quiet:
  assumes "whole_step env t s = Some (t\<lparr>phase := p\<rparr>, s)" "heap_run env s (Lo \<union> own t)" "sound s (t\<lparr>phase := p\<rparr>) p"
    "addrs (t\<lparr>phase := p\<rparr>) = addrs t" "distinct (addrs t)" "set (addrs t) \<inter> fst ` Lo = {}"
  shows "steps_well env Lo t s"
  using assms unfolding steps_well_def
  by (intro exI [of _ p] exI [of _ s]) (simp add: own_def same_bytes_refl)

lemma step_filling:
  assumes run: "heap_run env s (Lo \<union> own t)" and env: "good_env env" and page: "unat (page_sz env) \<le> 2 ^ 32"
    and t: "small t" "phase t = Filling m i" "sound s t (Filling m i)" "m = 0 \<longrightarrow> \<not> i < ints t"
    and apart: "set (addrs t) \<inter> fst ` Lo = {}"
  shows "steps_well env Lo t s"
proof (cases "i < ints t")
  case True
  with t(4) show ?thesis by (intro next_int [OF run env page t(1-3) _ True apart]) blast
next
  case False
  with t(3) have "i = ints t" by simp
  with t(2,3) show ?thesis
    by (intro step_quiet [OF _ run _ _ _ apart, where p = "Summing m 0 0"])
      (auto simp: whole_step_def thread_step_def Let_def written_def)
qed

lemma step_summing:
  assumes run: "heap_run env s (Lo \<union> own t)" and env: "good_env env" and page: "unat (page_sz env) \<le> 2 ^ 32"
    and t: "small t" "phase t = Summing m i tot" "sound s t (Summing m i tot)"
    and apart: "set (addrs t) \<inter> fst ` Lo = {}"
  shows "steps_well env Lo t s"
proof (cases "i < ints t")
  case True
  with t(3) have m: "m \<noteq> 0" by auto
  with t(2) have a: "addrs t = [unat m]" by simp
  have "load_int (m + 4 * of_nat i) 4 s = Some (unat (ucast (arg t) :: u32))"
    using held_payload(5) [OF run env page t(1) m a apart True] t(3) True by (simp add: load_int_def written_def)
  moreover have "scast (ucast (arg t) :: u32) = arg t" using t(1) by (intro small_int) (simp add: small_def)
  ultimately have "whole_step env t s = Some (t\<lparr>phase := Summing m (i + 1) (tot + arg t)\<rparr>, s)"
    using t(2) True by (simp add: whole_step_def thread_step_def Let_def)
  then show ?thesis
    by (rule step_quiet [OF _ run _ _ _ apart]) (use t(2,3) True m in \<open>auto simp: written_def algebra_simps\<close>)
next
  case False
  with t(3) have "tot = arg t * of_nat (ints t)" by (simp add: mult.commute)
  with t(2) False have "whole_step env t s = Some (t\<lparr>phase := Checked m False\<rparr>, s)"
    by (simp add: whole_step_def thread_step_def Let_def)
  then show ?thesis by (rule step_quiet [OF _ run _ _ _ apart]) (use t(2) in simp_all)
qed

lemma step_checked:
  assumes run: "heap_run env s (Lo \<union> own t)" and env: "good_env env"
    and t: "phase t = Checked m False" and apart: "set (addrs t) \<inter> fst ` Lo = {}"
  shows "steps_well env Lo t s"
proof -
  have gone: "own (t\<lparr>phase := Done False\<rparr>) = {}" by (simp add: own_def)
  obtain s' where s': "free env m s = Some s'" "heap_run env s' Lo" "same_bytes Lo s s'"
  proof (cases "m = 0")
    case True
    with t run show thesis by (intro that [of s]) (simp_all add: free_def own_def same_bytes_refl)
  next
    case False
    with t have a: "addrs t = [unat m]" by simp
    have mem: "(unat m, block_size t) \<in> Lo \<union> own t" using a by (simp add: own_def)
    from heap_run_simulates [OF run env] obtain rs where rs: "alloc_inv s rs" "live rs = Lo \<union> own t"
      by (auto simp: simulates_def)
    have "\<forall>p n. munmap_ok env p n" using env by (simp add: good_env_def)
    moreover have "(unat m, block_size t) \<in> live rs" using mem rs(2) by simp
    ultimately obtain a b s' where s': "free env m s = Some s'" "free_gives s rs a b s'"
      using free_live [OF rs(1)] by metis
    have "heap_run env s' (Lo \<union> own t - {(unat m, block_size t)})" by (rule run_free [OF run mem s'(1)])
    moreover have "Lo \<union> own t - {(unat m, block_size t)} = Lo" using a apart by (force simp: own_def)
    ultimately have "heap_run env s' Lo" by simp
    moreover have "bytes s' = bytes s" using s'(2) unfolding free_gives_def by blast
    ultimately show thesis using s'(1) that by (simp add: same_bytes_def split_beta)
  qed
  with t have "whole_step env t s = Some (t\<lparr>phase := Done False\<rparr>, s')"
    by (simp add: whole_step_def)
  with s' gone show ?thesis unfolding steps_well_def
    by (intro exI [of _ "Done False"] exI [of _ s']) simp
qed

lemma step_done:
  assumes "heap_run env s (Lo \<union> own t)" "phase t = Done False"
  shows "steps_well env Lo t s"
proof -
  have "own t = {}" "own (t\<lparr>phase := Done False\<rparr>) = {}" using assms(2) by (simp_all add: own_def)
  moreover have "t = t\<lparr>phase := Done False\<rparr>" using assms(2) by (cases t) simp
  then have "whole_step env t s = Some (t\<lparr>phase := Done False\<rparr>, s)"
    using assms(2) by (simp add: whole_step_def thread_step_def Let_def)
  ultimately show ?thesis unfolding steps_well_def
    using assms(1) by (intro exI [of _ "Done False"] exI [of _ s]) (simp add: same_bytes_refl)
qed

text \<open>A thread that is about to write through a null pointer.\<close>

definition at_null :: "thread \<Rightarrow> bool" where
  "at_null t \<longleftrightarrow> (\<exists>i. phase t = Filling 0 i \<and> i < ints t)"

lemma step_well:
  assumes run: "heap_run env s (Lo \<union> own t)" and env: "good_env env" and page: "unat (page_sz env) \<le> 2 ^ 32"
    and t: "small t" "sound s t (phase t)" "\<not> at_null t" and apart: "set (addrs t) \<inter> fst ` Lo = {}"
  shows "steps_well env Lo t s"
proof (cases "phase t")
  case Asking
  with run have "heap_run env s Lo" by (simp add: own_def)
  then show ?thesis by (rule step_asking [OF _ env page t(1) Asking])
next
  case (Filling m i)
  with t(2,3) show ?thesis by (intro step_filling [OF run env page t(1) Filling _ _ apart]) (auto simp: at_null_def)
next
  case (Summing m i tot)
  with t(2) show ?thesis by (intro step_summing [OF run env page t(1) Summing _ apart]) simp
next
  case (Checked m bad)
  with t(2) show ?thesis by (intro step_checked [OF run env _ apart]) simp
next
  case (Done bad)
  with t(2) show ?thesis by (intro step_done [OF run]) simp
qed (use t(2) in simp_all)

section \<open>All threads\<close>

text \<open>
  The invariant of a run in which every call is one step: the heap holds the payloads of the threads besides those of \<open>L\<close>, every
  payload belongs to one thread, and no thread has seen a wrong sum.
\<close>

definition all_own :: "thread list \<Rightarrow> (nat \<times> nat) set" where
  "all_own ts = (\<Union>t \<in> set ts. own t)"

definition sound_run :: "alloc_env \<Rightarrow> (nat \<times> nat) set \<Rightarrow> thread list \<Rightarrow> alloc_state \<Rightarrow> bool" where
  "sound_run env L ts s \<longleftrightarrow> heap_run env s (L \<union> all_own ts)
     \<and> distinct (concat (map addrs ts)) \<and> set (concat (map addrs ts)) \<inter> fst ` L = {}
     \<and> (\<forall>t \<in> set ts. small t \<and> sound s t (phase t))"

lemma own_addrs: "fst ` own t = set (addrs t)"
  by (auto simp: own_def image_image)

lemma all_own_addrs: "fst ` all_own ts = set (concat (map addrs ts))"
  by (simp add: all_own_def image_UN own_addrs)

lemma sound_keeps:
  assumes "sound s t (phase t)" "same_bytes M' s s'" "own t \<subseteq> M'" "small t"
    and run: "heap_run env s M" "own t \<subseteq> M" and env: "good_env env" and page: "unat (page_sz env) \<le> 2 ^ 32"
  shows "sound s' t (phase t)"
proof -
  have keep: "written s' m t k" if "written s m t k" "k \<le> ints t" "addrs t = [unat m]" for m k
  proof (rule written_keeps [OF that(1,2) assms(2)])
    have o: "(unat m, block_size t) \<in> own t" using that(3) by (simp add: own_def)
    then show "(unat m, block_size t) \<in> M'" using assms(3) by blast
    show "unat m + block_size t < 2 ^ 64"
      by (rule payload_mapped(2) [OF run(1) env]) (use o run(2) in blast)
  qed (rule sizes(2) [OF assms(4) page])
  show ?thesis
  proof (cases "phase t")
    case (Filling m i)
    with assms(1) keep [of m i] show ?thesis by (cases "m = 0") (auto simp: written_def)
  next
    case (Summing m i tot)
    with assms(1) keep [of m "ints t"] show ?thesis by (cases "m = 0") (auto simp: written_def)
  qed (use assms(1) in simp_all)
qed

lemma sound_run_step:
  assumes inv: "sound_run env L ts s" and env: "good_env env" and page: "unat (page_sz env) \<le> 2 ^ 32"
    and j: "j < length ts" "\<not> at_null (ts ! j)"
  shows "\<exists>t s'. whole_step env (ts ! j) s = Some (t, s') \<and> sound_run env L (ts[j := t]) s'"
proof -
  obtain us t vs where ts: "ts = us @ t # vs" "length us = j" "ts ! j = t"
    using id_take_nth_drop [OF j(1)] j(1) by (metis length_take less_imp_le min.absorb2)
  let ?Lo = "L \<union> all_own (us @ vs)"
  have run: "heap_run env s (?Lo \<union> own t)"
    using inv unfolding sound_run_def ts(1) by (simp add: all_own_def Un_ac)
  have apart: "set (addrs t) \<inter> fst ` ?Lo = {}"
    using inv unfolding sound_run_def ts(1) image_Un all_own_addrs by auto
  have "steps_well env ?Lo t s"
    by (rule step_well [OF run env page _ _ _ apart]) (use inv j(2) ts in \<open>auto simp: sound_run_def\<close>)
  then obtain p s' where s': "whole_step env t s = Some (t\<lparr>phase := p\<rparr>, s')" "heap_run env s' (?Lo \<union> own (t\<lparr>phase := p\<rparr>))"
    "sound s' (t\<lparr>phase := p\<rparr>) p" "set (addrs (t\<lparr>phase := p\<rparr>)) \<inter> fst ` ?Lo = {}"
    "distinct (addrs (t\<lparr>phase := p\<rparr>))" "same_bytes ?Lo s s'" unfolding steps_well_def by blast
  let ?t = "t\<lparr>phase := p\<rparr>"
  have small: "small u" "sound s u (phase u)" if "u \<in> set ts" for u
    using inv that by (auto simp: sound_run_def)
  have others: "sound s' u (phase u)" if u: "u \<in> set (us @ vs)" for u
  proof (rule sound_keeps [OF _ s'(6) _ _ run _ env page])
    show "own u \<subseteq> ?Lo" "own u \<subseteq> ?Lo \<union> own t" using u by (auto simp: all_own_def)
  qed (use u small [of u] ts(1) in auto)
  have "sound_run env L (us @ ?t # vs) s'"
    unfolding sound_run_def
  proof (intro conjI ballI)
    have "L \<union> all_own (us @ ?t # vs) = ?Lo \<union> own ?t" by (auto simp: all_own_def)
    with s'(2) show "heap_run env s' (L \<union> all_own (us @ ?t # vs))" by simp
    show "distinct (concat (map addrs (us @ ?t # vs)))"
      using inv s'(4,5) unfolding sound_run_def ts(1) image_Un all_own_addrs by auto
    show "set (concat (map addrs (us @ ?t # vs))) \<inter> fst ` L = {}"
      using inv s'(4) unfolding sound_run_def ts(1) image_Un all_own_addrs by auto
    show "small u" if "u \<in> set (us @ ?t # vs)" for u
      using that small(1) ts(1) by (auto simp: small_def)
    show "sound s' u (phase u)" if "u \<in> set (us @ ?t # vs)" for u
      using that others s'(3) by auto
  qed
  moreover have "ts[j := ?t] = us @ ?t # vs" using ts(1,2) by auto
  ultimately show ?thesis using s'(1) ts(3) by auto
qed

end
