(* ===== verification/Alloc_Locked.thy ===== *)
theory Alloc_Locked
  imports Alloc_Whole
begin

text \<open>
  The threads of the test program thread-safety.c in the runs in which no two calls of \<open>malloc\<close>
  and \<open>free\<close> overlap, as they would be with the mutex held in both: any number of threads, and
  any order of all steps that the mutex leaves open.
\<close>

section \<open>Runs without overlapping calls\<close>

text \<open>The threads inside a call, and those whose next step begins one.\<close>

definition in_call :: "thread \<Rightarrow> bool" where
  "in_call t \<longleftrightarrow> (case phase t of Chosen r \<Rightarrow> True | Scanning m c bad \<Rightarrow> True
     | Unlinking m c bad \<Rightarrow> True | Unmapping m bad \<Rightarrow> True | _ \<Rightarrow> False)"

definition calls :: "thread \<Rightarrow> bool" where
  "calls t \<longleftrightarrow> (case phase t of Asking \<Rightarrow> True | Checked m bad \<Rightarrow> True | _ \<Rightarrow> False)"

text \<open>A thread that is to begin a call while another one is inside its own waits.\<close>

fun run_locked :: "alloc_env \<Rightarrow> nat list \<Rightarrow> thread list \<times> alloc_state \<Rightarrow> (thread list \<times> alloc_state) option" where
  "run_locked env [] (ts, s) = Some (ts, s)"
| "run_locked env (j # js) (ts, s) =
     (if j < length ts then
        if calls (ts ! j) \<and> list_ex in_call ts then run_locked env js (ts, s)
        else do { (t, s1) \<leftarrow> thread_step env (ts ! j) s; run_locked env js (ts[j := t], s1) }
      else None)"

text \<open>These are runs of the program: some schedule does the same.\<close>

lemma run_locked_schedule:
  "run_locked env js (ts, s) = Some x \<Longrightarrow> \<exists>ks. run_schedule env ks (ts, s) = Some x"
proof (induction js arbitrary: ts s)
  case Nil
  then show ?case by (auto intro: exI [of _ "[]"])
next
  case (Cons j js)
  show ?case
  proof (cases "calls (ts ! j) \<and> list_ex in_call ts")
    case True
    with Cons show ?thesis by (auto split: if_splits)
  next
    case False
    with Cons.prems obtain t s1 where 1: "j < length ts" "thread_step env (ts ! j) s = Some (t, s1)"
      "run_locked env js (ts[j := t], s1) = Some x" by (auto split: bind_splits if_splits)
    obtain ks where "run_schedule env ks (ts[j := t], s1) = Some x" using Cons.IH [OF 1(3)] by blast
    with 1(1,2) show ?thesis by (intro exI [of _ "j # ks"]) simp
  qed
qed

section \<open>A call and the writes of others\<close>

text \<open>
  While a thread is inside a call, the others write at most into their payloads. Such a write
  takes away the headers that it overlaps, and changes bytes. What a call finds in the smaller
  table it finds in the larger one.
\<close>

definition narrow :: "u64 set \<Rightarrow> (u64 \<Rightarrow> u8) \<Rightarrow> alloc_state \<Rightarrow> alloc_state" where
  "narrow A f s = s\<lparr>hdrs := hdrs s |` A, bytes := f\<rparr>"

lemma narrow_simps [simp]:
  "maps (narrow A f s) = maps s" "bytes (narrow A f s) = f" "g_head (narrow A f s) = g_head s"
  "hdrs (narrow A f s) a = Some b \<longleftrightarrow> a \<in> A \<and> hdrs s a = Some b"
  by (auto simp: narrow_def restrict_map_def)

lemma hdrs_narrow: "hdrs (narrow A f s) = hdrs s |` A"
  by (simp add: narrow_def)

lemma store_le_narrow:
  "store_le p n v s = Some s' \<Longrightarrow> \<exists>A. \<forall>u. maps u = maps s \<longrightarrow> bytes u = bytes s \<longrightarrow>
     store_le p n v u = Some (narrow A (bytes s') u)"
proof (induction n arbitrary: p v s)
  case 0
  have id: "u = narrow UNIV (bytes s) u" if "bytes u = bytes s" for u :: alloc_state
    using that by (cases u) (simp add: narrow_def restrict_map_def)
  show ?case
  proof (intro exI [of _ UNIV] allI impI)
    fix u :: alloc_state assume "maps u = maps s" "bytes u = bytes s"
    with id [of u] 0 show "store_le p 0 v u = Some (narrow UNIV (bytes s') u)" by simp
  qed
next
  case (Suc n)
  from Suc.prems obtain s1 where s1: "memset p (of_nat v) 1 s = Some s1"
    "store_le (p + 1) n (v div 256) s1 = Some s'" by (auto split: bind_splits)
  from Suc.IH [OF s1(2)] obtain A where A: "\<And>u. maps u = maps s1 \<Longrightarrow> bytes u = bytes s1 \<Longrightarrow>
      store_le (p + 1) n (v div 256) u = Some (narrow A (bytes s') u)" by blast
  let ?B = "{x. \<not> (unat p < unat x + 48 \<and> unat x < unat p + 1)}"
  have wipe: "wipe p 1 h = h |` ?B" for h by (auto simp: wipe_def restrict_map_def)
  have "store_le p (Suc n) v u = Some (narrow (?B \<inter> A) (bytes s') u)" if u: "maps u = maps s" "bytes u = bytes s" for u
  proof -
    have m: "mapped u p 1" "bytes s1 = (\<lambda>x. if in_range p 1 x then of_nat v else bytes s x)" "maps s1 = maps s"
      using s1(1) u(1) by (auto simp: memset_def mapped_def split: if_splits)
    let ?u = "u\<lparr>hdrs := hdrs u |` ?B, bytes := bytes s1\<rparr>"
    have "memset p (of_nat v) 1 u = Some (u\<lparr>hdrs := wipe p 1 (hdrs u), bytes := bytes s1\<rparr>)"
      using m u(2) by (simp add: memset_def cong: if_cong)
    then have "memset p (of_nat v) 1 u = Some ?u" unfolding wipe .
    moreover have "store_le (p + 1) n (v div 256) ?u = Some (narrow A (bytes s') ?u)" by (rule A) (use m u in simp_all)
    moreover have "narrow A (bytes s') ?u = narrow (?B \<inter> A) (bytes s') u" by (simp add: narrow_def)
    ultimately show ?thesis by simp
  qed
  then show ?case by blast
qed

lemma scan_narrow: "scan_loop (h |` A) st c = Some r \<Longrightarrow> scan_loop h st c = Some r"
proof (induction "h |` A" st c r rule: scan_loop.raw_induct [rotated, consumes 1, case_names step])
  case (step loop st c r)
  obtain x y where "r = (x, y)" by (cases r)
  then show ?case by (subst scan_loop.simps) (use step in \<open>auto simp: restrict_map_def split: bind_splits if_splits\<close>)
qed

lemma find_prev_narrow: "find_prev_loop (h |` A) x c = Some r \<Longrightarrow> find_prev_loop h x c = Some r"
proof (induction "h |` A" x c r rule: find_prev_loop.raw_induct [rotated, consumes 1, case_names step])
  case (step loop x c r)
  show ?case by (subst find_prev_loop.simps) (use step in \<open>auto simp: restrict_map_def split: bind_splits if_splits\<close>)
qed

lemma first_fit_narrow: "first_fit_loop (h |` A) sz c = Some r \<Longrightarrow> first_fit_loop h sz c = Some r"
proof (induction "h |` A" sz c r rule: first_fit_loop.raw_induct [rotated, consumes 1, case_names step])
  case (step loop sz c r)
  show ?case by (subst first_fit_loop.simps) (use step in \<open>auto simp: restrict_map_def split: bind_splits if_splits\<close>)
qed

lemma best_fit_narrow: "best_fit_loop (h |` A) sz c x y = Some r \<Longrightarrow> best_fit_loop h sz c x y = Some r"
proof (induction "h |` A" sz c x y r rule: best_fit_loop.raw_induct [rotated, consumes 1, case_names step])
  case (step loop sz c x y r)
  show ?case by (subst best_fit_loop.simps) (use step in \<open>auto simp: restrict_map_def split: bind_splits if_splits\<close>)
qed

lemma worst_fit_narrow: "worst_fit_loop (h |` A) sz c x y = Some r \<Longrightarrow> worst_fit_loop h sz c x y = Some r"
proof (induction "h |` A" sz c x y r rule: worst_fit_loop.raw_induct [rotated, consumes 1, case_names step])
  case (step loop sz c x y r)
  show ?case by (subst worst_fit_loop.simps) (use step in \<open>auto simp: restrict_map_def split: bind_splits if_splits\<close>)
qed

lemma reuse_narrow: "reuse env sz (narrow A f s) = Some r \<Longrightarrow> reuse env sz s = Some r"
  by (auto simp: reuse_def Let_def first_fit_def best_fit_def worst_fit_def hdrs_narrow
      dest: first_fit_narrow best_fit_narrow worst_fit_narrow split: if_splits)

lemma store_hdr_narrow: "a \<in> A \<Longrightarrow> store_hdr a b (narrow A f s) = map_option (narrow A f) (store_hdr a b s)"
  by (auto simp: store_hdr_def mapped_def narrow_def wipe_def restrict_map_def fun_eq_iff)

lemma free_mark_narrow:
  "\<lbrakk>free_mark p (narrow A f g) = Some (st', s1); free_mark p g = Some (st, s)\<rbrakk> \<Longrightarrow> st' = st \<and> s1 = narrow A f s"
  by (auto simp: free_mark_def store_hdr_narrow split: bind_splits)

lemma free_unlink_narrow:
  assumes "free_unlink p c (narrow A f s) = Some s1" "free_unlink p c s = Some s2"
  shows "s1 = narrow A f s2"
proof -
  from assms(1) obtain b where "hdrs s (p - HDR) = Some b" "unlink_region (region_start b) c (narrow A f s) = Some s1"
    by (auto simp: free_unlink_def split: bind_splits)
  with assms(2) have b: "unlink_region (region_start b) c (narrow A f s) = Some s1"
    "unlink_region (region_start b) c s = Some s2" by (simp_all add: free_unlink_def)
  show ?thesis
  proof (cases "g_head s = region_start b")
    case True
    with b show ?thesis by (auto simp: unlink_region_def narrow_def)
  next
    case False
    with b(1) obtain t d where t: "find_prev_loop (hdrs s |` A) (region_start b) (g_head s) = Some t" "t \<noteq> 0"
      "t \<in> A" "hdrs s t = Some d" "store_hdr t (d\<lparr>nxt := c\<rparr>) (narrow A f s) = Some s1"
      by (auto simp: unlink_region_def hdrs_narrow restrict_map_def split: bind_splits if_splits)
    with b(2) False find_prev_narrow [OF t(1)] show ?thesis by (auto simp: unlink_region_def store_hdr_narrow)
  qed
qed

section \<open>A thread inside a call\<close>

text \<open>The blocks that the scan of \<open>free\<close> has come to.\<close>

inductive scanned :: "(u64 \<Rightarrow> mem_block option) \<Rightarrow> u64 \<Rightarrow> u64 \<Rightarrow> bool" for h start where
  scanned_start: "scanned h start start"
| scanned_next: "\<lbrakk>scanned h start c; c \<noteq> 0; h c = Some b; region_start b = start; usage b = 0\<rbrakk> \<Longrightarrow>
    scanned h start (nxt b)"

lemma scanned_loop: "scanned h st c \<Longrightarrow> scan_loop h st c = scan_loop h st st"
  by (induction rule: scanned.induct) (simp_all add: scan_loop.simps [of h st "_ :: u64"])

lemma scanned_narrow:
  "\<lbrakk>scanned h st c; scan_loop (h |` A) st st = Some r\<rbrakk> \<Longrightarrow> scanned (h |` A) st c"
proof (induction rule: scanned.induct)
  case (scanned_next c b)
  then have s: "scanned (h |` A) st c" by blast
  with scanned_next.prems have "scan_loop (h |` A) st c = Some r" by (simp add: scanned_loop)
  then have "(h |` A) c \<noteq> None" using scanned_next.hyps(2) by (auto simp: scan_loop.simps [of _ _ c] split: bind_splits)
  with scanned_next.hyps(3) have "(h |` A) c = Some b" by (auto simp: restrict_map_def split: if_splits)
  with s scanned_next.hyps(2,4,5) show ?case by (blast intro: scanned.scanned_next)
qed (rule scanned.scanned_start)

text \<open>
  How far the call is, against the heap \<open>g\<close> from before the call.
\<close>

fun mid :: "alloc_env \<Rightarrow> thread \<Rightarrow> phase \<Rightarrow> alloc_state \<Rightarrow> alloc_state \<Rightarrow> bool" where
  "mid env t (Chosen r) s g \<longleftrightarrow> s = g \<and> reuse env (align8 (4 * of_nat (ints t))) g = Some r"
| "mid env t (Scanning m c bad) s g \<longleftrightarrow> m \<noteq> 0 \<and> (\<exists>st. free_mark m g = Some (st, s) \<and> scanned (hdrs s) st c)"
| "mid env t (Unlinking m c bad) s g \<longleftrightarrow> m \<noteq> 0
     \<and> (\<exists>st. free_mark m g = Some (st, s) \<and> scan_loop (hdrs s) st st = Some (True, c))"
| "mid env t (Unmapping m bad) s g \<longleftrightarrow> m \<noteq> 0 \<and> (\<exists>st s1 c. free_mark m g = Some (st, s1)
     \<and> scan_loop (hdrs s1) st st = Some (True, c) \<and> free_unlink m c s1 = Some s)"
| "mid env t p s g \<longleftrightarrow> False"

text \<open>The thread as it was before its call.\<close>

definition before :: "thread \<Rightarrow> thread" where
  "before t = t\<lparr>phase := (case phase t of Chosen r \<Rightarrow> Asking | Scanning m c bad \<Rightarrow> Checked m bad
     | Unlinking m c bad \<Rightarrow> Checked m bad | Unmapping m bad \<Rightarrow> Checked m bad | p \<Rightarrow> p)\<rparr>"

lemma before_out: "\<not> in_call t \<Longrightarrow> before t = t"
  by (cases t) (auto simp: before_def in_call_def split: phase.splits)

lemma before_simps [simp]:
  "ints (before t) = ints t" "arg (before t) = arg t" "(before t)\<lparr>phase := p\<rparr> = t\<lparr>phase := p\<rparr>"
  "before (t\<lparr>phase := Chosen r\<rparr>) = t\<lparr>phase := Asking\<rparr>"
  "before (t\<lparr>phase := Scanning m c bad\<rparr>) = t\<lparr>phase := Checked m bad\<rparr>"
  "before (t\<lparr>phase := Unlinking m c bad\<rparr>) = t\<lparr>phase := Checked m bad\<rparr>"
  "before (t\<lparr>phase := Unmapping m bad\<rparr>) = t\<lparr>phase := Checked m bad\<rparr>"
  by (simp_all add: before_def)

text \<open>A write of another thread leaves the call where it is.\<close>

lemma mid_narrow:
  assumes "mid env t (phase t) s g" "whole_step env (before t) (narrow A f g) = Some x"
  shows "mid env t (phase t) (narrow A f s) (narrow A f g)"
proof -
  have free: "\<exists>r. free_mark m (narrow A f g) = Some (st, narrow A f s0) \<and> scan_loop (hdrs (narrow A f s0)) st st = Some r
      \<and> scan_loop (hdrs s0) st st = Some r
      \<and> (fst r \<longrightarrow> (\<exists>s1. free_unlink m (snd r) (narrow A f s0) = Some s1))"
    if "m \<noteq> 0" "phase (before t) = Checked m bad" "free_mark m g = Some (st, s0)" for m bad st s0
  proof -
    from assms(2) that(1,2) obtain st' s1 y where y: "free_mark m (narrow A f g) = Some (st', s1)"
      "free_rest env m st' s1 = Some y" by (auto simp: whole_step_def free_in_steps split: bind_splits)
    from free_mark_narrow [OF y(1) that(3)] have e: "st' = st" "s1 = narrow A f s0" by blast+
    from y(2) e obtain r where r: "scan_loop (hdrs s0 |` A) st st = Some r"
      "fst r \<longrightarrow> (\<exists>s1. free_unlink m (snd r) (narrow A f s0) = Some s1)"
      by (auto simp: free_rest_def hdrs_narrow split: bind_splits if_splits)
    with scan_narrow [OF r(1)] y(1) e show ?thesis by (auto simp: hdrs_narrow)
  qed
  show ?thesis
  proof (cases "phase t")
    case (Chosen r)
    with assms(2) obtain r' where "reuse env (align8 (4 * of_nat (ints t))) (narrow A f g) = Some r'"
      by (auto simp: whole_step_def before_def malloc_in_steps split: bind_splits)
    moreover from reuse_narrow [OF this] assms(1) Chosen have "r' = r" by simp
    ultimately show ?thesis using Chosen assms(1) by simp
  next
    case (Scanning m c bad)
    with assms(1) obtain st where st: "m \<noteq> 0" "free_mark m g = Some (st, s)" "scanned (hdrs s) st c" by auto
    with free [OF st(1) _ st(2), of bad] Scanning scanned_narrow [OF st(3)] show ?thesis
      by (fastforce simp: before_def hdrs_narrow)
  next
    case (Unlinking m c bad)
    with assms(1) obtain st where st: "m \<noteq> 0" "free_mark m g = Some (st, s)" "scan_loop (hdrs s) st st = Some (True, c)" by auto
    with free [OF st(1) _ st(2), of bad] Unlinking show ?thesis by (fastforce simp: before_def)
  next
    case (Unmapping m bad)
    with assms(1) obtain st s1 c where st: "m \<noteq> 0" "free_mark m g = Some (st, s1)" "scan_loop (hdrs s1) st st = Some (True, c)"
      "free_unlink m c s1 = Some s" by auto
    with free [OF st(1) _ st(2), of bad] Unmapping obtain s2 where
      s2: "free_mark m (narrow A f g) = Some (st, narrow A f s1)" "scan_loop (hdrs (narrow A f s1)) st st = Some (True, c)"
        "free_unlink m c (narrow A f s1) = Some s2" by (fastforce simp: before_def)
    with free_unlink_narrow [OF s2(3) st(4)] Unmapping st(1) show ?thesis by fastforce
  qed (use assms(1) in simp_all)
qed

section \<open>The invariant of the runs\<close>

text \<open>
  The state is that of a run in which every call is one step, except that one thread may be
  inside its call; \<open>g\<close> is the heap without the steps of that call.
\<close>

definition inside :: "alloc_env \<Rightarrow> thread list \<Rightarrow> alloc_state \<Rightarrow> alloc_state \<Rightarrow> bool" where
  "inside env ts s g \<longleftrightarrow> maps s = maps g \<and> bytes s = bytes g \<and> (\<not> list_ex in_call ts \<longrightarrow> s = g)
     \<and> (\<forall>j < length ts. in_call (ts ! j) \<longrightarrow> mid env (ts ! j) (phase (ts ! j)) s g
          \<and> (\<forall>k < length ts. in_call (ts ! k) \<longrightarrow> k = j))"

definition locked_inv :: "alloc_env \<Rightarrow> (nat \<times> nat) set \<Rightarrow> thread list \<Rightarrow> alloc_state \<Rightarrow> bool" where
  "locked_inv env L ts s \<longleftrightarrow> (\<exists>g. sound_run env L (map before ts) g \<and> inside env ts s g)"

lemma not_null_before: "in_call t \<or> calls t \<Longrightarrow> \<not> at_null (before t)"
  by (auto simp: in_call_def calls_def at_null_def before_def split: phase.splits)

lemma whole_defined:
  assumes "sound_run env L (map before ts) g" "good_env env" "unat (page_sz env) \<le> 2 ^ 32"
    and "j < length ts" "\<not> at_null (before (ts ! j))"
  shows "\<exists>t g'. whole_step env (before (ts ! j)) g = Some (t, g') \<and> sound_run env L ((map before ts)[j := t]) g'"
  using sound_run_step [OF assms(1-3), of j] assms(4,5) by simp

text \<open>A step that leaves every thread outside of a call.\<close>

lemma inside_none: "\<not> list_ex in_call ts \<Longrightarrow> inside env ts s s"
  by (auto simp: inside_def list_ex_iff)

lemma others_out:
  assumes "inside env ts s g" "j < length ts" "in_call (ts ! j) \<or> \<not> list_ex in_call ts" "\<not> in_call t"
  shows "\<not> list_ex in_call (ts[j := t])"
proof -
  have "\<not> in_call (ts[j := t] ! k)" if "k < length ts" for k
    using that assms by (cases "k = j") (auto simp: inside_def list_ex_iff)
  then show ?thesis by (auto simp: list_ex_iff in_set_conv_nth)
qed

text \<open>A step of the thread that is inside its call, or begins one.\<close>

lemma inside_one:
  assumes "inside env ts s g" "j < length ts" "in_call (ts ! j) \<or> \<not> list_ex in_call ts"
    and "mid env t (phase t) s' g" "maps s' = maps g" "bytes s' = bytes g" "in_call t"
  shows "inside env (ts[j := t]) s' g"
proof -
  have one: "k = j" if "k < length ts" "in_call (ts[j := t] ! k)" for k
    using that assms(1-3) by (cases "k = j") (auto simp: inside_def list_ex_iff)
  have "mid env (ts[j := t] ! k) (phase (ts[j := t] ! k)) s' g" if "k < length ts" "in_call (ts[j := t] ! k)" for k
    using one [OF that] assms(2,4) by simp
  moreover have "list_ex in_call (ts[j := t])"
    using assms(2,7) by (auto simp: list_ex_iff set_update_memI)
  ultimately show ?thesis using assms(5,6) one unfolding inside_def by simp blast
qed

lemma begin_call:
  assumes inv: "sound_run env L (map before ts) g" "inside env ts s g" and env: "good_env env" "unat (page_sz env) \<le> 2 ^ 32"
    and j: "j < length ts" "calls (ts ! j)" "\<not> list_ex in_call ts"
  shows "\<exists>t s'. thread_step env (ts ! j) s = Some (t, s') \<and> locked_inv env L (ts[j := t]) s'"
proof -
  let ?t = "ts ! j"
  have sg: "s = g" using inv(2) j(3) by (simp add: inside_def)
  have out: "before ?t = ?t" using j(2) by (intro before_out) (auto simp: calls_def in_call_def split: phase.splits)
  obtain t' g' where w: "whole_step env ?t g = Some (t', g')" "sound_run env L ((map before ts)[j := t']) g'"
    using whole_defined [OF inv(1) env j(1)] not_null_before [of ?t] j(2) out by auto
  have stay: "locked_inv env L (ts[j := u]) s'"
    if "before u = ?t" "in_call u" "mid env u (phase u) s' g" "maps s' = maps g" "bytes s' = bytes g" for u s'
  proof -
    have "map before (ts[j := u]) = map before ts" using that(1) out by (simp add: map_update list_update_same_conv j(1))
    with inv(1) inside_one [OF inv(2) j(1) _ that(3-5,2)] j(3) show ?thesis unfolding locked_inv_def by metis
  qed
  show ?thesis
  proof (cases "phase ?t")
    case Asking
    then have t: "?t\<lparr>phase := Asking\<rparr> = ?t" by (cases ?t) simp
    obtain r where r: "reuse env (align8 (4 * of_nat (ints ?t))) g = Some r"
      using w(1) Asking by (auto simp: whole_step_def malloc_in_steps split: bind_splits)
    then have "locked_inv env L (ts[j := ?t\<lparr>phase := Chosen r\<rparr>]) s"
      using sg t by (intro stay) (auto simp: in_call_def)
    with r Asking sg show ?thesis by (auto simp: thread_step_def Let_def)
  next
    case (Checked m bad)
    then have t: "?t\<lparr>phase := Checked m bad\<rparr> = ?t" by (cases ?t) simp
    show ?thesis
    proof (cases "m = 0")
      case True
      with w(1) Checked have e: "t' = ?t\<lparr>phase := Done bad\<rparr>" "g' = g" by (auto simp: whole_step_def free_def)
      have "before t' = t'" "\<not> in_call t'" by (simp_all add: e before_def in_call_def)
      with w(2) e(2) inside_none [OF others_out [OF inv(2) j(1)], of t'] j(3)
      have "locked_inv env L (ts[j := t']) g" unfolding locked_inv_def by (metis map_update)
      with True Checked e sg show ?thesis by (auto simp: thread_step_def Let_def)
    next
      case False
      with w(1) Checked obtain st s1 where s1: "free_mark m g = Some (st, s1)"
        by (auto simp: whole_step_def free_in_steps split: bind_splits)
      have "maps s1 = maps g" "bytes s1 = bytes g"
        using s1 by (auto simp: free_mark_def store_hdr_def split: bind_splits if_splits)
      then have "locked_inv env L (ts[j := ?t\<lparr>phase := Scanning m st bad\<rparr>]) s1"
        using s1 t False scanned_start by (intro stay) (auto simp: in_call_def)
      with s1 Checked sg False show ?thesis by (auto simp: thread_step_def Let_def)
    qed
  qed (use j(2) in \<open>simp_all add: calls_def\<close>)
qed

lemma go_on:
  assumes inv: "sound_run env L (map before ts) g" "inside env ts s g" and env: "good_env env" "unat (page_sz env) \<le> 2 ^ 32"
    and j: "j < length ts" "in_call (ts ! j)"
  shows "\<exists>t s'. thread_step env (ts ! j) s = Some (t, s') \<and> locked_inv env L (ts[j := t]) s'"
proof -
  let ?t = "ts ! j"
  obtain t' g' where w: "whole_step env (before ?t) g = Some (t', g')" "sound_run env L ((map before ts)[j := t']) g'"
    using whole_defined [OF inv(1) env j(1)] not_null_before [of ?t] j(2) by auto
  have mid: "mid env ?t (phase ?t) s g" "maps s = maps g" "bytes s = bytes g" using inv(2) j by (auto simp: inside_def)
  have leave: "locked_inv env L (ts[j := t']) g'" if "before t' = t'" "\<not> in_call t'"
    using w(2) that inside_none [OF others_out [OF inv(2) j(1)], of t'] j(2) unfolding locked_inv_def by (metis map_update)
  have stay: "locked_inv env L (ts[j := u]) s'"
    if "before u = before ?t" "in_call u" "mid env u (phase u) s' g" "maps s' = maps g" "bytes s' = bytes g" for u s'
  proof -
    have "map before (ts[j := u]) = map before ts" using that(1) by (simp add: map_update list_update_same_conv j(1))
    with inv(1) inside_one [OF inv(2) j(1) _ that(3-5,2)] j(2) show ?thesis unfolding locked_inv_def by metis
  qed
  have rest: "\<exists>r b. scan_loop (hdrs s0) st st = Some r \<and> hdrs s0 (m - HDR) = Some b \<and> region_start b = st
      \<and> t' = ?t\<lparr>phase := Done bad\<rparr> \<and> (if fst r then \<exists>s1. free_unlink m (snd r) s0 = Some s1 \<and> free_unmap env m s1 = Some g' else g' = s0)"
    if "m \<noteq> 0" "phase (before ?t) = Checked m bad" and mark: "free_mark m g = Some (st, s0)" for m bad st s0
  proof -
    from w(1) that have f: "free_rest env m st s0 = Some g'" "t' = ?t\<lparr>phase := Done bad\<rparr>"
      by (auto simp: whole_step_def free_in_steps split: bind_splits)
    obtain b where b: "hdrs s0 (m - HDR) = Some b" "region_start b = st" using free_mark_hdr [OF mark] by auto
    obtain r where r: "scan_loop (hdrs s0) st st = Some r" using f(1) by (auto simp: free_rest_def split: bind_splits)
    have "if fst r then \<exists>s1. free_unlink m (snd r) s0 = Some s1 \<and> free_unmap env m s1 = Some g' else g' = s0"
      using f(1) r by (cases r) (auto simp: free_rest_def split: bind_splits)
    with r b f(2) show ?thesis by blast
  qed
  show ?thesis
  proof (cases "phase ?t")
    case (Chosen r)
    then have "phase (before ?t) = Asking" by (simp add: before_def)
    with mid(1) Chosen w(1) obtain p where "malloc_rest env r (align8 (4 * of_nat (ints ?t))) s = Some (p, g')"
      "t' = ?t\<lparr>phase := Filling p 0\<rparr>" by (auto simp: whole_step_def malloc_in_steps split: bind_splits)
    moreover from this(2) have "locked_inv env L (ts[j := t']) g'" by (intro leave) (simp_all add: before_def in_call_def)
    ultimately show ?thesis using Chosen by (auto simp: thread_step_def Let_def)
  next
    case (Scanning m c bad)
    with mid(1) obtain st where st: "m \<noteq> 0" "free_mark m g = Some (st, s)" "scanned (hdrs s) st c" by auto
    from rest [OF st(1) _ st(2), of bad] Scanning obtain r b where r: "scan_loop (hdrs s) st st = Some r"
      "hdrs s (m - HDR) = Some b" "region_start b = st" "t' = ?t\<lparr>phase := Done bad\<rparr>" "\<not> fst r \<longrightarrow> g' = s"
      by (auto simp: before_def)
    have b: "before ?t = ?t\<lparr>phase := Checked m bad\<rparr>" using Scanning by (simp add: before_def)
    from r(1) have "scan_loop (hdrs s) st c = Some r" using scanned_loop [OF st(3)] by simp
    then consider (nxt) d where "free_look m c s = Some (Next (nxt d))" "c \<noteq> 0" "hdrs s c = Some d" "region_start d = st" "usage d = 0"
      | (all) "free_look m c s = Some (All_Free c)" "r = (True, c)" | (used) "free_look m c s = Some In_Use" "\<not> fst r"
      using r(2,3) by (auto simp: free_look_def scan_loop.simps [of _ _ c] split: bind_splits if_splits)
    then show ?thesis
    proof cases
      case nxt
      have "locked_inv env L (ts[j := ?t\<lparr>phase := Scanning m (nxt d) bad\<rparr>]) s"
        using b mid st scanned_next [OF st(3) nxt(2-5)] by (intro stay) (auto simp: in_call_def)
      with nxt(1) Scanning show ?thesis by (auto simp: thread_step_def Let_def)
    next
      case all
      have "locked_inv env L (ts[j := ?t\<lparr>phase := Unlinking m c bad\<rparr>]) s"
        using b mid st r(1) all(2) by (intro stay) (auto simp: in_call_def)
      with all(1) Scanning show ?thesis by (auto simp: thread_step_def Let_def)
    next
      case used
      have "locked_inv env L (ts[j := t']) g'" using r(4) by (intro leave) (simp_all add: before_def in_call_def)
      with used r(4,5) Scanning show ?thesis by (auto simp: thread_step_def Let_def)
    qed
  next
    case (Unlinking m c bad)
    with mid(1) obtain st where st: "m \<noteq> 0" "free_mark m g = Some (st, s)" "scan_loop (hdrs s) st st = Some (True, c)" by auto
    from rest [OF st(1) _ st(2), of bad] Unlinking st(3) obtain s1 where s1: "free_unlink m c s = Some s1"
      by (auto simp: before_def)
    then have "maps s1 = maps s" "bytes s1 = bytes s"
      by (auto simp: free_unlink_def unlink_region_def store_hdr_def split: bind_splits if_splits)
    then have "locked_inv env L (ts[j := ?t\<lparr>phase := Unmapping m bad\<rparr>]) s1"
      using mid st s1 Unlinking by (intro stay) (auto simp: in_call_def before_def)
    with s1 Unlinking show ?thesis by (auto simp: thread_step_def Let_def)
  next
    case (Unmapping m bad)
    with mid(1) obtain st s1 c where st: "m \<noteq> 0" "free_mark m g = Some (st, s1)" "scan_loop (hdrs s1) st st = Some (True, c)"
      "free_unlink m c s1 = Some s" by auto
    from rest [OF st(1) _ st(2), of bad] Unmapping st(3,4) have r: "free_unmap env m s = Some g'" "t' = ?t\<lparr>phase := Done bad\<rparr>"
      by (auto simp: before_def)
    have "locked_inv env L (ts[j := t']) g'" using r(2) by (intro leave) (simp_all add: before_def in_call_def)
    with r Unmapping show ?thesis by (auto simp: thread_step_def Let_def)
  qed (use j(2) in \<open>simp_all add: in_call_def\<close>)
qed

text \<open>A step between two calls reads and writes no header.\<close>

lemma narrow_all: "bytes s = f \<Longrightarrow> narrow UNIV f s = s"
  by (cases s) (simp add: narrow_def restrict_map_def)

lemma work_effect:
  assumes "thread_step env t g = Some (t', g')" "maps s = maps g" "bytes s = bytes g" "\<not> in_call t" "\<not> calls t"
  shows "\<exists>A f. g' = narrow A f g \<and> thread_step env t s = Some (t', narrow A f s) \<and> \<not> in_call t'"
proof -
  note T = thread_step_def Let_def in_call_def
  have quiet: ?thesis if "g' = g" "thread_step env t s = Some (t', s)" "\<not> in_call t'"
    using that assms(3) by (intro exI [of _ UNIV] exI [of _ "bytes g"]) (simp add: narrow_all)
  show ?thesis
  proof (cases "phase t")
    case (Filling m i)
    show ?thesis
    proof (cases "i < ints t")
      case True
      let ?t = "t\<lparr>phase := Filling m (i + 1)\<rparr>" and ?v = "unat (ucast (arg t) :: u32)"
      from assms(1) True Filling have e: "store_le (m + 4 * of_nat i) 4 ?v g = Some g'" "t' = ?t"
        by (auto simp: T split: bind_splits)
      from store_le_narrow [OF e(1)] obtain A where A: "\<And>u. maps u = maps g \<Longrightarrow> bytes u = bytes g \<Longrightarrow>
          store_le (m + 4 * of_nat i) 4 ?v u = Some (narrow A (bytes g') u)" by blast
      have "g' = narrow A (bytes g') g" using A [of g] e(1) by simp
      moreover have "thread_step env t s = Some (?t, narrow A (bytes g') s)"
        using A [OF assms(2,3)] True Filling by (simp add: thread_step_def Let_def)
      moreover have "\<not> in_call ?t" by (simp add: in_call_def)
      ultimately show ?thesis using e(2) by blast
    next
      case False
      with Filling assms(1) show ?thesis by (intro quiet) (auto simp: T)
    qed
  next
    case (Summing m i tot)
    have "load_int p n s = load_int p n g" for p n using assms(2,3) by (simp add: load_int_def mapped_def)
    with Summing assms(1) show ?thesis by (intro quiet) (auto simp: T split: bind_splits if_splits)
  next
    case (Done bad)
    with assms(1) show ?thesis by (intro quiet) (auto simp: T)
  qed (use assms(4,5) in \<open>simp_all add: in_call_def calls_def\<close>)
qed

lemma work_step:
  assumes inv: "sound_run env L (map before ts) g" "inside env ts s g" and env: "good_env env" "unat (page_sz env) \<le> 2 ^ 32"
    and j: "j < length ts" "\<not> in_call (ts ! j)" "\<not> calls (ts ! j)" "\<not> at_null (ts ! j)"
  shows "\<exists>t s'. thread_step env (ts ! j) s = Some (t, s') \<and> locked_inv env L (ts[j := t]) s'"
proof -
  have out: "before (ts ! j) = ts ! j" using j(2) by (rule before_out)
  obtain t g' where w: "whole_step env (ts ! j) g = Some (t, g')" "sound_run env L ((map before ts)[j := t]) g'"
    using whole_defined [OF inv(1) env j(1)] out j(4) by auto
  have "thread_step env (ts ! j) g = Some (t, g')"
    using w(1) j(2,3) by (simp add: whole_step_def in_call_def calls_def split: phase.splits)
  moreover have eq: "maps s = maps g" "bytes s = bytes g" using inv(2) by (simp_all add: inside_def)
  ultimately obtain A f where A: "g' = narrow A f g" "thread_step env (ts ! j) s = Some (t, narrow A f s)" "\<not> in_call t"
    using work_effect j(2,3) by blast
  have sound: "sound_run env L (map before (ts[j := t])) g'" using w(2) before_out [OF A(3)] by (simp add: map_update)
  have same: "in_call (ts[j := t] ! k) \<longleftrightarrow> in_call (ts ! k)" if "k < length ts" for k
    using that j(1,2) A(3) by (cases "k = j") simp_all
  have "mid env (ts[j := t] ! k) (phase (ts[j := t] ! k)) (narrow A f s) g'" if k: "k < length ts" "in_call (ts ! k)" for k
  proof -
    have "k \<noteq> j" using k(2) j(2) by blast
    moreover have "\<exists>x. whole_step env (before (ts[j := t] ! k)) g' = Some x"
      using whole_defined [OF sound env, of k] not_null_before k same [OF k(1)] by fastforce
    moreover have "mid env (ts ! k) (phase (ts ! k)) s g" using inv(2) k by (simp add: inside_def)
    ultimately show ?thesis using mid_narrow [of env "ts ! k" s g A f] A(1) k(1) by auto
  qed
  moreover have "narrow A f s = g'" if "\<not> list_ex in_call (ts[j := t])"
  proof -
    have "\<not> list_ex in_call ts" using that same by (auto simp: list_ex_length)
    with inv(2) A(1) show ?thesis by (simp add: inside_def)
  qed
  ultimately have "inside env (ts[j := t]) (narrow A f s) g'"
    using inv(2) same eq A(1) unfolding inside_def by simp
  with sound A(2) show ?thesis unfolding locked_inv_def by blast
qed

lemma locked_inv_step:
  assumes inv: "locked_inv env L ts s" and env: "good_env env" "unat (page_sz env) \<le> 2 ^ 32"
    and j: "j < length ts" "\<not> (calls (ts ! j) \<and> list_ex in_call ts)" "\<not> at_null (ts ! j)"
  shows "\<exists>t s'. thread_step env (ts ! j) s = Some (t, s') \<and> locked_inv env L (ts[j := t]) s'"
proof -
  from inv obtain g where g: "sound_run env L (map before ts) g" "inside env ts s g" by (auto simp: locked_inv_def)
  consider "calls (ts ! j)" | "in_call (ts ! j)" | "\<not> calls (ts ! j)" "\<not> in_call (ts ! j)" by blast
  then show ?thesis
  proof cases
    case 1
    with j(2) show ?thesis by (intro begin_call [OF g env j(1)]) blast+
  next
    case 2
    then show ?thesis by (rule go_on [OF g env j(1)])
  next
    case 3
    with j(3) show ?thesis by (intro work_step [OF g env j(1)])
  qed
qed

section \<open>Whole runs\<close>

lemma locked_inv_run:
  assumes env: "good_env env" and page: "unat (page_sz env) \<le> 2 ^ 32"
  shows "\<lbrakk>locked_inv env L ts s; \<forall>j \<in> set js. j < length ts\<rbrakk> \<Longrightarrow>
    \<exists>k ts' s'. run_locked env (take k js) (ts, s) = Some (ts', s') \<and> locked_inv env L ts' s'
      \<and> (k = length js \<or> (\<exists>t \<in> set ts'. at_null t))"
proof (induction js arbitrary: ts s)
  case Nil
  then show ?case by (intro exI [of _ 0]) auto
next
  case (Cons j js)
  then have j: "j < length ts" by simp
  consider (waits) "calls (ts ! j) \<and> list_ex in_call ts" | (null) "at_null (ts ! j)"
    | (goes) "\<not> (calls (ts ! j) \<and> list_ex in_call ts)" "\<not> at_null (ts ! j)" by blast
  then show ?case
  proof cases
    case waits
    obtain k ts' s' where "run_locked env (take k js) (ts, s) = Some (ts', s')"
      "locked_inv env L ts' s'" "k = length js \<or> (\<exists>t \<in> set ts'. at_null t)" using Cons.IH [OF Cons.prems(1)] Cons.prems(2) by auto
    with waits j show ?thesis by (intro exI [of _ "Suc k"] exI [of _ ts'] exI [of _ s']) auto
  next
    case null
    with Cons.prems(1) j show ?thesis by (intro exI [of _ 0]) auto
  next
    case goes
    then obtain t s1 where t: "thread_step env (ts ! j) s = Some (t, s1)" "locked_inv env L (ts[j := t]) s1"
      using locked_inv_step [OF Cons.prems(1) env page j] by auto
    have "\<forall>i \<in> set js. i < length (ts[j := t])" using Cons.prems(2) by simp
    from Cons.IH [OF t(2) this] obtain k ts' s' where k: "run_locked env (take k js) (ts[j := t], s1) = Some (ts', s')"
      "locked_inv env L ts' s'" "k = length js \<or> (\<exists>t \<in> set ts'. at_null t)" by blast
    have "run_locked env (take (Suc k) (j # js)) (ts, s) = Some (ts', s')" using t(1) k(1) j goes(1) by auto
    with k(2,3) show ?thesis by (intro exI [of _ "Suc k"] exI [of _ ts'] exI [of _ s']) auto
  qed
qed

text \<open>Whether a thread has printed its message.\<close>

definition reported :: "thread \<Rightarrow> bool" where
  "reported t \<longleftrightarrow> (case phase t of Checked m bad \<Rightarrow> bad | Scanning m c bad \<Rightarrow> bad | Unlinking m c bad \<Rightarrow> bad
     | Unmapping m bad \<Rightarrow> bad | Done bad \<Rightarrow> bad | _ \<Rightarrow> False)"

lemma none_reported: "\<lbrakk>locked_inv env L ts s; t \<in> set ts\<rbrakk> \<Longrightarrow> \<not> reported t"
  by (cases "phase t") (auto simp: locked_inv_def sound_run_def reported_def before_def dest!: bspec [of _ _ t])

lemma all_ended:
  assumes "locked_inv env L ts s" "\<forall>t \<in> set ts. \<exists>bad. phase t = Done bad"
  shows "heap_run env s L"
proof -
  from assms(1) obtain g where g: "sound_run env L (map before ts) g" "inside env ts s g" by (auto simp: locked_inv_def)
  have out: "\<not> in_call t \<and> before t = t \<and> own t = {}" if "t \<in> set ts" for t
  proof -
    have "\<not> in_call t" "own t = {}" using assms(2) that by (auto simp: in_call_def own_def)
    then show ?thesis using before_out by blast
  qed
  then have "s = g" using g(2) by (auto simp: inside_def list_ex_iff)
  moreover have "all_own (map before ts) = {}" using out by (auto simp: all_own_def)
  ultimately show ?thesis using g(1) by (simp add: sound_run_def)
qed

section \<open>The whole test\<close>

text \<open>
  \<open>main\<close> of thread-safety.c: ten rounds of 2500 threads, each round with its random numbers and
  its schedule, which has to bring all threads to their end before they are joined. The result is
  the number of messages. \<open>run\<close> is the way threads run, \<open>run_schedule env\<close> for the code.
\<close>

definition start_threads :: "(nat \<Rightarrow> nat) \<Rightarrow> thread list" where
  "start_threads rnd = map (\<lambda>j. \<lparr>arg = of_nat j, ints = rnd j mod 2050, phase = Asking\<rparr>) [0..<2500]"

definition joined :: "thread list \<Rightarrow> bool" where
  "joined ts \<longleftrightarrow> list_all (\<lambda>t. case phase t of Done bad \<Rightarrow> True | _ \<Rightarrow> False) ts"

definition mismatches :: "thread list \<Rightarrow> nat" where
  "mismatches ts = length (filter (\<lambda>t. phase t = Done True) ts)"

fun test_rounds ::
  "(nat list \<Rightarrow> thread list \<times> alloc_state \<Rightarrow> (thread list \<times> alloc_state) option)
    \<Rightarrow> ((nat \<Rightarrow> nat) \<times> nat list) list \<Rightarrow> alloc_state \<Rightarrow> (nat \<times> alloc_state) option" where
  "test_rounds run [] s = Some (0, s)"
| "test_rounds run ((rnd, js) # rounds) s = do {
     (ts, s1) \<leftarrow> run js (start_threads rnd, s);
     if joined ts then do {
       (n, s2) \<leftarrow> test_rounds run rounds s1;
       Some (mismatches ts + n, s2)
     }
     else None
   }"

lemma at_null_stuck:
  assumes inv: "locked_inv env L ts s" and env: "good_env env" and t: "t \<in> set ts" "at_null t"
  shows "thread_step env t s = None"
proof -
  from inv obtain g where g: "sound_run env L (map before ts) g" "maps s = maps g"
    by (auto simp: locked_inv_def inside_def)
  from t(2) obtain i where i: "phase t = Filling 0 i" "i < ints t" by (auto simp: at_null_def)
  then have "before t = t" by (intro before_out) (simp add: in_call_def)
  with t(1) g(1) i have "i = 0" by (force simp: sound_run_def)
  from g(1) have "heap_run env g (L \<union> all_own (map before ts))" by (simp add: sound_run_def)
  from heap_run_simulates [OF this env] obtain rs where "alloc_inv g rs" by (auto simp: simulates_def)
  then have "\<not> mapped g 0 1" by (rule mmap_wf) simp
  then have "\<not> mapped s 0 1" using mapped_maps [OF g(2)] by simp
  then have "store_le 0 (Suc n) v s = None" for n v by (simp add: memset_def)
  from this [of 3] have "store_le 0 4 v s = None" for v by simp
  with i \<open>i = 0\<close> show ?thesis by (simp add: thread_step_def Let_def)
qed

lemma run_locked_inv:
  assumes env: "good_env env" and page: "unat (page_sz env) \<le> 2 ^ 32"
  shows "\<lbrakk>locked_inv env L ts s; run_locked env js (ts, s) = Some (ts', s')\<rbrakk> \<Longrightarrow> locked_inv env L ts' s'"
proof (induction js arbitrary: ts s)
  case (Cons j js)
  show ?case
  proof (cases "calls (ts ! j) \<and> list_ex in_call ts")
    case False
    with Cons.prems(2) obtain t s1 where t: "j < length ts" "thread_step env (ts ! j) s = Some (t, s1)"
      "run_locked env js (ts[j := t], s1) = Some (ts', s')" by (auto split: bind_splits if_splits)
    then have "\<not> at_null (ts ! j)" using at_null_stuck [OF Cons.prems(1) env, of "ts ! j"] by auto
    then have "locked_inv env L (ts[j := t]) s1"
      using locked_inv_step [OF Cons.prems(1) env page t(1) False] t(2) by auto
    with t(3) Cons.IH show ?thesis by blast
  qed (use Cons in \<open>auto split: if_splits\<close>)
qed simp

lemma joined_locked:
  assumes "locked_inv env L ts s" "joined ts"
  shows "mismatches ts = 0" "heap_run env s L"
proof -
  have d: "\<exists>bad. phase t = Done bad" if "t \<in> set ts" for t
    using assms(2) that by (cases "phase t") (auto simp: joined_def list_all_iff dest!: bspec [of _ _ t])
  have "phase t \<noteq> Done True" if "t \<in> set ts" for t
    using none_reported [OF assms(1) that] by (cases "phase t") (simp_all add: reported_def)
  then show "mismatches ts = 0" by (auto simp: mismatches_def filter_empty_conv)
  show "heap_run env s L" by (rule all_ended [OF assms(1)]) (use d in blast)
qed

lemma fresh_locked:
  assumes "heap_run env s L" "\<forall>t \<in> set ts. phase t = Asking \<and> small t"
  shows "locked_inv env L ts s"
proof -
  have "addrs t = []" "\<not> in_call t" "before t = t" if "t \<in> set ts" for t
    using assms(2) that before_out [of t] by (auto simp: in_call_def)
  then have e: "all_own ts = {}" "concat (map addrs ts) = []" "map before ts = ts" "\<not> list_ex in_call ts"
    by (auto simp: all_own_def own_def list_ex_iff map_idI)
  have "sound_run env L ts s" using assms unfolding sound_run_def e by simp
  with e(3,4) inside_none show ?thesis unfolding locked_inv_def by metis
qed

lemma start_fresh: "\<forall>t \<in> set (start_threads rnd). phase t = Asking \<and> small t"
  by (auto simp: start_threads_def small_def unat_of_nat)

text \<open>The whole test prints nothing when the calls of \<open>malloc\<close> and \<open>free\<close> do not overlap.\<close>

lemma test_rounds_locked:
  assumes env: "good_env env" and page: "unat (page_sz env) \<le> 2 ^ 32"
  shows "\<lbrakk>heap_run env s L; test_rounds (run_locked env) rounds s = Some (n, s')\<rbrakk> \<Longrightarrow> n = 0 \<and> heap_run env s' L"
proof (induction rounds arbitrary: s n)
  case (Cons r rounds)
  obtain rnd js where r: "r = (rnd, js)" by (cases r)
  from Cons.prems(2) r obtain ts s1 n' where 1: "run_locked env js (start_threads rnd, s) = Some (ts, s1)" "joined ts"
    "test_rounds (run_locked env) rounds s1 = Some (n', s')" "n = mismatches ts + n'"
    by (auto split: bind_splits if_splits)
  have "locked_inv env L ts s1" by (rule run_locked_inv [OF env page fresh_locked [OF Cons.prems(1) start_fresh] 1(1)])
  from joined_locked [OF this 1(2)] Cons.IH [OF _ 1(3)] 1(4) show ?case by simp
qed simp

section \<open>The property\<close>

text \<open>
  C26: With calls of malloc and free that do not overlap the threads are safe. Let any number of
  threads of the test program thread-safety.c run in any order, where a thread that is to enter
  \<open>malloc\<close> or \<open>free\<close> while another one is inside such a call waits, as it would at a mutex held
  in both; the steps of a call alternate freely with the accesses of the other threads to their
  integers. Then every step is defined, unless \<open>malloc\<close> returned a null pointer and its thread goes
  on to write through it; no thread ever finds a wrong sum; and when all threads have ended the
  live payloads are those from before. These runs are runs of the program under some schedule.
\<close>

theorem threads_locked:
  assumes "heap_run env s L" "good_env env" "unat (page_sz env) \<le> 2 ^ 32"
    and "\<forall>t \<in> set ts. phase t = Asking \<and> ints t < 2050 \<and> unat (arg t) < 2 ^ 31"
    and "\<forall>j \<in> set js. j < length ts"
  shows "\<exists>k ts' s'. run_locked env (take k js) (ts, s) = Some (ts', s')
    \<and> (\<exists>ks. run_schedule env ks (ts, s) = Some (ts', s'))
    \<and> (k = length js \<or> (\<exists>t \<in> set ts'. \<exists>i. phase t = Filling 0 i \<and> i < ints t))
    \<and> (\<forall>t \<in> set ts'. \<not> reported t)
    \<and> ((\<forall>t \<in> set ts'. \<exists>bad. phase t = Done bad) \<longrightarrow> heap_run env s' L)"
proof -
  have "locked_inv env L ts s" using assms(1,4) by (intro fresh_locked) (auto simp: small_def)
  from locked_inv_run [OF assms(2,3) this assms(5)] obtain k ts' s' where
    r: "run_locked env (take k js) (ts, s) = Some (ts', s')" "locked_inv env L ts' s'"
      "k = length js \<or> (\<exists>t \<in> set ts'. at_null t)" by blast
  with run_locked_schedule [OF r(1)] none_reported [OF r(2)] all_ended [OF r(2)] show ?thesis
    unfolding at_null_def by blast
qed

theorem threads_locked_witness:
  "\<exists>k ts' s'. run_locked demo_env (take k (concat (replicate 40 [0, 1, 2, 1])))
      (map (\<lambda>j. \<lparr>arg = of_nat j, ints = 10, phase = Asking\<rparr>) [0, 1, 2], demo_heap) = Some (ts', s')
    \<and> (\<forall>t \<in> set ts'. \<not> reported t)"
proof -
  let ?ts = "map (\<lambda>j. \<lparr>arg = of_nat j, ints = 10, phase = Asking\<rparr>) [0, 1, 2]" and ?js = "concat (replicate 40 [0, 1, 2, 1])"
  have page: "unat (page_sz demo_env) \<le> 2 ^ 32" by (simp add: demo_env_def)
  have ts: "\<forall>t \<in> set ?ts. phase t = Asking \<and> ints t < 2050 \<and> unat (arg t) < 2 ^ 31" by simp
  have js: "\<forall>j \<in> set ?js. j < length ?ts" by auto
  obtain k ts' s' where "run_locked demo_env (take k ?js) (?ts, demo_heap) = Some (ts', s')" "\<forall>t \<in> set ts'. \<not> reported t"
    using threads_locked [OF demo_run good_demo_env page ts js] by blast
  then show ?thesis by blast
qed

end
