(* ===== verification/Alloc_Scribble.thy ===== *)
theory Alloc_Scribble
  imports Alloc_Threads Alloc_Leak
begin

text \<open>
  The test program Project3/tests/progs/scribble.c, which reads memory it has not written: what it
  prints with scribbling on, and where it stops.
\<close>

section \<open>Programs that print\<close>

datatype out_line =
    Text string
  | Dec int
  | Unsigned u64
  | Hex u64

text \<open>
  A program gives what it prints and its result with the new heap, or None when it touches memory
  that is not mapped; what was printed before stays printed.
\<close>

type_synonym 'a prog = "alloc_state \<Rightarrow> out_line list \<times> ('a \<times> alloc_state) option"

definition put_line :: "out_line \<Rightarrow> unit prog" where
  "put_line l = (\<lambda>s. ([l], Some ((), s)))"

definition do_call :: "(alloc_state \<Rightarrow> ('a \<times> alloc_state) option) \<Rightarrow> 'a prog" where
  "do_call f = (\<lambda>s. ([], f s))"

definition do_run :: "(alloc_state \<Rightarrow> alloc_state option) \<Rightarrow> unit prog" where
  "do_run f = do_call (\<lambda>s. map_option (\<lambda>s1. ((), s1)) (f s))"

definition look :: "(alloc_state \<Rightarrow> 'a option) \<Rightarrow> 'a prog" where
  "look f = do_call (\<lambda>s. map_option (\<lambda>v. (v, s)) (f s))"

definition stop :: "unit prog" where
  "stop = (\<lambda>s. ([], Some ((), s)))"

definition seq :: "'a prog \<Rightarrow> ('a \<Rightarrow> 'b prog) \<Rightarrow> 'b prog" where
  "seq m k = (\<lambda>s. case m s of
      (out, None) \<Rightarrow> (out, None)
    | (out, Some (x, s1)) \<Rightarrow> (case k x s1 of (out', r) \<Rightarrow> (out @ out', r)))"

section \<open>The program\<close>

fun total_bytes :: "u64 \<Rightarrow> nat \<Rightarrow> u64 \<Rightarrow> alloc_state \<Rightarrow> u64 option" where
  "total_bytes p 0 tot s = Some tot"
| "total_bytes p (Suc n) tot s = do {
     v \<leftarrow> load_int p 1 s;
     total_bytes (p + 1) n (tot + of_nat v) s
   }"

text \<open>From \<open>arr = realloc(arr, ...)\<close> to the end, and the parts before.\<close>

definition after_realloc :: "alloc_env \<Rightarrow> u64 \<Rightarrow> unit prog" where
  "after_realloc env arr =
     seq (do_call (realloc env arr 10000)) (\<lambda>arr.
     seq (look (total_bytes arr 10000 0)) (\<lambda>tot.
     seq (put_line (Unsigned tot)) (\<lambda>_.
     seq (put_line (Text ''calloc should still zero out the memory:'')) (\<lambda>_.
     seq (do_call (calloc env 4 450)) (\<lambda>cleared.
     seq (look (total_of cleared 450 0)) (\<lambda>tot.
     seq (put_line (Unsigned tot)) (\<lambda>_. stop)))))))"

definition total_arrays :: "alloc_env \<Rightarrow> u64 \<Rightarrow> unit prog" where
  "total_arrays env arr =
     seq (put_line (Text ''Totalling up uninitialized arrays:'')) (\<lambda>_.
     seq (look (total_bytes arr 5000 0)) (\<lambda>tot.
     seq (put_line (Unsigned tot)) (\<lambda>_. after_realloc env arr)))"

definition print_pair :: "alloc_env \<Rightarrow> u64 \<Rightarrow> u64 \<Rightarrow> u64 \<Rightarrow> unit prog" where
  "print_pair env i ul arr =
     seq (look (load_int i 4)) (\<lambda>v.
     seq (put_line (Dec (sint (of_nat v :: u32)))) (\<lambda>_.
     seq (look (load_int ul 8)) (\<lambda>w.
     seq (put_line (Unsigned (of_nat w))) (\<lambda>_.
     seq (look (load_int i 4)) (\<lambda>v.
     seq (put_line (Hex (of_nat v))) (\<lambda>_.
     seq (look (load_int ul 8)) (\<lambda>w.
     seq (put_line (Hex (of_nat w))) (\<lambda>_. total_arrays env arr))))))))"

definition second_half :: "alloc_env \<Rightarrow> unit prog" where
  "second_half env =
     seq (do_call (malloc env 4)) (\<lambda>y.
     seq (look (load_int y 4)) (\<lambda>v.
     seq (put_line (Dec (sint (of_nat v :: u32)))) (\<lambda>_.
     seq (do_call (malloc env 4)) (\<lambda>i.
     seq (do_call (malloc env 8)) (\<lambda>ul.
     seq (do_call (malloc env 5000)) (\<lambda>arr. print_pair env i ul arr))))))"

definition scribble_main :: "alloc_env \<Rightarrow> unit prog" where
  "scribble_main env0 =
     (let env = env0\<lparr>scribble := True\<rparr> in
      seq (put_line (Text ''Printing uninitialized variables:'')) (\<lambda>_.
      seq (do_call (malloc env 4)) (\<lambda>x.
      seq (look (load_int x 4)) (\<lambda>v.
      seq (put_line (Dec (sint (of_nat v :: u32)))) (\<lambda>_.
      seq (do_run (store_le x 4 42)) (\<lambda>_.
      seq (do_run (free env x)) (\<lambda>_. second_half env)))))))"

section \<open>A program that ends in a fault\<close>

text \<open>The program prints the lines \<open>xs\<close> and then touches memory that is not mapped.\<close>

definition faults :: "'a prog \<Rightarrow> alloc_state \<Rightarrow> out_line list \<Rightarrow> bool" where
  "faults m s xs \<longleftrightarrow> m s = (xs, None)"

lemma faults_print: "faults (k ()) s xs \<Longrightarrow> faults (seq (put_line l) k) s (l # xs)"
  by (simp add: faults_def seq_def put_line_def)

lemma faults_call: "\<lbrakk>f s = Some (x, s1); faults (k x) s1 xs\<rbrakk> \<Longrightarrow> faults (seq (do_call f) k) s xs"
  by (simp add: faults_def seq_def do_call_def)

lemma faults_run: "\<lbrakk>f s = Some s1; faults (k ()) s1 xs\<rbrakk> \<Longrightarrow> faults (seq (do_run f) k) s xs"
  by (simp add: do_run_def faults_call)

lemma faults_look: "\<lbrakk>f s = Some v; faults (k v) s xs\<rbrakk> \<Longrightarrow> faults (seq (look f) k) s xs"
  by (simp add: look_def faults_call)

lemma faults_here: "f s = None \<Longrightarrow> faults (seq (look f) k) s []"
  by (simp add: faults_def seq_def look_def do_call_def)

section \<open>Scribbled memory\<close>

definition scribbled_at :: "alloc_state \<Rightarrow> u64 \<Rightarrow> nat \<Rightarrow> bool" where
  "scribbled_at s p n \<longleftrightarrow> mapped s p n \<and> unat p + n < 2 ^ 64 \<and> (\<forall>x. in_range p n x \<longrightarrow> bytes s x = 0xAA)"

lemma scribbled_sub:
  "\<lbrakk>scribbled_at s p n; unat p \<le> unat q; unat q + m \<le> unat p + n\<rbrakk> \<Longrightarrow> scribbled_at s q m"
  unfolding scribbled_at_def using mapped_sub [of s p n q m] by (auto simp: in_range_def)

fun pattern :: "nat \<Rightarrow> nat" where
  "pattern 0 = 0"
| "pattern (Suc n) = 0xAA + 256 * pattern n"

lemma load_scribbled: "scribbled_at s p n \<Longrightarrow> load_int p n s = Some (pattern n)"
proof -
  have "load_le (bytes s) p n = pattern n" if "scribbled_at s p n"
    using that
  proof (induction n arbitrary: p)
    case (Suc n)
    then have u: "unat (p + 1) = unat p + 1" by (intro unat_Suc) (simp add: scribbled_at_def)
    have "scribbled_at s (p + 1) n" by (rule scribbled_sub [OF Suc.prems]) (simp_all add: u)
    moreover have "bytes s p = 0xAA" using Suc.prems by (simp add: scribbled_at_def in_range_def)
    ultimately show ?case using Suc.IH by simp
  qed simp
  then show "scribbled_at s p n \<Longrightarrow> load_int p n s = Some (pattern n)"
    by (simp add: load_int_def scribbled_at_def)
qed

lemma total_scribbled: "scribbled_at s p n \<Longrightarrow> total_bytes p n t s = Some (t + of_nat n * 0xAA)"
proof (induction n arbitrary: p t)
  case (Suc n)
  then have u: "unat (p + 1) = unat p + 1" by (intro unat_Suc) (simp add: scribbled_at_def)
  have "scribbled_at s (p + 1) n" "scribbled_at s p 1" by (rule scribbled_sub [OF Suc.prems]; simp add: u)+
  with Suc.IH load_scribbled show ?case by (simp add: algebra_simps)
qed simp

section \<open>Allocations with scribbling\<close>

text \<open>A payload whose bytes are scribbled, and a heap with what the list machine knows of it.\<close>

definition ptr :: "alloc_state \<Rightarrow> (nat \<times> nat) set \<Rightarrow> u64 \<Rightarrow> nat \<Rightarrow> bool" where
  "ptr s L p n \<longleftrightarrow> (unat p, n) \<in> L \<and> scribbled_at s p n"

definition heap :: "alloc_env \<Rightarrow> alloc_state \<Rightarrow> (nat \<times> nat) set \<Rightarrow> aheap \<Rightarrow> bool" where
  "heap env s L A \<longleftrightarrow> heap_run env s L \<and> refines s A \<and> good_env env \<and> scribble env \<and> unat (page_sz env) \<le> 2 ^ 32"

lemma malloc_heap:
  assumes H: "heap env s L A" and len: "len \<in> {4, 8, 5000}"
    and p: "spec_malloc env len A = (p, A')" "p \<noteq> 0"
  obtains s' L' where "malloc env len s = Some (p, s')" "heap env s' L' A'"
    "ptr s' L' p (unat (align8 len))" "\<And>q n. ptr s L q n \<Longrightarrow> ptr s' L' q n"
proof -
  have run: "heap_run env s L" and env: "good_env env" "scribble env" and sane: "sane_size env len"
    using H len by (auto simp: heap_def sane_size_def)
  have "page_ok env" "mmap_fresh env (areas (snd A)) (region_bytes env (align8 len))"
    using env(1) by (simp_all add: good_env_def)
  then obtain s' where s': "malloc env len s = Some (p, s')" "refines s' A'"
    using malloc_refines [of s A env len] H p(1) sane by (auto simp: heap_def)
  let ?y = "(unat p, unat (align8 len))"
  have run': "heap_run env s' (insert ?y L)" using run_malloc [OF run sane s'(1)] p(2) by (simp add: handed_out_def)
  from heap_run_simulates [OF run env(1)] obtain rs where rs: "alloc_inv s rs" "live rs = L"
    by (auto simp: simulates_def)
  from heap_run_simulates [OF run' env(1)] obtain rs' where rs': "alloc_inv s' rs'" "live rs' = insert ?y L"
    by (auto simp: simulates_def)
  have "malloc_gives env s rs (unat (align8 len)) p s'"
    using malloc_cases [OF rs(1), of env len] env sane p(2) s'(1) by (auto simp: good_env_def sane_size_def)
  then have keep: "\<And>x. in_live rs x \<Longrightarrow> bytes s' x = bytes s x"
    and new: "\<And>x. in_range p (unat (align8 len)) x \<Longrightarrow> bytes s' x = 0xAA"
    using env(2) unfolding malloc_gives_def by blast+
  show thesis
  proof (rule that [OF s'(1)])
    show "heap env s' (insert ?y L) A'" using H run' s'(2) by (simp add: heap_def)
    show "ptr s' (insert ?y L) p (unat (align8 len))"
      using live_mapped [OF rs'(1), of p] rs'(2) new by (simp add: ptr_def scribbled_at_def)
    show "ptr s' (insert ?y L) q n" if "ptr s L q n" for q n
    proof -
      have q: "(unat q, n) \<in> L" "scribbled_at s q n" using that by (auto simp: ptr_def)
      then have "bytes s' x = 0xAA" if "in_range q n x" for x
        using keep [of x] that rs(2) by (force simp: in_live_def in_range_def scribbled_at_def)
      with live_mapped [OF rs'(1), of q n] rs'(2) q(1) show ?thesis by (simp add: ptr_def scribbled_at_def)
    qed
  qed
qed

lemma store_refines:
  "\<lbrakk>store_le p n v s = Some s'; alloc_inv s rs; (q, m) \<in> live rs; q \<le> unat p; unat p + n \<le> q + m;
    unat p + n < 2 ^ 64\<rbrakk> \<Longrightarrow> alloc_inv s' rs \<and> g_allocations s' = g_allocations s"
proof (induction n arbitrary: p v s)
  case (Suc n)
  from Suc.prems(1) obtain s1 where s1: "memset p (of_nat v) 1 s = Some s1"
    "store_le (p + 1) n (v div 256) s1 = Some s'" by (auto split: bind_splits)
  have "unat p + unat (1 :: u64) \<le> q + m" using Suc.prems(5) by simp
  then have "alloc_inv s1 rs \<and> g_allocations s1 = g_allocations s"
    by (rule write_live [OF Suc.prems(2-4), where v = "of_nat v"]) (use s1(1) in simp)
  moreover have "unat (p + 1) = unat p + 1" using Suc.prems(6) by (intro unat_Suc) simp
  ultimately show ?case using Suc.IH [OF s1(2)] Suc.prems by simp
qed simp

lemma store_heap:
  assumes H: "heap env s L A" and p: "ptr s L p n" "m \<le> n"
  obtains s' where "store_le p m v s = Some s'" "heap env s' L A"
proof -
  have sc: "(unat p, n) \<in> L" "mapped s p n" "unat p + n < 2 ^ 64" using p(1) by (auto simp: ptr_def scribbled_at_def)
  have "mapped s p m" using sc(2) by (rule mapped_sub) (use p(2) in auto)
  then obtain s' where s': "store_le p m v s = Some s'" using store_le_ok [of s p m v] sc(3) p(2) by auto
  have run: "heap_run env s L" using H by (simp add: heap_def)
  from H obtain rs where rs: "alloc_inv s rs" "A = (g_allocations s, shape rs)" by (auto simp: heap_def refines_def)
  have L: "live rs = L"
    by (rule simulates_live [OF heap_run_simulates [OF run] rs(1)]) (use H in \<open>simp add: heap_def\<close>)
  have "alloc_inv s' rs \<and> g_allocations s' = g_allocations s"
    by (rule store_refines [OF s' rs(1), of "unat p" n]) (use sc p(2) L in auto)
  then have "refines s' A" using rs(2) by (auto simp: refines_def)
  moreover have "heap_run env s' L" by (rule store_le_run [OF s' run sc(1)]) (use sc p(2) in auto)
  ultimately show thesis using s' that H by (simp add: heap_def)
qed

lemma free_heap:
  assumes H: "heap env s L (n, bs)" and p: "(unat p, m) \<in> L" "in_use p bs"
  obtains s' where "free env p s = Some s'" "heap env s' (L - {(unat p, m)}) (n, spec_free (p - HDR) bs)"
proof -
  have R: "refines s (n, bs)" "\<And>m l. munmap_ok env m l" using H by (auto simp: heap_def good_env_def)
  from free_refines [OF R(1) p(2) R(2)] obtain s' where
    s': "free env p s = Some s'" "refines s' (n, spec_free (p - HDR) bs)" by blast
  have "heap_run env s' (L - {(unat p, m)})"
    by (rule run_free [OF _ _ s'(1)]) (use H p(1) in \<open>auto simp: heap_def\<close>)
  with s' H that show thesis by (simp add: heap_def)
qed

section \<open>The test stops at \<open>realloc\<close>\<close>

text \<open>What the program prints, as far as it gets, and the calls it makes until then.\<close>

definition scribble_lines :: "out_line list" where
  "scribble_lines =
    [Text ''Printing uninitialized variables:'', Dec (- 1431655766), Dec (- 1431655766),
     Dec (- 1431655766), Unsigned 12297829382473034410, Hex 0xAAAAAAAA, Hex 0xAAAAAAAAAAAAAAAA,
     Text ''Totalling up uninitialized arrays:'', Unsigned 850000]"

definition scribble_calls :: "call list" where
  "scribble_calls = [Malloc 4, Free 0, Malloc 4, Malloc 4, Malloc 8, Malloc 5000]"

lemma align8_sizes [simp]: "align8 4 = 8" "align8 8 = 8" "align8 5000 = 5000" "align8 10000 = 10000"
  by (simp_all add: align8_def)

lemma pattern_pos: "0 < n \<Longrightarrow> pattern n = 0xAA + 256 * pattern (n - 1)"
  by (cases n) simp_all

lemma patterns [simp]: "pattern 4 = 0xAAAAAAAA" "pattern 8 = 0xAAAAAAAAAAAAAAAA"
  by (simp_all add: pattern_pos)

lemma total_null:
  assumes "heap env s L A" "0 < n"
  shows "total_bytes 0 n t s = None"
proof -
  from assms(1) obtain rs where "alloc_inv s rs" by (auto simp: heap_def refines_def)
  then have "\<not> mapped s 0 1" by (rule mmap_wf) simp
  with assms(2) show ?thesis by (cases n) (simp_all add: load_int_def)
qed

lemma load_ptr:
  assumes "ptr s L p n" "m \<le> n"
  shows "load_int p m s = Some (pattern m)"
proof -
  from assms(1) have "scribbled_at s p n" by (simp add: ptr_def)
  then have "scribbled_at s p m" by (rule scribbled_sub) (use assms(2) in auto)
  then show ?thesis by (rule load_scribbled)
qed

lemma after_realloc_faults:
  assumes "heap env s L A" "arr \<noteq> 0"
  shows "faults (after_realloc env arr) s []"
proof -
  have "realloc env arr 10000 s = Some (0, s)" using assms(2) by (simp add: realloc_def)
  then show ?thesis unfolding after_realloc_def
    by (rule faults_call) (rule faults_here, rule total_null [OF assms(1)], simp)
qed

lemma print_pair_faults:
  assumes "heap env s L A" "ptr s L i 8" "ptr s L ul 8" "ptr s L arr 5000" "arr \<noteq> 0"
  shows "faults (print_pair env i ul arr) s (drop 3 scribble_lines)"
proof -
  have "load_int i 4 s = Some (pattern 4)" "load_int ul 8 s = Some (pattern 8)"
    using load_ptr [OF assms(2), of 4] load_ptr [OF assms(3), of 8] by simp_all
  moreover have "total_bytes arr 5000 0 s = Some 850000"
    using total_scribbled [of s arr 5000 0] assms(4) by (simp add: ptr_def)
  ultimately show ?thesis
    using after_realloc_faults [OF assms(1,5)]
    unfolding print_pair_def total_arrays_def scribble_lines_def
    by (simp add: faults_look faults_print)
qed

lemma second_half_faults:
  assumes H: "heap env s L A" and "spec_malloc env 4 A = (y, A1)" "spec_malloc env 4 A1 = (i, A2)"
    "spec_malloc env 8 A2 = (ul, A3)" "spec_malloc env 5000 A3 = (arr, A4)" "0 \<notin> {y, i, ul, arr}"
  shows "faults (second_half env) s (drop 2 scribble_lines)"
proof -
  obtain s1 L1 where 1: "malloc env 4 s = Some (y, s1)" "heap env s1 L1 A1" "ptr s1 L1 y 8"
    by (rule malloc_heap [OF H _ assms(2)]) (use assms(6) in auto)
  obtain s2 L2 where 2: "malloc env 4 s1 = Some (i, s2)" "heap env s2 L2 A2" "ptr s2 L2 i 8"
    by (rule malloc_heap [OF 1(2) _ assms(3)]) (use assms(6) in auto)
  obtain s3 L3 where 3: "malloc env 8 s2 = Some (ul, s3)" "heap env s3 L3 A3" "ptr s3 L3 ul 8" "ptr s3 L3 i 8"
    by (rule malloc_heap [OF 2(2) _ assms(4)]) (use assms(6) 2(3) in auto)
  obtain s4 L4 where 4: "malloc env 5000 s3 = Some (arr, s4)" "heap env s4 L4 A4" "ptr s4 L4 arr 5000"
    "ptr s4 L4 ul 8" "ptr s4 L4 i 8"
    by (rule malloc_heap [OF 3(2) _ assms(5)]) (use assms(6) 3(3,4) in auto)
  have "faults (print_pair env i ul arr) s4 (drop 3 scribble_lines)"
    by (rule print_pair_faults [OF 4(2) 4(5,4,3)]) (use assms(6) in auto)
  moreover have "drop 2 scribble_lines = Dec (- 1431655766) # drop 3 scribble_lines" by (simp add: scribble_lines_def)
  moreover have "load_int y 4 s1 = Some (pattern 4)" using 1(3) by (rule load_ptr) simp
  ultimately show ?thesis
    unfolding second_half_def using 1(1) 2(1) 3(1) 4(1) by (simp add: faults_call faults_look faults_print)
qed

text \<open>
  C27: The test of scribbling cannot pass. In every heap where the system has room for its
  allocations, the program scribble.c prints what its script expects of the scribbled integers and
  of the first array, -1431655766 three times and the total 850000 among them, and then touches
  memory that is not mapped: \<open>realloc\<close> gives a null pointer for the larger array and the program
  reads through it. The total 1700000 and the check of \<open>calloc\<close> are never printed.
\<close>

theorem scribble_test_faults:
  assumes "heap_run (env\<lparr>scribble := True\<rparr>) s L" "refines s A" "good_env (env\<lparr>scribble := True\<rparr>)"
    "unat (page_sz env) \<le> 2 ^ 32"
    and "spec_calls (env\<lparr>scribble := True\<rparr>) scribble_calls [] A = Some (ps, A')" "0 \<notin> set ps"
  shows "scribble_main env s = (scribble_lines, None)"
proof -
  let ?env = "env\<lparr>scribble := True\<rparr>"
  have H: "heap ?env s L A" using assms(1-4) by (simp add: heap_def)
  obtain x n bs where x: "spec_malloc ?env 4 A = (x, n, bs)" by (cases "spec_malloc ?env 4 A") auto
  let ?A = "(n, spec_free (x - HDR) bs)"
  obtain y A1 i A2 ul A3 arr A4 where r: "spec_malloc ?env 4 ?A = (y, A1)" "spec_malloc ?env 4 A1 = (i, A2)"
    "spec_malloc ?env 8 A2 = (ul, A3)" "spec_malloc ?env 5000 A3 = (arr, A4)" by (meson surj_pair)
  have use: "in_use x bs" and nz: "0 \<notin> {x, y, i, ul, arr}"
    using assms(5,6) x r by (auto simp: scribble_calls_def split: if_splits)
  obtain s1 L1 where 1: "malloc ?env 4 s = Some (x, s1)" "heap ?env s1 L1 (n, bs)" "ptr s1 L1 x 8"
    by (rule malloc_heap [OF H _ x]) (use nz in auto)
  have "(4 :: nat) \<le> 8" by simp
  then obtain s2 where 2: "store_le x 4 42 s1 = Some s2" "heap ?env s2 L1 (n, bs)"
    by (rule store_heap [OF 1(2,3)])
  have "(unat x, 8) \<in> L1" using 1(3) by (simp add: ptr_def)
  from free_heap [OF 2(2) this use] obtain s3 L3 where 3: "free ?env x s2 = Some s3" "heap ?env s3 L3 ?A" by blast
  have "faults (second_half ?env) s3 (drop 2 scribble_lines)"
    by (rule second_half_faults [OF 3(2) r]) (use nz in auto)
  moreover have "load_int x 4 s1 = Some (pattern 4)" using 1(3) by (rule load_ptr) simp
  ultimately have "faults (scribble_main env) s
      (Text ''Printing uninitialized variables:'' # Dec (- 1431655766) # drop 2 scribble_lines)"
    unfolding scribble_main_def Let_def using 1(1) 2(1) 3(1)
    by (simp add: faults_call faults_look faults_print faults_run)
  then show ?thesis by (simp add: faults_def scribble_lines_def)
qed

theorem scribble_test_faults_witness:
  "scribble_main demo_env alloc_init = (scribble_lines, None)"
proof -
  let ?env = "demo_env\<lparr>scribble := True\<rparr>"
  have "good_env ?env" using good_demo_env by (simp add: good_env_def page_ok_def mmap_fresh_def cong: option.case_cong)
  moreover have "unat (page_sz demo_env) \<le> 2 ^ 32" by (simp add: demo_env_def)
  moreover have "\<exists>A'. spec_calls ?env scribble_calls [] (0, []) =
      Some ([0x10030, 0x10030, 0x10068, 0x100A0, 0x20030], A')"
    by (simp add: scribble_calls_def spec_malloc_def spec_fit_def align8_def region_bytes_def areas_def
        fresh_block_def in_use_def spec_free_def upd_block_def all_free_at_def demo_env_def HDR_def Let_def area_sep_def)
  ultimately show ?thesis
    using scribble_test_faults [OF run_init refines_init] by fastforce
qed

end
