(* ===== verification/Scheduler.thy ===== *)
theory Scheduler
  imports Complex_Main C_Prelude
begin

text \<open>
  The CPU scheduler simulator, LabWork/Lab7/scheduler.c and scheduler.h: process control
  blocks, the user-level context switch, arrivals, the interrupt handler, the simulated
  process, the eight scheduling algorithms and the main loop.

  A \<open>ucontext_t\<close> is the point at which the code that is saved in it goes on (\<open>cont\<close>): main
  behind its call of \<open>interrupt_handler\<close>, the entry of \<open>process\<close>, the head of its loop, or a
  slice of its inner loop. \<open>control\<close> is the point that runs now. Resuming a context empties
  its slot, since the frame it describes is gone once it has run on; resuming an empty slot
  has no defined result. One step of the machine runs up to the next of these points; the
  alarm signal is an input of every step. The clock and \<open>rand\<close> are parameters.
\<close>

section \<open>Data\<close>

datatype process_state = CREATED | WAITING | RUNNING | TERMINATED

text \<open>Process \<open>p\<close> goes on at \<open>Head p\<close>, or with slice \<open>i\<close> of a work unit at \<open>Slice p i\<close>.\<close>

datatype cont = Main | Entry | Head nat | Slice nat nat | Done | Aborted

record pcb =
  pid :: u32
  name :: string
  state :: process_state
  ctx :: "cont option"
  creation_quantum :: u32
  workload :: u32
  executed_work :: u32
  prio :: u32
  arrival_time :: rat
  start_time :: rat
  completion_time :: rat

definition NUM_PROCESSES :: nat where
  "NUM_PROCESSES = 100"

definition empty_pcb :: pcb where
  "empty_pcb = \<lparr>pid = 0, name = [], state = CREATED, ctx = None, creation_quantum = 0,
     workload = 0, executed_work = 0, prio = 0, arrival_time = 0, start_time = 0,
     completion_time = 0\<rparr>"

text \<open>What the program prints about its scheduling, in order.\<close>

datatype event =
    Interrupt u32
  | Arrival string
  | Switch u32 nat
  | Starting u32 string u32
  | Terminated

text \<open>
  \<open>struct scheduler_state\<close>, with the other globals (\<open>g_interrupt\<close>, \<open>g_main_ctx\<close>), the point
  that runs now, how often the clock and \<open>rand\<close> were read, and the output.
\<close>

record sched =
  num_processes :: u32
  current_quantum :: u32
  current_process :: u32
  pcbs :: "pcb list"
  g_interrupt :: bool
  g_main_ctx :: "cont option"
  control :: cont
  ticks :: nat
  rands :: nat
  events :: "event list"

record sched_env =
  clock :: "nat \<Rightarrow> rat"
  rnd :: "nat \<Rightarrow> nat"

type_synonym algo = "sched_env \<Rightarrow> sched \<Rightarrow> sched option"

text \<open>The zeroed globals; main has set up nothing but its own context.\<close>

definition sched_init :: sched where
  "sched_init = \<lparr>num_processes = 0, current_quantum = 0, current_process = 0,
     pcbs = replicate NUM_PROCESSES empty_pcb, g_interrupt = False, g_main_ctx = None,
     control = Main, ticks = 0, rands = 0, events = []\<rparr>"

section \<open>The process table\<close>

definition pcb_at :: "sched \<Rightarrow> nat \<Rightarrow> pcb option" where
  "pcb_at s i = (if i < length (pcbs s) then Some (pcbs s ! i) else None)"

definition upd_pcb :: "nat \<Rightarrow> (pcb \<Rightarrow> pcb) \<Rightarrow> sched \<Rightarrow> sched" where
  "upd_pcb i f s = s\<lparr>pcbs := (pcbs s)[i := f (pcbs s ! i)]\<rparr>"

text \<open>What a loop over \<open>pcbs[0]\<close> to \<open>pcbs[num_processes - 1]\<close> reads.\<close>

definition procs :: "sched \<Rightarrow> pcb list option" where
  "procs s = (if unat (num_processes s) \<le> length (pcbs s)
     then Some (take (unat (num_processes s)) (pcbs s)) else None)"

abbreviation current :: "sched \<Rightarrow> nat" where
  "current s \<equiv> unat (current_process s)"

definition current_pcb :: "sched \<Rightarrow> pcb option" where
  "current_pcb s = pcb_at s (current s)"

definition emit :: "event \<Rightarrow> sched \<Rightarrow> sched" where
  "emit e s = s\<lparr>events := events s @ [e]\<rparr>"

text \<open>\<open>get_time\<close>: the next reading of the clock.\<close>

definition get_time :: "sched_env \<Rightarrow> sched \<Rightarrow> rat \<times> sched" where
  "get_time env s = (clock env (ticks s), s\<lparr>ticks := ticks s + 1\<rparr>)"

section \<open>The context switch\<close>

text \<open>\<open>setcontext\<close> of a slot of the process table, and of \<open>g_main_ctx\<close> (\<open>uc_link\<close>).\<close>

definition resume_pcb :: "nat \<Rightarrow> sched \<Rightarrow> sched option" where
  "resume_pcb i s = do {
     p \<leftarrow> pcb_at s i;
     c \<leftarrow> ctx p;
     Some ((upd_pcb i (\<lambda>p. p\<lparr>ctx := None\<rparr>) s)\<lparr>control := c\<rparr>)
   }"

definition resume_main :: "sched \<Rightarrow> sched option" where
  "resume_main s = do {
     c \<leftarrow> g_main_ctx s;
     Some (s\<lparr>g_main_ctx := None, control := c\<rparr>)
   }"

definition context_switch :: "nat \<Rightarrow> sched \<Rightarrow> sched option" where
  "context_switch i s =
     (if \<not> i < unat (num_processes s) then Some (s\<lparr>control := Aborted\<rparr>)
      else do {
        p \<leftarrow> pcb_at s i;
        old \<leftarrow> current_pcb s;
        if i = current s \<and> current_quantum s > 0
        then Some ((upd_pcb i (\<lambda>p. p\<lparr>state := RUNNING\<rparr>) s)
                     \<lparr>current_quantum := current_quantum s + 1\<rparr>)
        else do {
          let saved = (if current_quantum s = 0 \<or> state old = TERMINATED
                       then s\<lparr>g_main_ctx := Some (control s)\<rparr>
                       else upd_pcb (current s) (\<lambda>p. p\<lparr>ctx := Some (control s)\<rparr>) s);
          let running = (upd_pcb i (\<lambda>p. p\<lparr>state := RUNNING\<rparr>) saved)
                \<lparr>current_process := word_of_nat i, current_quantum := current_quantum s + 1\<rparr>;
          resume_pcb i (emit (Switch (pid old) i) running)
        }
      })"

section \<open>Arrivals and interrupts\<close>

definition arrive :: "sched_env \<Rightarrow> sched \<Rightarrow> nat \<Rightarrow> sched" where
  "arrive env s i =
     (if creation_quantum (pcbs s ! i) = current_quantum s
      then (let (now, s1) = get_time env s in
            emit (Arrival (name (pcbs s ! i)))
              (upd_pcb i (\<lambda>p. p\<lparr>state := WAITING, arrival_time := now, ctx := Some Entry\<rparr>) s1))
      else s)"

definition handle_arrivals :: "sched_env \<Rightarrow> sched \<Rightarrow> sched option" where
  "handle_arrivals env s = do {
     ps \<leftarrow> procs s;
     Some (foldl (arrive env) s [0..<length ps])
   }"

definition signal_handler :: "sched \<Rightarrow> sched" where
  "signal_handler s = s\<lparr>g_interrupt := True\<rparr>"

definition interrupt_handler :: "algo \<Rightarrow> sched_env \<Rightarrow> sched \<Rightarrow> sched option" where
  "interrupt_handler alg env s = do {
     let s1 = emit (Interrupt (current_quantum s)) (s\<lparr>g_interrupt := False\<rparr>);
     p \<leftarrow> current_pcb s1;
     let s2 = (if state p = RUNNING then upd_pcb (current s1) (\<lambda>p. p\<lparr>state := WAITING\<rparr>) s1 else s1);
     s3 \<leftarrow> handle_arrivals env s2;
     alg env s3
   }"

section \<open>The simulated process and the main loop\<close>

text \<open>The end of \<open>process\<close>: control goes to \<open>uc_link\<close>, the context of main.\<close>

definition process_exit :: "sched_env \<Rightarrow> nat \<Rightarrow> sched \<Rightarrow> sched option" where
  "process_exit env p s = (let (now, s1) = get_time env s in
     resume_main (emit Terminated
       (upd_pcb p (\<lambda>p. p\<lparr>state := TERMINATED, completion_time := now\<rparr>) s1)))"

definition process_entry :: "sched_env \<Rightarrow> sched \<Rightarrow> sched option" where
  "process_entry env s = do {
     p \<leftarrow> current_pcb s;
     let (now, s1) = get_time env s;
     Some (emit (Starting (pid p) (name p) (workload p))
             (upd_pcb (current s) (\<lambda>p. p\<lparr>start_time := now\<rparr>) s1)\<lparr>control := Head (current s)\<rparr>)
   }"

definition process_head :: "sched_env \<Rightarrow> nat \<Rightarrow> sched \<Rightarrow> sched option" where
  "process_head env p s = do {
     b \<leftarrow> pcb_at s p;
     if executed_work b < workload b then Some (s\<lparr>control := Slice p 0\<rparr>)
     else process_exit env p s
   }"

definition process_slice :: "algo \<Rightarrow> sched_env \<Rightarrow> nat \<Rightarrow> nat \<Rightarrow> sched \<Rightarrow> sched option" where
  "process_slice alg env p i s =
     (if i < 20
      then (let s1 = s\<lparr>control := Slice p (i + 1)\<rparr> in
            if g_interrupt s1 then interrupt_handler alg env s1 else Some s1)
      else do {
        _ \<leftarrow> pcb_at s p;
        Some ((upd_pcb p (\<lambda>b. b\<lparr>executed_work := executed_work b + 1\<rparr>) s)\<lparr>control := Head p\<rparr>)
      })"

text \<open>The test of main's loop behind \<open>interrupt_handler\<close>.\<close>

definition main_finished :: "sched \<Rightarrow> bool option" where
  "main_finished s =
     (if num_processes s > 0
      then do { ps \<leftarrow> procs s; Some (list_all (\<lambda>p. state p = TERMINATED) ps) }
      else Some False)"

definition main_loop :: "algo \<Rightarrow> sched_env \<Rightarrow> sched \<Rightarrow> sched option" where
  "main_loop alg env s = do {
     finished \<leftarrow> main_finished s;
     if finished then Some (s\<lparr>control := Done\<rparr>) else interrupt_handler alg env s
   }"

text \<open>One step; \<open>alarm\<close> says whether the signal arrives before it.\<close>

definition sched_step :: "algo \<Rightarrow> sched_env \<Rightarrow> bool \<Rightarrow> sched \<Rightarrow> sched option" where
  "sched_step alg env alarm s0 =
     (let s = (if alarm then signal_handler s0 else s0) in
      case control s of
        Main \<Rightarrow> main_loop alg env s
      | Entry \<Rightarrow> process_entry env s
      | Head p \<Rightarrow> process_head env p s
      | Slice p i \<Rightarrow> process_slice alg env p i s
      | Done \<Rightarrow> Some s0
      | Aborted \<Rightarrow> Some s0)"

fun sched_steps :: "algo \<Rightarrow> sched_env \<Rightarrow> bool list \<Rightarrow> sched \<Rightarrow> sched option" where
  "sched_steps alg env [] s = Some s"
| "sched_steps alg env (a # as) s = do { s' \<leftarrow> sched_step alg env a s; sched_steps alg env as s' }"

section \<open>The scheduling algorithms\<close>

text \<open>The first index of the table that satisfies a condition.\<close>

definition first_index :: "(nat \<Rightarrow> pcb \<Rightarrow> bool) \<Rightarrow> pcb list \<Rightarrow> nat option" where
  "first_index P ps = find (\<lambda>i. P i (ps ! i)) [0..<length ps]"

abbreviation waiting :: "pcb \<Rightarrow> bool" where
  "waiting p \<equiv> state p = WAITING"

definition basic :: algo where
  "basic env s = do {
     ps \<leftarrow> procs s;
     case first_index (\<lambda>_. waiting) ps of
       Some i \<Rightarrow> context_switch i s
     | None \<Rightarrow> Some s
   }"

text \<open>
  The loop of the other algorithms: the best key so far and its index, over the waiting
  processes. A variable that C leaves uninitialised is \<open>None\<close>.
\<close>

definition best_waiting ::
  "(u32 \<Rightarrow> u32 \<Rightarrow> bool) \<Rightarrow> (pcb \<Rightarrow> u32) \<Rightarrow> pcb list \<Rightarrow> u32 \<Rightarrow> nat option \<Rightarrow> nat option" where
  "best_waiting better key ps init pid0 =
     snd (foldl (\<lambda>(best, pid) i.
            if waiting (ps ! i) \<and> better (key (ps ! i)) best then (key (ps ! i), Some i)
            else (best, pid)) (init, pid0) [0..<length ps])"

definition fifo :: algo where
  "fifo env s = do {
     cur \<leftarrow> current_pcb s;
     if current_quantum s > 0 \<and> state cur = RUNNING then context_switch (current s) s
     else do {
       ps \<leftarrow> procs s;
       i \<leftarrow> best_waiting (<) creation_quantum ps (word_of_int INT_MAX) None;
       context_switch i s
     }
   }"

definition sjf :: algo where
  "sjf env s = do {
     ps \<leftarrow> procs s;
     i \<leftarrow> best_waiting (<) workload ps (word_of_int INT_MAX) (Some 0);
     context_switch i s
   }"

definition psjf :: algo where
  "psjf env s = do {
     cur \<leftarrow> current_pcb s;
     if current_quantum s > 0 \<and> waiting cur then context_switch (current s) s
     else do {
       ps \<leftarrow> procs s;
       i \<leftarrow> best_waiting (<) workload ps (word_of_int INT_MAX) (Some 0);
       context_switch i s
     }
   }"

definition sctf :: algo where
  "sctf env s = do {
     cur \<leftarrow> current_pcb s;
     if current_quantum s > 0 \<and> waiting cur then context_switch (current s) s
     else do {
       ps \<leftarrow> procs s;
       i \<leftarrow> best_waiting (<) (\<lambda>p. workload p - executed_work p) ps (word_of_int INT_MAX) (Some 0);
       context_switch i s
     }
   }"

definition rr :: algo where
  "rr env s = do {
     ps \<leftarrow> procs s;
     case first_index (\<lambda>i p. waiting p \<and> current s < i) ps of
       Some i \<Rightarrow> context_switch i s
     | None \<Rightarrow> (case first_index (\<lambda>_. waiting) ps of
         Some i \<Rightarrow> context_switch i s
       | None \<Rightarrow> Some s)
   }"

definition priority :: algo where
  "priority env s = do {
     ps \<leftarrow> procs s;
     i \<leftarrow> best_waiting (>) prio ps 0 (Some 0);
     context_switch i s
   }"

text \<open>The draws of \<open>insanity\<close>, until one names a waiting process; \<open>k\<close> counts them.\<close>

partial_function (option) insanity_loop :: "sched_env \<Rightarrow> pcb list \<Rightarrow> nat \<Rightarrow> (nat \<times> nat) option" where
  "insanity_loop env ps k =
     (let i = rnd env k mod length ps in
      if waiting (ps ! i) then Some (i, k + 1) else insanity_loop env ps (k + 1))"

definition insanity :: algo where
  "insanity env s = do {
     ps \<leftarrow> procs s;
     if ps = [] then None
     else do {
       (i, k) \<leftarrow> insanity_loop env ps (rands s);
       context_switch i (s\<lparr>rands := k\<rparr>)
     }
   }"

text \<open>The selection in \<open>main\<close>.\<close>

definition select_algo :: "string \<Rightarrow> algo" where
  "select_algo a =
     (if a = ''basic'' then basic
      else if a = ''fifo'' then fifo
      else if a = ''sjf'' then sjf
      else if a = ''psjf'' then psjf
      else if a = ''sctf'' then sctf
      else if a = ''rr'' then rr
      else if a = ''priority'' then priority
      else if a = ''insanity'' then insanity
      else basic)"

section \<open>The summary that main prints\<close>

definition turnaround :: "pcb \<Rightarrow> rat" where
  "turnaround p = completion_time p - arrival_time p"

definition response :: "pcb \<Rightarrow> rat" where
  "response p = start_time p - arrival_time p"

definition average :: "(pcb \<Rightarrow> rat) \<Rightarrow> pcb list \<Rightarrow> rat" where
  "average f ps = foldl (\<lambda>total p. total + f p) 0 ps / of_nat (length ps)"

text \<open>
  The sort of the completion order: the arrays \<open>times\<close> and \<open>names\<close> move together, so a list
  of pairs stands for them. \<open>bubble_pass\<close> is the inner loop.
\<close>

definition swap_if :: "(int \<times> string) list \<Rightarrow> nat \<Rightarrow> (int \<times> string) list" where
  "swap_if xs j = (if fst (xs ! (j + 1)) < fst (xs ! j)
     then xs[j := xs ! (j + 1), j + 1 := xs ! j] else xs)"

definition bubble_pass :: "(int \<times> string) list \<Rightarrow> (int \<times> string) list" where
  "bubble_pass xs = foldl swap_if xs [0..<length xs - 1]"

definition completion_order :: "pcb list \<Rightarrow> string list" where
  "completion_order ps =
     (let xs = map (\<lambda>p. (\<lfloor>completion_time p\<rfloor>, name p)) ps in
      map snd (((bubble_pass ^^ (length xs - 1)) xs)))"

end
