(* ===== verification/Sched_Inv.thy ===== *)
theory Sched_Inv
  imports Scheduler
begin

text \<open>
  The invariant of the scheduler: which contexts exist for which process states, and the
  context switch on it. \<open>inv_at run arr s\<close> serves both between the steps (the process that
  owns the control is \<open>RUNNING\<close>) and inside the interrupt handler (it is \<open>WAITING\<close>).
\<close>

section \<open>The state after an update\<close>

lemma upd_pcb_simps [simp]:
  "num_processes (upd_pcb i f s) = num_processes s"
  "current_quantum (upd_pcb i f s) = current_quantum s"
  "current_process (upd_pcb i f s) = current_process s"
  "g_interrupt (upd_pcb i f s) = g_interrupt s"
  "g_main_ctx (upd_pcb i f s) = g_main_ctx s"
  "control (upd_pcb i f s) = control s"
  "ticks (upd_pcb i f s) = ticks s"
  "rands (upd_pcb i f s) = rands s"
  "pcbs (upd_pcb i f s) = (pcbs s)[i := f (pcbs s ! i)]"
  by (simp_all add: upd_pcb_def)

lemma emit_simps [simp]:
  "num_processes (emit e s) = num_processes s"
  "current_quantum (emit e s) = current_quantum s"
  "current_process (emit e s) = current_process s"
  "g_interrupt (emit e s) = g_interrupt s"
  "g_main_ctx (emit e s) = g_main_ctx s"
  "control (emit e s) = control s"
  "rands (emit e s) = rands s"
  "pcbs (emit e s) = pcbs s"
  by (simp_all add: emit_def)

abbreviation num :: "sched \<Rightarrow> nat" where
  "num s \<equiv> unat (num_processes s)"

abbreviation quantum :: "sched \<Rightarrow> nat" where
  "quantum s \<equiv> unat (current_quantum s)"

section \<open>The invariant\<close>

definition table_ok :: "sched \<Rightarrow> bool" where
  "table_ok s \<longleftrightarrow> length (pcbs s) = NUM_PROCESSES \<and> 0 < num s \<and> num s \<le> NUM_PROCESSES
     \<and> current s < num s"

text \<open>The process whose code the control is in.\<close>

definition own :: "sched \<Rightarrow> nat \<Rightarrow> bool" where
  "own s i \<longleftrightarrow> (case control s of Entry \<Rightarrow> i = current s | Head p \<Rightarrow> i = p | Slice p _ \<Rightarrow> i = p
     | _ \<Rightarrow> False)"

definition at_ok :: "nat \<Rightarrow> pcb \<Rightarrow> cont \<Rightarrow> bool" where
  "at_ok i p c \<longleftrightarrow> (case c of Entry \<Rightarrow> executed_work p = 0 | Head j \<Rightarrow> j = i
     | Slice j k \<Rightarrow> j = i \<and> k \<le> 20 \<and> executed_work p < workload p | _ \<Rightarrow> False)"

definition pcb_ok :: "process_state \<Rightarrow> nat \<Rightarrow> sched \<Rightarrow> nat \<Rightarrow> pcb \<Rightarrow> bool" where
  "pcb_ok run arr s i p \<longleftrightarrow> executed_work p \<le> workload p
     \<and> (state p = CREATED \<longleftrightarrow> arr \<le> unat (creation_quantum p))
     \<and> (case state p of
          CREATED \<Rightarrow> ctx p = None \<and> \<not> own s i \<and> executed_work p = 0
        | TERMINATED \<Rightarrow> ctx p = None \<and> \<not> own s i \<and> executed_work p = workload p
        | WAITING \<Rightarrow> (if own s i then run = WAITING \<and> ctx p = None \<and> at_ok i p (control s)
                     else \<exists>c. ctx p = Some c \<and> at_ok i p c)
        | RUNNING \<Rightarrow> run = RUNNING \<and> own s i \<and> ctx p = None \<and> at_ok i p (control s))"

definition control_ok :: "sched \<Rightarrow> bool" where
  "control_ok s \<longleftrightarrow> (case control s of
      Main \<Rightarrow> g_main_ctx s = None
        \<and> (current_quantum s = 0 \<or> state (pcbs s ! current s) = TERMINATED)
    | Done \<Rightarrow> (\<forall>i < num s. state (pcbs s ! i) = TERMINATED)
    | Aborted \<Rightarrow> False
    | _ \<Rightarrow> g_main_ctx s = Some Main \<and> own s (current s) \<and> current_quantum s > 0)"

definition inv_at :: "process_state \<Rightarrow> nat \<Rightarrow> sched \<Rightarrow> bool" where
  "inv_at run arr s \<longleftrightarrow> table_ok s \<and> control_ok s \<and> (\<forall>i < num s. pcb_ok run arr s i (pcbs s ! i))"

abbreviation sched_inv :: "sched \<Rightarrow> bool" where
  "sched_inv s \<equiv> inv_at RUNNING (quantum s) s"

text \<open>What read_spec leaves behind.\<close>

definition loaded :: "sched \<Rightarrow> bool" where
  "loaded s \<longleftrightarrow> length (pcbs s) = NUM_PROCESSES \<and> 0 < num s \<and> num s \<le> NUM_PROCESSES
     \<and> current_process s = 0 \<and> current_quantum s = 0 \<and> g_main_ctx s = None \<and> control s = Main
     \<and> (\<forall>i < num s. state (pcbs s ! i) = CREATED \<and> ctx (pcbs s ! i) = None
          \<and> executed_work (pcbs s ! i) = 0)"

lemma loaded_inv: "loaded s \<Longrightarrow> sched_inv s"
  by (auto simp: loaded_def inv_at_def table_ok_def control_ok_def pcb_ok_def own_def)

lemma inv_procs: "inv_at run arr s \<Longrightarrow> procs s = Some (take (num s) (pcbs s))"
  by (simp add: inv_at_def table_ok_def procs_def)

lemma inv_current: "inv_at run arr s \<Longrightarrow> current_pcb s = Some (pcbs s ! current s)"
  by (simp add: inv_at_def table_ok_def current_pcb_def pcb_at_def)

text \<open>The process that owns the control is the current one.\<close>

lemma inv_own_current: "\<lbrakk>inv_at run arr s; own s i\<rbrakk> \<Longrightarrow> i = current s"
  by (auto simp: inv_at_def control_ok_def own_def split: cont.splits)

section \<open>The work that is left\<close>

text \<open>
  The steps a process still needs at a point of its code: one for the entry, one for each
  test at the loop head, 21 for each work unit.
\<close>

definition cost_at :: "pcb \<Rightarrow> cont \<Rightarrow> nat" where
  "cost_at p c = (let left = unat (workload p) - unat (executed_work p) in
     case c of Entry \<Rightarrow> 2 + 22 * left | Head _ \<Rightarrow> 1 + 22 * left
     | Slice _ k \<Rightarrow> (21 - k) + 1 + 22 * (left - 1) | _ \<Rightarrow> 0)"

definition position :: "sched \<Rightarrow> nat \<Rightarrow> cont" where
  "position s i = (if own s i then control s
     else case ctx (pcbs s ! i) of Some c \<Rightarrow> c | None \<Rightarrow> Entry)"

definition proc_cost :: "sched \<Rightarrow> nat \<Rightarrow> nat" where
  "proc_cost s i = (if state (pcbs s ! i) = TERMINATED then 0
     else 1 + cost_at (pcbs s ! i) (position s i))"

definition steps_left :: "sched \<Rightarrow> nat" where
  "steps_left s = (\<Sum>i < num s. proc_cost s i) + (if control s = Main then 1 else 0)"

text \<open>What never changes of a process: the fields that were read from the file.\<close>

definition static :: "pcb \<Rightarrow> string \<times> u32 \<times> u32 \<times> u32" where
  "static p = (name p, creation_quantum p, workload p, prio p)"

section \<open>The context switch\<close>

lemma pcb_ok_other:
  "\<lbrakk>pcb_ok run arr s j p; \<not> own s j; \<not> own s' j\<rbrakk> \<Longrightarrow> pcb_ok run' arr s' j p"
  by (auto simp: pcb_ok_def split: process_state.splits)

lemma at_ok_own: "\<lbrakk>at_ok i p c; control s = c; current s = i\<rbrakk> \<Longrightarrow> own s j \<longleftrightarrow> j = i"
  by (auto simp: at_ok_def own_def split: cont.splits)

lemma at_ok_not_main: "at_ok i p c \<Longrightarrow> c \<noteq> Main \<and> c \<noteq> Done \<and> c \<noteq> Aborted"
  by (auto simp: at_ok_def)

text \<open>The state after a switch to another context: \<open>c\<close> is the context that was resumed.\<close>

lemma switched:
  assumes inv: "inv_at WAITING (quantum s + 1) s" and i: "i < num s" "state (pcbs s ! i) = WAITING"
    and c: "ctx (pcbs s ! i) = Some c" "\<not> own s i"
    and s': "num s' = num s" "length (pcbs s') = length (pcbs s)" "current s' = i"
      "quantum s' = quantum s + 1" "control s' = c" "g_main_ctx s' = Some Main"
      "pcbs s' ! i = (pcbs s ! i)\<lparr>state := RUNNING, ctx := None\<rparr>"
    and others: "\<And>j. j < num s \<Longrightarrow> j \<noteq> i \<Longrightarrow> pcbs s' ! j =
      (if own s j then (pcbs s ! j)\<lparr>ctx := Some (control s)\<rparr> else pcbs s ! j)"
  shows "sched_inv s'" "\<And>j. j < num s \<Longrightarrow> proc_cost s' j = proc_cost s j"
    "\<And>j. j < num s \<Longrightarrow> static (pcbs s' ! j) = static (pcbs s ! j)"
proof -
  have table: "length (pcbs s) = NUM_PROCESSES" "num s \<le> NUM_PROCESSES" "current s < num s"
    and ok: "\<And>j. j < num s \<Longrightarrow> pcb_ok WAITING (quantum s + 1) s j (pcbs s ! j)"
    using inv by (auto simp: inv_at_def table_ok_def)
  have at: "at_ok i (pcbs s ! i) c" using ok [OF i(1)] i(2) c by (auto simp: pcb_ok_def)
  have own': "own s' j \<longleftrightarrow> j = i" for j using at_ok_own [OF at s'(5,3)] .
  have "table_ok s'" using table s' i by (simp add: table_ok_def)
  moreover have "current_quantum s' > 0" using s'(4) by (auto simp: word_gt_0)
  then have "control_ok s'"
    using at_ok_not_main [OF at] own' [of i] s'(3-6)
    by (auto simp: control_ok_def split: cont.splits)
  moreover have "pcb_ok RUNNING (quantum s') s' j (pcbs s' ! j)" if j: "j < num s" for j
  proof (cases "j = i")
    case True
    have "at_ok i (pcbs s' ! i) (control s')" using at s'(5,7) by (simp add: at_ok_def split: cont.splits)
    with True ok [OF i(1)] i(2) own' s'(4,7) show ?thesis by (auto simp: pcb_ok_def)
  next
    case False
    show ?thesis
    proof (cases "own s j")
      case True
      then have "state (pcbs s ! j) = WAITING" "at_ok j (pcbs s ! j) (control s)"
        using ok [OF j] by (auto simp: pcb_ok_def split: process_state.splits if_splits)
      with True False ok [OF j] own' others [OF j] s'(4) show ?thesis
        by (auto simp: pcb_ok_def at_ok_def split: cont.splits)
    next
      case False
      with \<open>j \<noteq> i\<close> show ?thesis
        using ok [OF j] others [OF j] own' s'(4) pcb_ok_other by simp
    qed
  qed
  ultimately show "sched_inv s'" using s'(1) by (simp add: inv_at_def)
  show "proc_cost s' j = proc_cost s j" if j: "j < num s" for j
  proof (cases "j = i")
    case True
    then show ?thesis
      using i(2) c s'(5,7) own'
      by (simp add: proc_cost_def position_def cost_at_def Let_def split: cont.splits)
  next
    case False
    then show ?thesis
      using others [OF j] own'
      by (auto simp: proc_cost_def position_def cost_at_def Let_def split: cont.splits option.splits)
  qed
  show "static (pcbs s' ! j) = static (pcbs s ! j)" if "j < num s" for j
    using others [OF that] s'(7) by (cases "j = i") (auto simp: static_def)
qed

definition switch_gives :: "sched \<Rightarrow> sched \<Rightarrow> bool" where
  "switch_gives s s' \<longleftrightarrow> sched_inv s' \<and> quantum s' = quantum s + 1 \<and> num s' = num s
     \<and> control s' \<noteq> Main \<and> (\<forall>j < num s. proc_cost s' j = proc_cost s j
         \<and> static (pcbs s' ! j) = static (pcbs s ! j))"

lemma context_switch_ok:
  assumes inv: "inv_at WAITING (quantum s + 1) s" and i: "i < num s" "state (pcbs s ! i) = WAITING"
    and q: "quantum s + 1 < 2 ^ 32"
  obtains s' where "context_switch i s = Some s'" "switch_gives s s'"
    "state (pcbs s' ! i) = RUNNING" "current s' = i"
proof -
  have table: "length (pcbs s) = NUM_PROCESSES" "num s \<le> NUM_PROCESSES" "current s < num s"
    and ctl: "control_ok s" and ok: "\<And>j. j < num s \<Longrightarrow> pcb_ok WAITING (quantum s + 1) s j (pcbs s ! j)"
    using inv by (auto simp: inv_at_def table_ok_def)
  have q1: "unat (current_quantum s + 1) = quantum s + 1"
    using q by (simp add: unat_word_ariths)
  have len: "i < length (pcbs s)" "current s < length (pcbs s)" using table i by simp_all
  have going: "control s \<noteq> Done" "control s \<noteq> Aborted"
    using ctl i by (auto simp: control_ok_def)
  have iw: "unat (word_of_nat i :: u32) = i"
    using i(1) table(2) by (simp add: NUM_PROCESSES_def unat_of_nat)
  show thesis
  proof (cases "i = current s \<and> current_quantum s > 0")
    case True
    let ?s = "(upd_pcb i (\<lambda>p. p\<lparr>state := RUNNING\<rparr>) s)\<lparr>current_quantum := current_quantum s + 1\<rparr>"
    have ctl': "control s \<noteq> Main" "control s \<noteq> Aborted" "control s \<noteq> Done" "own s i"
      using True ctl i by (auto simp: control_ok_def own_def split: cont.splits)
    have own: "own ?s j \<longleftrightarrow> own s j" for j by (simp add: own_def split: cont.splits)
    have at: "at_ok i (pcbs s ! i) (control s)"
      using ok [OF i(1)] ctl'(4) i(2) by (simp add: pcb_ok_def)
    have "pcb_ok RUNNING (quantum ?s) ?s j (pcbs ?s ! j)" if j: "j < num s" for j
    proof (cases "j = i")
      case True
      then show ?thesis
        using ok [OF i(1)] own ctl'(4) i(2) at q1 len
        by (auto simp: pcb_ok_def at_ok_def split: cont.splits)
    next
      case False
      then have "\<not> own s j" using inv_own_current [OF inv] True by blast
      with False ok [OF j] own q1 show ?thesis using pcb_ok_other by simp
    qed
    moreover have "table_ok ?s" using table i by (simp add: table_ok_def)
    moreover have "control_ok ?s"
    proof -
      have "current_quantum s + 1 > 0" using q1 by (simp add: word_less_nat_alt)
      with ctl ctl' own show ?thesis by (auto simp: control_ok_def split: cont.splits)
    qed
    ultimately have "sched_inv ?s" by (simp add: inv_at_def)
    moreover have "proc_cost ?s j = proc_cost s j \<and> static (pcbs ?s ! j) = static (pcbs s ! j)" for j
      using own i(2) len by (cases "j = i") (auto simp: proc_cost_def position_def cost_at_def
        static_def Let_def split: cont.splits option.splits)
    ultimately have "switch_gives s ?s" using q1 ctl' by (simp add: switch_gives_def)
    moreover have "context_switch i s = Some ?s"
      using True i inv_current [OF inv] len by (simp add: context_switch_def pcb_at_def)
    ultimately show thesis using True len by (intro that [of ?s]) auto
  next
    case False
    have nown: "\<not> own s i"
    proof
      assume "own s i"
      then have "i = current s" by (rule inv_own_current [OF inv])
      moreover have "current_quantum s > 0"
        using \<open>own s i\<close> ctl by (auto simp: control_ok_def own_def split: cont.splits)
      ultimately show False using False by blast
    qed
    then obtain c where c: "ctx (pcbs s ! i) = Some c"
      using ok [OF i(1)] i(2) by (auto simp: pcb_ok_def)
    let ?p = "pcbs s ! i" and ?e = "Switch (pid (pcbs s ! current s)) i"
    let ?run = "\<lambda>s0. (upd_pcb i (\<lambda>p. p\<lparr>state := RUNNING\<rparr>) s0)
      \<lparr>current_process := word_of_nat i, current_quantum := current_quantum s + 1\<rparr>"
    let ?res = "\<lambda>s0. (upd_pcb i (\<lambda>p. p\<lparr>ctx := None\<rparr>) (emit ?e (?run s0)))\<lparr>control := c\<rparr>"
    let ?to_main = "current_quantum s = 0 \<or> state (pcbs s ! current s) = TERMINATED"
    let ?saved = "if ?to_main then s\<lparr>g_main_ctx := Some (control s)\<rparr>
      else upd_pcb (current s) (\<lambda>p. p\<lparr>ctx := Some (control s)\<rparr>) s"
    have saved_i: "pcbs ?saved ! i = ?p"
    proof (cases ?to_main)
      case False
      then have "own s (current s)" using ctl going by (auto simp: control_ok_def split: cont.splits)
      then have "current s \<noteq> i" using nown by auto
      with False show ?thesis by simp
    qed simp
    have saved_len: "length (pcbs ?saved) = length (pcbs s)" by simp
    have "resume_pcb i (emit ?e (?run ?saved)) = Some (?res ?saved)"
      using saved_i len(1) c by (auto simp: resume_pcb_def pcb_at_def)
    then have run: "context_switch i s = Some (?res ?saved)"
      using False i inv_current [OF inv] len by (auto simp: context_switch_def pcb_at_def Let_def)
    have main: "?to_main \<longleftrightarrow> control s = Main"
    proof
      assume tm: ?to_main
      show "control s = Main"
      proof (rule ccontr)
        assume "control s \<noteq> Main"
        then have "own s (current s)" "current_quantum s > 0" "control s \<noteq> Done"
          using ctl i by (auto simp: control_ok_def split: cont.splits)
        then have "state (pcbs s ! current s) = TERMINATED" using tm by auto
        with ok [OF table(3)] \<open>own s (current s)\<close> show False by (simp add: pcb_ok_def)
      qed
    next
      assume "control s = Main"
      then show ?to_main using ctl by (simp add: control_ok_def)
    qed
    have pcbs': "pcbs (?res ?saved) = (pcbs ?saved)[i := ?p\<lparr>state := RUNNING, ctx := None\<rparr>]"
      using saved_i len(1) by auto
    have gm: "g_main_ctx ?saved = Some Main"
      using main ctl going by (auto simp: control_ok_def split: cont.splits)
    have others: "pcbs (?res ?saved) ! j
        = (if own s j then (pcbs s ! j)\<lparr>ctx := Some (control s)\<rparr> else pcbs s ! j)"
      if j: "j < num s" "j \<noteq> i" for j
    proof (cases ?to_main)
      case True
      then have "\<not> own s j" using main by (simp add: own_def)
      then show ?thesis using True j by (auto simp: pcbs')
    next
      case False
      then have "own s (current s)" using ctl going by (auto simp: control_ok_def split: cont.splits)
      then have "own s j \<longleftrightarrow> j = current s" using inv_own_current [OF inv, of j] by metis
      then show ?thesis using False j len by (auto simp: pcbs' nth_list_update)
    qed
    define t where "t = ?res ?saved"
    have t: "num t = num s" "length (pcbs t) = length (pcbs s)" "current t = i"
      "quantum t = quantum s + 1" "control t = c" "g_main_ctx t = Some Main"
      unfolding t_def using iw q1 gm by simp_all
    have ti: "pcbs t ! i = (pcbs s ! i)\<lparr>state := RUNNING, ctx := None\<rparr>"
      unfolding t_def pcbs' using len(1) by simp
    note fin = switched [OF inv i c nown t ti others [folded t_def]]
    have "c \<noteq> Main"
      using ok [OF i(1)] i(2) nown c at_ok_not_main by (auto simp: pcb_ok_def)
    then have "switch_gives s t" using fin t by (auto simp: switch_gives_def)
    with run [folded t_def] show thesis using ti t by (intro that [of t]) auto
  qed
qed

section \<open>Arrivals\<close>

definition arrived :: "sched \<Rightarrow> pcb \<Rightarrow> pcb \<Rightarrow> bool" where
  "arrived s p p' \<longleftrightarrow> (if creation_quantum p = current_quantum s
     then \<exists>t. p' = p\<lparr>state := WAITING, arrival_time := t, ctx := Some Entry\<rparr> else p' = p)"

definition same_but_pcbs :: "sched \<Rightarrow> sched \<Rightarrow> bool" where
  "same_but_pcbs s s' \<longleftrightarrow> num_processes s' = num_processes s
     \<and> current_quantum s' = current_quantum s \<and> current_process s' = current_process s
     \<and> g_interrupt s' = g_interrupt s \<and> g_main_ctx s' = g_main_ctx s \<and> control s' = control s
     \<and> rands s' = rands s \<and> length (pcbs s') = length (pcbs s)"

lemma arrive_loop:
  "n \<le> length (pcbs s) \<Longrightarrow> same_but_pcbs s (foldl (arrive env) s [0..<n])
     \<and> (\<forall>j < length (pcbs s). if j < n then arrived s (pcbs s ! j) (pcbs (foldl (arrive env) s [0..<n]) ! j)
          else pcbs (foldl (arrive env) s [0..<n]) ! j = pcbs s ! j)"
proof (induction n)
  case 0
  then show ?case by (simp add: same_but_pcbs_def)
next
  case (Suc n)
  let ?s = "foldl (arrive env) s [0..<n]"
  from Suc have IH: "same_but_pcbs s ?s"
    "\<And>j. j < length (pcbs s) \<Longrightarrow> j < n \<Longrightarrow> arrived s (pcbs s ! j) (pcbs ?s ! j)"
    "\<And>j. j < length (pcbs s) \<Longrightarrow> \<not> j < n \<Longrightarrow> pcbs ?s ! j = pcbs s ! j" by auto
  have n: "n < length (pcbs ?s)" using Suc.prems IH(1) by (simp add: same_but_pcbs_def)
  have step: "foldl (arrive env) s [0..<Suc n] = arrive env ?s n" by simp
  show ?case
  proof (cases "creation_quantum (pcbs ?s ! n) = current_quantum ?s")
    case False
    then have "arrive env ?s n = ?s" by (simp add: arrive_def)
    with False IH n show ?thesis
      unfolding step by (auto simp: less_Suc_eq same_but_pcbs_def arrived_def)
  next
    case True
    then show ?thesis
      using IH n unfolding step
      by (auto simp: arrive_def get_time_def same_but_pcbs_def arrived_def nth_list_update less_Suc_eq
          split: if_splits)
  qed
qed

lemma arrive_ok:
  assumes inv: "inv_at WAITING (quantum s) s"
  obtains s' where "handle_arrivals env s = Some s'" "inv_at WAITING (quantum s + 1) s'"
    "same_but_pcbs s s'" "\<And>j. j < num s \<Longrightarrow> arrived s (pcbs s ! j) (pcbs s' ! j)"
    "\<And>j. j < num s \<Longrightarrow> proc_cost s' j = proc_cost s j"
    "\<And>j. j < num s \<Longrightarrow> static (pcbs s' ! j) = static (pcbs s ! j)"
proof -
  let ?s = "foldl (arrive env) s [0..<num s]"
  have table: "length (pcbs s) = NUM_PROCESSES" "num s \<le> NUM_PROCESSES" "current s < num s" "0 < num s"
    and ctl: "control_ok s" and ok: "\<And>j. j < num s \<Longrightarrow> pcb_ok WAITING (quantum s) s j (pcbs s ! j)"
    using inv by (auto simp: inv_at_def table_ok_def)
  have n: "num s \<le> length (pcbs s)" using table by simp
  from arrive_loop [OF n, of env] n have same: "same_but_pcbs s ?s"
    and arr: "\<And>j. j < num s \<Longrightarrow> arrived s (pcbs s ! j) (pcbs ?s ! j)" by auto
  have own: "own ?s j \<longleftrightarrow> own s j" for j
    using same by (simp add: own_def same_but_pcbs_def split: cont.splits)
  have new: "state (pcbs s ! j) = CREATED \<and> ctx (pcbs s ! j) = None \<and> \<not> own s j
      \<and> executed_work (pcbs s ! j) = 0"
    if "j < num s" "creation_quantum (pcbs s ! j) = current_quantum s" for j
    using ok [OF that(1)] that(2) by (auto simp: pcb_ok_def)
  have pcb: "pcb_ok WAITING (quantum s + 1) ?s j (pcbs ?s ! j)" if j: "j < num s" for j
  proof (cases "creation_quantum (pcbs s ! j) = current_quantum s")
    case True
    with arr [OF j] obtain t where
      "pcbs ?s ! j = (pcbs s ! j)\<lparr>state := WAITING, arrival_time := t, ctx := Some Entry\<rparr>"
      by (auto simp: arrived_def)
    with new [OF j True] own True show ?thesis by (simp add: pcb_ok_def at_ok_def)
  next
    case False
    then have "creation_quantum (pcbs s ! j) \<noteq> current_quantum s" .
    then have "unat (creation_quantum (pcbs s ! j)) \<noteq> quantum s" by (simp add: word_unat_eq_iff)
    with False arr [OF j] ok [OF j] own same show ?thesis
      by (auto simp: arrived_def pcb_ok_def same_but_pcbs_def split: process_state.splits)
  qed
  have "state (pcbs ?s ! current s) = TERMINATED" if "state (pcbs s ! current s) = TERMINATED"
    using arr [OF table(3)] that new [OF table(3)] by (auto simp: arrived_def split: if_splits)
  moreover have "state (pcbs ?s ! j) = TERMINATED" if "state (pcbs s ! j) = TERMINATED" "j < num s" for j
    using arr [OF that(2)] that new [OF that(2)] by (auto simp: arrived_def split: if_splits)
  ultimately have "control_ok ?s"
    using ctl same own by (auto simp: control_ok_def same_but_pcbs_def split: cont.splits)
  then have "inv_at WAITING (quantum s + 1) ?s"
    using pcb table same by (auto simp: inv_at_def table_ok_def same_but_pcbs_def)
  moreover have "proc_cost ?s j = proc_cost s j \<and> static (pcbs ?s ! j) = static (pcbs s ! j)"
    if j: "j < num s" for j
  proof (cases "creation_quantum (pcbs s ! j) = current_quantum s")
    case True
    with arr [OF j] obtain t where
      "pcbs ?s ! j = (pcbs s ! j)\<lparr>state := WAITING, arrival_time := t, ctx := Some Entry\<rparr>"
      by (auto simp: arrived_def)
    with new [OF j True] own show ?thesis
      by (simp add: proc_cost_def position_def static_def cost_at_def)
  next
    case False
    with arr [OF j] own same show ?thesis
      by (simp add: arrived_def proc_cost_def position_def same_but_pcbs_def)
  qed
  moreover have "handle_arrivals env s = Some ?s"
    using inv_procs [OF inv] n by (simp add: handle_arrivals_def min_absorb2)
  ultimately show thesis using same arr by (intro that [of ?s]) auto
qed

end
