(* ===== verification/Sched_Run.thy ===== *)
theory Sched_Run
  imports Sched_Inv
begin

text \<open>
  The contract of a scheduling algorithm as an interface, and what it gives for the whole
  program: every step keeps the invariant and does exactly one unit of the work that is left.
\<close>

section \<open>The interrupt handler up to the call of the algorithm\<close>

definition interrupted :: "sched_env \<Rightarrow> sched \<Rightarrow> sched option" where
  "interrupted env s = do {
     let s1 = emit (Interrupt (current_quantum s)) (s\<lparr>g_interrupt := False\<rparr>);
     p \<leftarrow> current_pcb s1;
     let s2 = (if state p = RUNNING then upd_pcb (current s1) (\<lambda>p. p\<lparr>state := WAITING\<rparr>) s1 else s1);
     handle_arrivals env s2
   }"

lemma interrupt_handler_split:
  "interrupt_handler alg env s = do { s3 \<leftarrow> interrupted env s; alg env s3 }"
  by (simp add: interrupt_handler_def interrupted_def Let_def)

lemma inv_pcb: "\<lbrakk>inv_at run arr s; i < num s\<rbrakk> \<Longrightarrow> pcb_ok run arr s i (pcbs s ! i)"
  by (simp add: inv_at_def)

lemma own_inv_state:
  assumes "inv_at RUNNING arr s" "own s i" "i < num s"
  shows "state (pcbs s ! i) = RUNNING"
  using inv_pcb [OF assms(1,3)] assms(2)
  by (simp add: pcb_ok_def split: process_state.splits)

lemma running_own:
  assumes "inv_at run arr s" "i < num s" "state (pcbs s ! i) = RUNNING"
  shows "own s i"
  using inv_pcb [OF assms(1,2)] assms(3) by (simp add: pcb_ok_def)

lemma set_waiting_ok:
  assumes inv: "inv_at RUNNING (quantum s) s"
  defines "s2 \<equiv> if state (pcbs s ! current s) = RUNNING
    then upd_pcb (current s) (\<lambda>p. p\<lparr>state := WAITING\<rparr>) s else s"
  shows "inv_at WAITING (quantum s) s2" "same_but_pcbs s s2"
    "\<And>j. j < num s \<Longrightarrow> proc_cost s2 j = proc_cost s j"
    "\<And>j. j < num s \<Longrightarrow> static (pcbs s2 ! j) = static (pcbs s ! j)"
    "\<And>j. j < num s \<Longrightarrow> state (pcbs s2 ! j) = (if state (pcbs s ! j) = RUNNING then WAITING else state (pcbs s ! j))"
proof -
  have table: "length (pcbs s) = NUM_PROCESSES" "num s \<le> NUM_PROCESSES" "current s < num s" "0 < num s"
    and ctl: "control_ok s" and ok: "\<And>j. j < num s \<Longrightarrow> pcb_ok RUNNING (quantum s) s j (pcbs s ! j)"
    using inv by (auto simp: inv_at_def table_ok_def)
  have same: "same_but_pcbs s s2" by (simp add: same_but_pcbs_def s2_def)
  have own: "own s2 j \<longleftrightarrow> own s j" for j
    using same by (simp add: own_def same_but_pcbs_def split: cont.splits)
  have run: "state (pcbs s ! j) = RUNNING \<longleftrightarrow> own s j" if "j < num s" for j
    using own_inv_state [OF inv _ that] running_own [OF inv that] by blast
  have cur: "own s j \<Longrightarrow> j = current s" for j by (rule inv_own_current [OF inv])
  have pcb: "pcbs s2 ! j = (if own s j then (pcbs s ! j)\<lparr>state := WAITING\<rparr> else pcbs s ! j)"
    if "j < num s" for j
    using run [OF table(3)] cur [of j] table that
    by (cases "j = current s") (auto simp: s2_def)
  have ok2: "pcb_ok WAITING (quantum s) s2 j (pcbs s2 ! j)" if j: "j < num s" for j
  proof (cases "own s j")
    case True
    then have "state (pcbs s ! j) = RUNNING" using run [OF j] by simp
    with True ok [OF j] own pcb [OF j] same show ?thesis
      by (auto simp: pcb_ok_def at_ok_def same_but_pcbs_def split: cont.splits)
  next
    case False
    with ok [OF j] own pcb [OF j] show ?thesis using pcb_ok_other by simp
  qed
  have "state (pcbs s2 ! j) = TERMINATED \<longleftrightarrow> state (pcbs s ! j) = TERMINATED" if "j < num s" for j
    using pcb [OF that] run [OF that] by auto
  then have "control_ok s2"
    using ctl same own table(3) by (auto simp: control_ok_def same_but_pcbs_def split: cont.splits)
  then show "inv_at WAITING (quantum s) s2"
    using ok2 table same by (auto simp: inv_at_def table_ok_def same_but_pcbs_def)
  show "same_but_pcbs s s2" by (rule same)
  show "proc_cost s2 j = proc_cost s j" "static (pcbs s2 ! j) = static (pcbs s ! j)"
    "state (pcbs s2 ! j) = (if state (pcbs s ! j) = RUNNING then WAITING else state (pcbs s ! j))"
    if "j < num s" for j
    using pcb [OF that] run [OF that] own same
    by (auto simp: proc_cost_def position_def cost_at_def static_def Let_def same_but_pcbs_def
        split: cont.splits)
qed

text \<open>The prefix changes the printed lines and the interrupt flag, which the invariant ignores.\<close>

lemma inv_emit [simp]: "inv_at run arr (emit e s) \<longleftrightarrow> inv_at run arr s"
  by (simp add: inv_at_def table_ok_def control_ok_def pcb_ok_def own_def split: cont.splits process_state.splits)

lemma inv_flag [simp]: "inv_at run arr (s\<lparr>g_interrupt := b\<rparr>) \<longleftrightarrow> inv_at run arr s"
  by (simp add: inv_at_def table_ok_def control_ok_def pcb_ok_def own_def split: cont.splits process_state.splits)

lemma proc_cost_emit [simp]:
  "proc_cost (emit e s) j = proc_cost s j" "proc_cost (s\<lparr>g_interrupt := b\<rparr>) j = proc_cost s j"
  by (simp_all add: proc_cost_def position_def own_def split: cont.splits)

definition interrupt_gives :: "sched \<Rightarrow> sched \<Rightarrow> bool" where
  "interrupt_gives s s' \<longleftrightarrow> inv_at WAITING (quantum s + 1) s' \<and> num s' = num s
     \<and> quantum s' = quantum s \<and> current s' = current s \<and> control s' = control s
     \<and> (\<forall>j < num s. proc_cost s' j = proc_cost s j \<and> static (pcbs s' ! j) = static (pcbs s ! j)
         \<and> state (pcbs s' ! j) = (if creation_quantum (pcbs s ! j) = current_quantum s
             \<or> state (pcbs s ! j) = RUNNING then WAITING else state (pcbs s ! j)))"

lemma interrupted_ok:
  assumes inv: "sched_inv s"
  obtains s' where "interrupted env s = Some s'" "interrupt_gives s s'"
proof -
  define s1 where "s1 = emit (Interrupt (current_quantum s)) (s\<lparr>g_interrupt := False\<rparr>)"
  define s2 where "s2 = (if state (pcbs s1 ! current s1) = RUNNING
    then upd_pcb (current s1) (\<lambda>p. p\<lparr>state := WAITING\<rparr>) s1 else s1)"
  have s1: "num s1 = num s" "current_quantum s1 = current_quantum s" "current s1 = current s"
    "control s1 = control s" "pcbs s1 = pcbs s" "\<And>j. proc_cost s1 j = proc_cost s j"
    by (simp_all add: s1_def)
  have inv1: "inv_at RUNNING (quantum s1) s1" using inv by (simp add: s1_def)
  note w = set_waiting_ok [OF inv1, folded s2_def, unfolded s1]
  have q2: "num s2 = num s" "current_quantum s2 = current_quantum s"
    "control s2 = control s" "current s2 = current s"
    using w(2) s1 by (simp_all add: same_but_pcbs_def)
  have inv2: "inv_at WAITING (quantum s2) s2" using w(1) q2(2) by simp
  obtain s' where s': "handle_arrivals env s2 = Some s'" "inv_at WAITING (quantum s2 + 1) s'"
    "same_but_pcbs s2 s'" "\<And>j. j < num s2 \<Longrightarrow> arrived s2 (pcbs s2 ! j) (pcbs s' ! j)"
    "\<And>j. j < num s2 \<Longrightarrow> proc_cost s' j = proc_cost s2 j"
    "\<And>j. j < num s2 \<Longrightarrow> static (pcbs s' ! j) = static (pcbs s2 ! j)"
    using arrive_ok [OF inv2, of env] by blast
  note s'' = s'(2,4-6) [unfolded q2]
  have "interrupted env s = Some s'"
    unfolding interrupted_def s1_def [symmetric] Let_def
    using s'(1) inv_current [OF inv1] by (simp add: s2_def)
  moreover have "state (pcbs s' ! j) = (if creation_quantum (pcbs s ! j) = current_quantum s
             \<or> state (pcbs s ! j) = RUNNING then WAITING else state (pcbs s ! j))"
    if j: "j < num s" for j
  proof -
    have "creation_quantum (pcbs s2 ! j) = creation_quantum (pcbs s ! j)"
      using w(4) [OF j] by (simp add: static_def)
    then show ?thesis
      using s''(2) [OF j] w(5) [OF j] q2(2) by (auto simp: arrived_def split: if_splits)
  qed
  moreover have "num s' = num s" "quantum s' = quantum s" "current s' = current s"
    "control s' = control s"
    using s'(3) q2 by (simp_all add: same_but_pcbs_def)
  moreover have "proc_cost s' j = proc_cost s j \<and> static (pcbs s' ! j) = static (pcbs s ! j)"
    if "j < num s" for j
    using s''(3,4) [OF that] w(3,4) [OF that] by simp
  ultimately show thesis
    using s''(1) by (intro that [of s']) (simp_all add: interrupt_gives_def)
qed

section \<open>Steps of the running process\<close>

lemma sum_change_one:
  fixes f g :: "nat \<Rightarrow> nat"
  assumes "i < n" "\<And>j. j < n \<Longrightarrow> j \<noteq> i \<Longrightarrow> g j = f j"
  shows "(\<Sum>j < n. g j) + f i = (\<Sum>j < n. f j) + g i"
proof -
  have "(\<Sum>j \<in> {..<n} - {i}. g j) = (\<Sum>j \<in> {..<n} - {i}. f j)"
    using assms(2) by (intro sum.cong) auto
  then show ?thesis
    using assms(1) sum.remove [of "{..<n}" i f] sum.remove [of "{..<n}" i g] by simp
qed

text \<open>A step of the running process changes its own block and the control, nothing else.\<close>

definition own_change :: "sched \<Rightarrow> nat \<Rightarrow> pcb \<Rightarrow> cont \<Rightarrow> sched \<Rightarrow> bool" where
  "own_change s p b c s' \<longleftrightarrow> num_processes s' = num_processes s
     \<and> current_quantum s' = current_quantum s \<and> current_process s' = current_process s
     \<and> g_main_ctx s' = g_main_ctx s \<and> pcbs s' = (pcbs s)[p := b] \<and> control s' = c"

lemma own_step:
  assumes inv: "sched_inv s" and own: "own s p"
    and s': "own_change s p b c s'" and c: "c = Head p \<or> (\<exists>k. c = Slice p k)"
    and b: "state b = RUNNING" "ctx b = None" "static b = static (pcbs s ! p)"
      "executed_work b \<le> workload b" "at_ok p b c"
  shows "sched_inv s'" "\<And>j. static (pcbs s' ! j) = static (pcbs s ! j)"
    "steps_left s' + cost_at (pcbs s ! p) (control s) = steps_left s + cost_at b c"
proof -
  have table: "length (pcbs s) = NUM_PROCESSES" "num s \<le> NUM_PROCESSES" "current s < num s"
    and ctl: "control_ok s" using inv by (auto simp: inv_at_def table_ok_def)
  have p: "p = current s" by (rule inv_own_current [OF inv own])
  then have pn: "p < num s" "p < length (pcbs s)" using table by simp_all
  have ctl': "control s \<noteq> Main" "control s \<noteq> Done" "g_main_ctx s = Some Main" "current_quantum s > 0"
    using own ctl by (auto simp: own_def control_ok_def split: cont.splits)
  have own': "own s' j \<longleftrightarrow> j = p" for j
    using s' c by (auto simp: own_def own_change_def)
  have eqs: "num s' = num s" "quantum s' = quantum s" "current s' = current s" "control s' = c"
    "pcbs s' ! p = b" "\<And>j. j \<noteq> p \<Longrightarrow> pcbs s' ! j = pcbs s ! j" "length (pcbs s') = length (pcbs s)"
    using s' pn by (simp_all add: own_change_def)
  have st: "state (pcbs s ! p) = RUNNING" by (rule own_inv_state [OF inv own pn(1)])
  have "pcb_ok RUNNING (quantum s') s' j (pcbs s' ! j)" if j: "j < num s" for j
  proof (cases "j = p")
    case True
    have "creation_quantum b = creation_quantum (pcbs s ! p)" using b(3) by (simp add: static_def)
    with True inv_pcb [OF inv pn(1)] st b own' eqs show ?thesis by (auto simp: pcb_ok_def)
  next
    case False
    then have "\<not> own s j" using inv_own_current [OF inv] p by blast
    with False inv_pcb [OF inv j] own' eqs show ?thesis using pcb_ok_other by simp
  qed
  moreover have "control_ok s'"
    using c own' eqs p ctl'(3,4) s' by (auto simp: control_ok_def own_change_def)
  ultimately show "sched_inv s'" using table eqs inv by (simp add: inv_at_def table_ok_def)
  show "static (pcbs s' ! j) = static (pcbs s ! j)" for j
    using eqs b(3) by (cases "j = p") simp_all
  have others: "proc_cost s' j = proc_cost s j" if "j \<noteq> p" for j
  proof -
    have "\<not> own s j" using that inv_own_current [OF inv] p by blast
    with that own' eqs show ?thesis by (simp add: proc_cost_def position_def)
  qed
  have "(\<Sum>j < num s. proc_cost s' j) + proc_cost s p = (\<Sum>j < num s. proc_cost s j) + proc_cost s' p"
    using others by (intro sum_change_one pn) auto
  moreover have "proc_cost s p = 1 + cost_at (pcbs s ! p) (control s)"
    using st own by (simp add: proc_cost_def position_def)
  moreover have "proc_cost s' p = 1 + cost_at b c"
    using b(1) own' eqs by (simp add: proc_cost_def position_def)
  moreover have "control s' \<noteq> Main" using c eqs by auto
  ultimately show "steps_left s' + cost_at (pcbs s ! p) (control s) = steps_left s + cost_at b c"
    using ctl'(1) eqs by (simp add: steps_left_def)
qed

text \<open>What a step gives: the invariant, one unit of work less, and the same process table.\<close>

definition step_gives :: "sched \<Rightarrow> sched \<Rightarrow> bool" where
  "step_gives s s' \<longleftrightarrow> sched_inv s' \<and> num s' = num s \<and> quantum s' \<le> quantum s + 1
     \<and> (\<forall>j < num s. static (pcbs s' ! j) = static (pcbs s ! j)) \<and> steps_left s = steps_left s' + 1"

lemma entry_step:
  assumes inv: "sched_inv s" and c: "control s = Entry"
  shows "\<exists>s'. process_entry env s = Some s' \<and> step_gives s s'"
proof -
  let ?p = "current s"
  let ?b = "(pcbs s ! ?p)\<lparr>start_time := clock env (ticks s)\<rparr>"
  let ?s = "emit (Starting (pid (pcbs s ! ?p)) (name (pcbs s ! ?p)) (workload (pcbs s ! ?p)))
    (upd_pcb ?p (\<lambda>p. p\<lparr>start_time := clock env (ticks s)\<rparr>) (s\<lparr>ticks := ticks s + 1\<rparr>))
    \<lparr>control := Head ?p\<rparr>"
  have own: "own s ?p" using c by (simp add: own_def)
  have p: "?p < num s" using inv by (simp add: inv_at_def table_ok_def)
  note st = own_inv_state [OF inv own p]
  have ok: "executed_work (pcbs s ! ?p) = 0" "ctx (pcbs s ! ?p) = None"
    using inv_pcb [OF inv p] st c own by (auto simp: pcb_ok_def at_ok_def)
  have run: "process_entry env s = Some ?s"
    using inv_current [OF inv] by (simp add: process_entry_def get_time_def)
  have ch: "own_change s ?p ?b (Head ?p) ?s" by (simp add: own_change_def)
  note step = own_step [OF inv own ch]
  have "step_gives s ?s"
    unfolding step_gives_def using step(1,2) step(3) st ok c
    by (simp add: static_def at_ok_def cost_at_def Let_def)
  with run show ?thesis by blast
qed

lemma own_block:
  assumes inv: "sched_inv s" and own: "own s p"
  shows "p < num s" "p < length (pcbs s)" "pcb_at s p = Some (pcbs s ! p)"
    "state (pcbs s ! p) = RUNNING" "ctx (pcbs s ! p) = None" "at_ok p (pcbs s ! p) (control s)"
    "executed_work (pcbs s ! p) \<le> workload (pcbs s ! p)" "g_main_ctx s = Some Main"
    "control s \<noteq> Main"
proof -
  have table: "length (pcbs s) = NUM_PROCESSES" "num s \<le> NUM_PROCESSES" "current s < num s"
    and ctl: "control_ok s" using inv by (auto simp: inv_at_def table_ok_def)
  have "p = current s" by (rule inv_own_current [OF inv own])
  then show p: "p < num s" and "p < length (pcbs s)" using table by simp_all
  then show "pcb_at s p = Some (pcbs s ! p)" by (simp add: pcb_at_def)
  show st: "state (pcbs s ! p) = RUNNING" by (rule own_inv_state [OF inv own p])
  show "ctx (pcbs s ! p) = None" "at_ok p (pcbs s ! p) (control s)"
    "executed_work (pcbs s ! p) \<le> workload (pcbs s ! p)"
    using inv_pcb [OF inv p] st own by (auto simp: pcb_ok_def)
  show "g_main_ctx s = Some Main" "control s \<noteq> Main"
    using own ctl by (auto simp: own_def control_ok_def split: cont.splits)
qed

lemma exit_step:
  assumes inv: "sched_inv s" and c: "control s = Head p"
    and fin: "executed_work (pcbs s ! p) = workload (pcbs s ! p)"
  shows "\<exists>s'. process_exit env p s = Some s' \<and> step_gives s s'"
proof -
  have own: "own s p" using c by (simp add: own_def)
  note B = own_block [OF inv own]
  have p: "p = current s" by (rule inv_own_current [OF inv own])
  let ?b = "(pcbs s ! p)\<lparr>state := TERMINATED, completion_time := clock env (ticks s)\<rparr>"
  define t where "t = (emit Terminated (upd_pcb p
    (\<lambda>p. p\<lparr>state := TERMINATED, completion_time := clock env (ticks s)\<rparr>)
    (s\<lparr>ticks := ticks s + 1\<rparr>)))\<lparr>g_main_ctx := None, control := Main\<rparr>"
  have run: "process_exit env p s = Some t"
    using B(8) by (simp add: process_exit_def get_time_def resume_main_def t_def)
  have t: "num t = num s" "quantum t = quantum s" "current t = current s" "control t = Main"
    "g_main_ctx t = None" "pcbs t = (pcbs s)[p := ?b]" by (simp_all add: t_def)
  have nown: "\<not> own t j" for j using t(4) by (simp add: own_def)
  have ok: "pcb_ok RUNNING (quantum t) t j (pcbs t ! j)" if j: "j < num s" for j
  proof (cases "j = p")
    case True
    with inv_pcb [OF inv B(1)] B fin nown t show ?thesis by (simp add: pcb_ok_def)
  next
    case False
    then have "\<not> own s j" using inv_own_current [OF inv] p by blast
    with False inv_pcb [OF inv j] nown t show ?thesis using pcb_ok_other by simp
  qed
  have "control_ok t" using t p B(2) by (simp add: control_ok_def)
  then have "sched_inv t" using ok t inv by (simp add: inv_at_def table_ok_def)
  moreover have "static (pcbs t ! j) = static (pcbs s ! j)" for j
    using t(6) B(2) by (cases "j = p") (simp_all add: static_def)
  moreover have "steps_left s = steps_left t + 1"
  proof -
    have others: "proc_cost t j = proc_cost s j" if "j \<noteq> p" for j
    proof -
      have "\<not> own s j" using that inv_own_current [OF inv] p by blast
      with that nown t show ?thesis by (simp add: proc_cost_def position_def)
    qed
    have "(\<Sum>j < num s. proc_cost t j) + proc_cost s p = (\<Sum>j < num s. proc_cost s j) + proc_cost t p"
      using others by (intro sum_change_one B) auto
    moreover have "proc_cost s p = 2" "proc_cost t p = 0"
      using B own c fin t by (simp_all add: proc_cost_def position_def cost_at_def)
    ultimately show ?thesis using t B(9) by (simp add: steps_left_def)
  qed
  ultimately have "step_gives s t" using t by (simp add: step_gives_def)
  with run show ?thesis by blast
qed

lemma head_step:
  assumes inv: "sched_inv s" and c: "control s = Head p"
  shows "\<exists>s'. process_head env p s = Some s' \<and> step_gives s s'"
proof -
  have own: "own s p" using c by (simp add: own_def)
  note B = own_block [OF inv own]
  show ?thesis
  proof (cases "executed_work (pcbs s ! p) < workload (pcbs s ! p)")
    case True
    have ch: "own_change s p (pcbs s ! p) (Slice p 0) (s\<lparr>control := Slice p 0\<rparr>)"
      by (simp add: own_change_def)
    note step = own_step [OF inv own ch]
    have left: "unat (executed_work (pcbs s ! p)) < unat (workload (pcbs s ! p))"
      using True by (simp add: word_less_nat_alt)
    have "step_gives s (s\<lparr>control := Slice p 0\<rparr>)"
      unfolding step_gives_def using step(1,2) step(3) B True c left
      by (simp add: at_ok_def cost_at_def Let_def)
    then show ?thesis using True B(3) by (simp add: process_head_def)
  next
    case False
    then have "executed_work (pcbs s ! p) = workload (pcbs s ! p)" using B(7) by simp
    from exit_step [OF inv c this] False B(3) show ?thesis by (simp add: process_head_def)
  qed
qed

text \<open>A slice without its interrupt; the end of a work unit.\<close>

lemma slice_move:
  assumes inv: "sched_inv s" and c: "control s = Slice p i" and i: "i < 20"
  shows "step_gives s (s\<lparr>control := Slice p (i + 1)\<rparr>)"
proof -
  have own: "own s p" using c by (simp add: own_def)
  note B = own_block [OF inv own]
  have ch: "own_change s p (pcbs s ! p) (Slice p (i + 1)) (s\<lparr>control := Slice p (i + 1)\<rparr>)"
    by (simp add: own_change_def)
  note step = own_step [OF inv own ch]
  show ?thesis
    unfolding step_gives_def using step(1,2) step(3) B c i
    by (simp add: at_ok_def cost_at_def Let_def)
qed

lemma unit_step:
  assumes inv: "sched_inv s" and c: "control s = Slice p i" and i: "\<not> i < 20"
  shows "\<exists>s'. process_slice alg env p i s = Some s' \<and> step_gives s s'"
proof -
  have own: "own s p" using c by (simp add: own_def)
  note B = own_block [OF inv own]
  let ?b = "(pcbs s ! p)\<lparr>executed_work := executed_work (pcbs s ! p) + 1\<rparr>"
  let ?s = "(upd_pcb p (\<lambda>b. b\<lparr>executed_work := executed_work b + 1\<rparr>) s)\<lparr>control := Head p\<rparr>"
  have lt: "executed_work (pcbs s ! p) < workload (pcbs s ! p)" and i20: "i = 20"
    using B(6) c i by (auto simp: at_ok_def)
  have e: "unat (executed_work (pcbs s ! p) + 1) = unat (executed_work (pcbs s ! p)) + 1"
  proof -
    have "unat (workload (pcbs s ! p)) < 2 ^ 32" 
      using unsigned_less [of "workload (pcbs s ! p)"] by simp
    then have "unat (executed_work (pcbs s ! p)) + 1 < 2 ^ 32"
      using lt by (simp add: word_less_nat_alt)
    then show ?thesis by (simp add: unat_word_ariths)
  qed
  then have le: "executed_work (pcbs s ! p) + 1 \<le> workload (pcbs s ! p)"
    using lt by (simp add: word_le_nat_alt word_less_nat_alt)
  have ch: "own_change s p ?b (Head p) ?s" by (simp add: own_change_def)
  note step = own_step [OF inv own ch]
  have "step_gives s ?s"
    unfolding step_gives_def using step(1,2) step(3) B c i20 e le lt
    by (simp add: at_ok_def cost_at_def static_def Let_def word_less_nat_alt)
  then show ?thesis using i B(3) by (simp add: process_slice_def)
qed

lemma steps_left_pos:
  assumes inv: "sched_inv s" and "control s \<noteq> Done"
  shows "0 < steps_left s"
proof (cases "control s = Main")
  case True
  then show ?thesis by (simp add: steps_left_def)
next
  case False
  then have own: "own s (current s)" "current s < num s"
    using assms by (auto simp: inv_at_def control_ok_def table_ok_def split: cont.splits)
  then have "0 < proc_cost s (current s)"
    using own_block(4) [OF inv own(1)] by (simp add: proc_cost_def)
  moreover have "proc_cost s (current s) \<le> (\<Sum>i < num s. proc_cost s i)"
    using own(2) by (intro member_le_sum) auto
  ultimately show ?thesis by (simp add: steps_left_def)
qed

section \<open>Arrivals without a gap\<close>

text \<open>No idle gap: when control is back in main, work has arrived unless all is done.\<close>

definition no_gap :: "sched \<Rightarrow> bool" where
  "no_gap s \<longleftrightarrow> (control s = Main \<longrightarrow> (\<forall>i < num s. state (pcbs s ! i) = TERMINATED)
     \<or> (\<exists>i < num s. creation_quantum (pcbs s ! i) = current_quantum s \<or> waiting (pcbs s ! i)))"

text \<open>
  The processes that have terminated, and the one that runs: each of them has been switched to, and
  every switch begins a quantum.
\<close>

definition begun :: "sched \<Rightarrow> nat" where
  "begun s = card {j. j < num s \<and> state (pcbs s ! j) = TERMINATED}
     + (if control s = Main \<or> control s = Done then 0 else 1)"

text \<open>
  Enough processes arrive early: more than \<open>q\<close> are created up to quantum \<open>q\<close>, as long as there are
  more than \<open>q\<close>.
\<close>

definition steady_arrivals :: "sched \<Rightarrow> bool" where
  "steady_arrivals s \<longleftrightarrow> (\<forall>q < num s. q < card {j. j < num s \<and> unat (creation_quantum (pcbs s ! j)) \<le> q})"

lemma steady_early:
  assumes "steady_arrivals s" "j < num s"
  shows "unat (creation_quantum (pcbs s ! j)) < num s"
proof -
  let ?A = "{j. j < num s \<and> unat (creation_quantum (pcbs s ! j)) \<le> num s - 1}"
  have "num s - 1 < card ?A" using assms by (simp add: steady_arrivals_def)
  then have "?A = {..<num s}" by (intro card_seteq) auto
  then have "j \<in> ?A" using assms(2) by simp
  then show ?thesis by auto
qed

lemma no_gap_steady:
  assumes inv: "sched_inv s" and arr: "steady_arrivals s" and b: "begun s \<le> quantum s"
  shows "no_gap s"
  unfolding no_gap_def
proof (intro impI disjCI)
  assume c: "control s = Main"
    and none: "\<not> (\<exists>i < num s. creation_quantum (pcbs s ! i) = current_quantum s \<or> waiting (pcbs s ! i))"
  let ?T = "{j. j < num s \<and> state (pcbs s ! j) = TERMINATED}"
  have T: "card ?T \<le> quantum s" using b c by (simp add: begun_def)
  have ended: "state (pcbs s ! i) = TERMINATED" if i: "i < num s" "unat (creation_quantum (pcbs s ! i)) \<le> quantum s" for i
  proof -
    have "\<not> own s i" using c by (simp add: own_def)
    moreover have "unat (creation_quantum (pcbs s ! i)) \<noteq> quantum s" using none i(1) by (auto simp: word_unat_eq_iff)
    ultimately show ?thesis
      using inv_pcb [OF inv i(1)] none i by (cases "state (pcbs s ! i)") (auto simp: pcb_ok_def)
  qed
  show "\<forall>i < num s. state (pcbs s ! i) = TERMINATED"
  proof (cases "quantum s < num s")
    case True
    have "card {j. j < num s \<and> unat (creation_quantum (pcbs s ! j)) \<le> quantum s} \<le> card ?T"
      by (rule card_mono) (use ended in auto)
    with True arr T show ?thesis by (fastforce simp: steady_arrivals_def)
  next
    case False
    then show ?thesis using ended steady_early [OF arr] by fastforce
  qed
qed

lemma same_states_begun:
  assumes "num s' = num s" "\<forall>j < num s. state (pcbs s' ! j) = TERMINATED \<longleftrightarrow> state (pcbs s ! j) = TERMINATED"
  shows "card {j. j < num s' \<and> state (pcbs s' ! j) = TERMINATED} = card {j. j < num s \<and> state (pcbs s ! j) = TERMINATED}"
  using assms by (intro arg_cong [of _ _ card]) auto

lemma proc_cost_0: "proc_cost s j = 0 \<longleftrightarrow> state (pcbs s ! j) = TERMINATED"
  by (simp add: proc_cost_def)

lemma switch_begun:
  assumes "switch_gives s s'"
  shows "begun s' + quantum s \<le> begun s + quantum s'"
proof -
  have g: "num s' = num s" "quantum s' = quantum s + 1" "\<forall>j < num s. proc_cost s' j = proc_cost s j"
    using assms by (simp_all add: switch_gives_def)
  then have "card {j. j < num s' \<and> state (pcbs s' ! j) = TERMINATED} = card {j. j < num s \<and> state (pcbs s ! j) = TERMINATED}"
    by (intro same_states_begun) (simp_all flip: proc_cost_0)
  then show ?thesis using g(2) by (simp add: begun_def)
qed

lemma own_begun:
  assumes "num_processes s' = num_processes s" "current_quantum s' = current_quantum s"
    and "\<forall>j < num s. state (pcbs s' ! j) = state (pcbs s ! j)"
    and "control s' \<noteq> Main" "control s' \<noteq> Done" "control s \<noteq> Main" "control s \<noteq> Done"
  shows "begun s' + quantum s \<le> begun s + quantum s'"
proof -
  have "card {j. j < num s' \<and> state (pcbs s' ! j) = TERMINATED} = card {j. j < num s \<and> state (pcbs s ! j) = TERMINATED}"
    using assms(1,3) by (intro same_states_begun) simp_all
  then show ?thesis using assms by (simp add: begun_def)
qed

lemma exit_begun:
  assumes inv: "sched_inv s" and c: "control s = Head p" and run: "process_exit env p s = Some s'"
  shows "begun s' + quantum s \<le> begun s + quantum s'"
proof -
  have own: "own s p" using c by (simp add: own_def)
  note B = own_block [OF inv own]
  let ?T = "{j. j < num s \<and> state (pcbs s ! j) = TERMINATED}"
  have s': "num s' = num s" "quantum s' = quantum s" "control s' = Main"
    "\<And>j. j < num s \<Longrightarrow> state (pcbs s' ! j) = (if j = p then TERMINATED else state (pcbs s ! j))"
    using run B by (auto simp: process_exit_def get_time_def resume_main_def upd_pcb_def emit_def)
  have "{j. j < num s' \<and> state (pcbs s' ! j) = TERMINATED} \<subseteq> insert p ?T" using s'(1,4) by auto
  then have "card {j. j < num s' \<and> state (pcbs s' ! j) = TERMINATED} \<le> card (insert p ?T)" by (intro card_mono) auto
  also have "\<dots> \<le> card ?T + 1" by (simp add: card_insert_if)
  finally show ?thesis using s'(2,3) c by (simp add: begun_def)
qed

lemma steady_static:
  "\<lbrakk>num s' = num s; \<forall>j < num s. static (pcbs s' ! j) = static (pcbs s ! j); steady_arrivals s\<rbrakk> \<Longrightarrow> steady_arrivals s'"
proof -
  assume a: "num s' = num s" "\<forall>j < num s. static (pcbs s' ! j) = static (pcbs s ! j)" "steady_arrivals s"
  then have "{j. j < num s' \<and> unat (creation_quantum (pcbs s' ! j)) \<le> q} = {j. j < num s \<and> unat (creation_quantum (pcbs s ! j)) \<le> q}" for q
    by (auto simp: static_def)
  with a(1,3) show ?thesis by (simp add: steady_arrivals_def)
qed

section \<open>The contract of a scheduling algorithm\<close>

text \<open>
  What the interrupt handler relies on: in a state it has prepared, if some process is waiting,
  the algorithm switches to a waiting process. \<open>env_ok\<close> and \<open>needs\<close> are what the algorithm
  expects of the random numbers and of the process specifications.
\<close>

locale sched_policy =
  fixes alg :: algo
    and env_ok :: "sched_env \<Rightarrow> bool"
    and needs :: "pcb \<Rightarrow> bool"
  assumes needs_static: "static p = static q \<Longrightarrow> needs p \<longleftrightarrow> needs q"
    and picks: "\<lbrakk>env_ok env; inv_at WAITING (quantum s + 1) s; \<forall>j < num s. needs (pcbs s ! j);
      i < num s; waiting (pcbs s ! i)\<rbrakk> \<Longrightarrow>
      \<exists>j k. j < num s \<and> waiting (pcbs s ! j) \<and> alg env s = context_switch j (s\<lparr>rands := k\<rparr>)"
begin

lemma inv_rands [simp]: "inv_at run arr (s\<lparr>rands := k\<rparr>) \<longleftrightarrow> inv_at run arr s"
  by (simp add: inv_at_def table_ok_def control_ok_def pcb_ok_def own_def split: cont.splits process_state.splits)

lemma proc_cost_rands [simp]: "proc_cost (s\<lparr>rands := k\<rparr>) j = proc_cost s j"
  by (simp add: proc_cost_def position_def own_def split: cont.splits)

lemma interrupt_switches:
  assumes env: "env_ok env" and inv: "sched_inv s" and needs: "\<forall>j < num s. needs (pcbs s ! j)"
    and q: "quantum s + 1 < 2 ^ 32"
    and i: "i < num s" "creation_quantum (pcbs s ! i) = current_quantum s
        \<or> state (pcbs s ! i) = RUNNING \<or> state (pcbs s ! i) = WAITING"
  obtains s' where "interrupt_handler alg env s = Some s'" "switch_gives s s'"
proof -
  obtain t where t: "interrupted env s = Some t" "interrupt_gives s t"
    by (rule interrupted_ok [OF inv])
  note g = t(2) [unfolded interrupt_gives_def]
  have "\<forall>j < num t. needs (pcbs t ! j)" using g needs needs_static by metis
  moreover have "i < num t" "waiting (pcbs t ! i)" using g i by auto
  ultimately obtain j k where j: "j < num t" "waiting (pcbs t ! j)"
    "alg env t = context_switch j (t\<lparr>rands := k\<rparr>)"
    using picks [of env t i] env g by auto
  obtain s' where s': "context_switch j (t\<lparr>rands := k\<rparr>) = Some s'" "switch_gives (t\<lparr>rands := k\<rparr>) s'"
    by (rule context_switch_ok [of "t\<lparr>rands := k\<rparr>" j]) (use g j q in auto)
  have "interrupt_handler alg env s = Some s'"
    using t(1) j(3) s'(1) by (simp add: interrupt_handler_split)
  moreover have "switch_gives s s'" using s'(2) g by (auto simp: switch_gives_def)
  ultimately show thesis by (rule that)
qed

lemma slice_step:
  assumes env: "env_ok env" and inv: "sched_inv s" and needs: "\<forall>j < num s. needs (pcbs s ! j)"
    and q: "quantum s + 1 < 2 ^ 32" and c: "control s = Slice p i"
  shows "\<exists>s'. process_slice alg env p i s = Some s' \<and> step_gives s s'"
proof (cases "i < 20")
  case False
  from unit_step [OF inv c this] show ?thesis .
next
  case True
  let ?t = "s\<lparr>control := Slice p (i + 1)\<rparr>"
  have move: "step_gives s ?t" by (rule slice_move [OF inv c True])
  show ?thesis
  proof (cases "g_interrupt s")
    case False
    then show ?thesis using move True by (simp add: process_slice_def)
  next
    case int: True
    have inv': "sched_inv ?t" using move by (simp add: step_gives_def)
    have "own ?t p" by (simp add: own_def)
    note B = own_block [OF inv' this]
    have "\<forall>j < num ?t. needs (pcbs ?t ! j)" using needs by simp
    from interrupt_switches [OF env inv' this, of p] obtain s' where
      s': "interrupt_handler alg env ?t = Some s'" "switch_gives ?t s'"
      using B(1,4) q by auto
    have "(\<Sum>j < num s. proc_cost s' j) = (\<Sum>j < num s. proc_cost ?t j)"
      using s'(2) by (intro sum.cong) (auto simp: switch_gives_def)
    then have "steps_left s' = steps_left ?t"
      using s'(2) by (simp add: switch_gives_def steps_left_def)
    with move s' have "step_gives s s'" by (auto simp: step_gives_def switch_gives_def)
    then show ?thesis using s'(1) True int by (simp add: process_slice_def)
  qed
qed

lemma main_finished_iff:
  assumes "inv_at run arr s"
  shows "main_finished s = Some (\<forall>i < num s. state (pcbs s ! i) = TERMINATED)"
proof -
  have t: "0 < num s" "num s \<le> length (pcbs s)" using assms by (auto simp: inv_at_def table_ok_def)
  then have "num_processes s > 0" by (simp add: word_less_nat_alt)
  with inv_procs [OF assms] t show ?thesis
    by (simp add: main_finished_def list_all_length)
qed

lemma main_step:
  assumes env: "env_ok env" and inv: "sched_inv s" and needs: "\<forall>j < num s. needs (pcbs s ! j)"
    and q: "quantum s + 1 < 2 ^ 32" and c: "control s = Main" and gap: "no_gap s"
  shows "\<exists>s'. main_loop alg env s = Some s' \<and> step_gives s s'"
proof (cases "\<forall>i < num s. state (pcbs s ! i) = TERMINATED")
  case True
  let ?s = "s\<lparr>control := Done\<rparr>"
  have own: "\<not> own s j" "\<not> own ?s j" for j using c by (simp_all add: own_def)
  have "pcb_ok RUNNING (quantum ?s) ?s j (pcbs ?s ! j)" if "j < num ?s" for j
    using inv_pcb [OF inv, of j] that own pcb_ok_other [of RUNNING "quantum s" s j "pcbs s ! j" ?s]
    by simp
  then have "sched_inv ?s" using True inv by (simp add: inv_at_def table_ok_def control_ok_def)
  moreover have "proc_cost s j = 0" "proc_cost ?s j = 0" if "j < num s" for j
    using True that by (simp_all add: proc_cost_def)
  then have "steps_left s = steps_left ?s + 1" using c by (simp add: steps_left_def)
  ultimately have "step_gives s ?s" by (simp add: step_gives_def)
  then show ?thesis using True main_finished_iff [OF inv] by (simp add: main_loop_def)
next
  case False
  then obtain i where i: "i < num s" "creation_quantum (pcbs s ! i) = current_quantum s \<or> waiting (pcbs s ! i)"
    using gap c by (auto simp: no_gap_def)
  then obtain s' where s': "interrupt_handler alg env s = Some s'" "switch_gives s s'"
    using interrupt_switches [OF env inv needs q, of i] by blast
  have "(\<Sum>j < num s. proc_cost s' j) = (\<Sum>j < num s. proc_cost s j)"
    using s'(2) by (intro sum.cong) (auto simp: switch_gives_def)
  then have "steps_left s = steps_left s' + 1"
    using s'(2) c by (simp add: switch_gives_def steps_left_def)
  then have "step_gives s s'" using s'(2) by (auto simp: step_gives_def switch_gives_def)
  then show ?thesis using s'(1) False main_finished_iff [OF inv] by (auto simp: main_loop_def)
qed

lemma step_ok:
  assumes env: "env_ok env" and inv: "sched_inv s" and needs: "\<forall>j < num s. needs (pcbs s ! j)"
    and q: "quantum s + 1 < 2 ^ 32" and gap: "no_gap s" and "control s \<noteq> Done"
  shows "\<exists>s'. sched_step alg env a s = Some s' \<and> step_gives s s'"
proof -
  define t where "t = (if a then signal_handler s else s)"
  have t: "sched_inv t" "num t = num s" "quantum t = quantum s" "control t = control s"
    "pcbs t = pcbs s" "\<And>j. proc_cost t j = proc_cost s j" "current_quantum t = current_quantum s"
    using inv by (simp_all add: t_def signal_handler_def)
  then have gives: "step_gives t s' \<longleftrightarrow> step_gives s s'" for s'
    by (simp add: step_gives_def steps_left_def)
  have needs': "\<forall>j < num t. needs (pcbs t ! j)" and q': "quantum t + 1 < 2 ^ 32" and gap': "no_gap t"
    using needs q gap t by (simp_all add: no_gap_def)
  have "control s \<noteq> Aborted" using inv by (auto simp: inv_at_def control_ok_def)
  then show ?thesis
    using main_step [OF env t(1) needs' q' _ gap'] entry_step [OF t(1), of env] head_step [OF t(1), of _ env]
      slice_step [OF env t(1) needs' q'] t(4) gives \<open>control s \<noteq> Done\<close>
    by (cases "control s") (auto simp: sched_step_def t_def [symmetric] Let_def)
qed

lemma step_begun:
  assumes env: "env_ok env" and inv: "sched_inv s" and needs: "\<forall>j < num s. needs (pcbs s ! j)"
    and q: "quantum s + 1 < 2 ^ 32" and gap: "no_gap s" and nd: "control s \<noteq> Done"
    and step: "sched_step alg env a s = Some s'"
  shows "begun s' + quantum s \<le> begun s + quantum s'"
proof -
  define t where "t = (if a then signal_handler s else s)"
  have t: "sched_inv t" "num t = num s" "quantum t = quantum s" "control t = control s" "pcbs t = pcbs s"
    "begun t = begun s" "no_gap t"
    using inv gap by (simp_all add: t_def signal_handler_def begun_def no_gap_def)
  have needs': "\<forall>j < num t. needs (pcbs t ! j)" and q': "quantum t + 1 < 2 ^ 32" using needs q t by simp_all
  have nd': "control t \<noteq> Done" "control t \<noteq> Aborted" using nd t(1,4) by (auto simp: inv_at_def control_ok_def)
  have "begun s' + quantum t \<le> begun t + quantum s'"
  proof (cases "control t")
    case Main
    then have ml: "main_loop alg env t = Some s'" using step t(4) by (simp add: sched_step_def t_def)
    show ?thesis
    proof (cases "\<forall>i < num t. state (pcbs t ! i) = TERMINATED")
      case True
      then have "s' = t\<lparr>control := Done\<rparr>" using ml main_finished_iff [OF t(1)] by (simp add: main_loop_def)
      then show ?thesis using Main by (simp add: begun_def)
    next
      case False
      then obtain i where "i < num t" "creation_quantum (pcbs t ! i) = current_quantum t \<or> waiting (pcbs t ! i)"
        using t(7) Main by (auto simp: no_gap_def)
      then obtain s'' where "interrupt_handler alg env t = Some s''" "switch_gives t s''"
        using interrupt_switches [OF env t(1) needs' q', of i] by blast
      then show ?thesis using ml False main_finished_iff [OF t(1)] switch_begun by (auto simp: main_loop_def)
    qed
  next
    case Entry
    have "current t < length (pcbs t)" using t(1) by (simp add: inv_at_def table_ok_def)
    then show ?thesis
      using Entry step t(4) inv_current [OF t(1)]
      by (intro own_begun)
        (auto simp: sched_step_def t_def [symmetric] process_entry_def get_time_def Let_def upd_pcb_def emit_def nth_list_update)
  next
    case (Head p)
    then have h: "process_head env p t = Some s'" using step t(4) by (simp add: sched_step_def t_def)
    have own: "own t p" using Head by (simp add: own_def)
    note B = own_block [OF t(1) own]
    show ?thesis
    proof (cases "executed_work (pcbs t ! p) < workload (pcbs t ! p)")
      case True
      then show ?thesis using h B(3) Head by (auto simp: process_head_def begun_def)
    next
      case False
      then have "process_exit env p t = Some s'" using h B(3) by (simp add: process_head_def)
      from exit_begun [OF t(1) Head this] show ?thesis .
    qed
  next
    case (Slice p i)
    then have h: "process_slice alg env p i t = Some s'" using step t(4) by (simp add: sched_step_def t_def)
    have own: "own t p" using Slice by (simp add: own_def)
    note B = own_block [OF t(1) own]
    show ?thesis
    proof (cases "i < 20 \<and> g_interrupt t")
      case False
      then show ?thesis using h Slice B
        by (intro own_begun) (auto simp: process_slice_def Let_def upd_pcb_def nth_list_update split: if_splits)
    next
      case True
      let ?t = "t\<lparr>control := Slice p (i + 1)\<rparr>"
      have inv': "sched_inv ?t" using slice_move [OF t(1) Slice] True by (simp add: step_gives_def)
      have "own ?t p" by (simp add: own_def)
      note B' = own_block [OF inv' this]
      have "\<forall>j < num ?t. needs (pcbs ?t ! j)" using needs' by simp
      from interrupt_switches [OF env inv' this, of p] obtain s'' where
        s'': "interrupt_handler alg env ?t = Some s''" "switch_gives ?t s''" using B'(1,4) q' by auto
      then have "s'' = s'" using h True by (simp add: process_slice_def Let_def)
      with switch_begun [OF s''(2)] Slice show ?thesis by (simp add: begun_def)
    qed
  qed (use nd' in auto)
  then show ?thesis using t(3,6) by simp
qed

lemma run_finishes:
  assumes env: "env_ok env" and "sched_inv s" "\<forall>j < num s. needs (pcbs s ! j)"
    "steady_arrivals s" "begun s \<le> quantum s"
    "quantum s + steps_left s < 2 ^ 32" "steps_left s \<le> length as"
  shows "\<exists>s'. sched_steps alg env as s = Some s' \<and> control s' = Done \<and> sched_inv s' \<and> num s' = num s
    \<and> (\<forall>j < num s. static (pcbs s' ! j) = static (pcbs s ! j))"
  using assms(2-)
proof (induction as arbitrary: s)
  case Nil
  then have "control s = Done" using steps_left_pos [OF Nil.prems(1)] by auto
  with Nil show ?case by simp
next
  case (Cons a as)
  show ?case
  proof (cases "control s = Done")
    case True
    then have "sched_step alg env a s = Some s"
      by (simp add: sched_step_def signal_handler_def)
    moreover have "steps_left s = 0"
      using True Cons.prems(1) by (simp add: steps_left_def proc_cost_def inv_at_def control_ok_def)
    ultimately show ?thesis using Cons.IH [OF Cons.prems(1-4)] Cons.prems(5) by simp
  next
    case False
    have "quantum s + 1 < 2 ^ 32 \<or> steps_left s = 0" using Cons.prems(5) by linarith
    moreover have "0 < steps_left s" by (rule steps_left_pos [OF Cons.prems(1) False])
    ultimately have q: "quantum s + 1 < 2 ^ 32" by simp
    have gap: "no_gap s" by (rule no_gap_steady [OF Cons.prems(1,3,4)])
    obtain s' where s': "sched_step alg env a s = Some s'" "step_gives s s'"
      using step_ok [OF env Cons.prems(1,2) q gap False] by blast
    have st: "sched_inv s'" "num s' = num s" "\<forall>j < num s. static (pcbs s' ! j) = static (pcbs s ! j)"
      "quantum s' \<le> quantum s + 1" "steps_left s = steps_left s' + 1"
      using s'(2) by (simp_all add: step_gives_def)
    have "\<forall>j < num s'. needs (pcbs s' ! j)" using st(2,3) Cons.prems(2) needs_static by metis
    moreover have "steady_arrivals s'" by (rule steady_static [OF st(2,3) Cons.prems(3)])
    moreover have "begun s' \<le> quantum s'"
      using step_begun [OF env Cons.prems(1,2) q gap False s'(1)] Cons.prems(4) by linarith
    moreover have "quantum s' + steps_left s' < 2 ^ 32" using st(4,5) Cons.prems(5) by linarith
    ultimately obtain s'' where "sched_steps alg env as s' = Some s''" "control s'' = Done"
      "sched_inv s''" "num s'' = num s'" "\<forall>j < num s'. static (pcbs s'' ! j) = static (pcbs s' ! j)"
      using Cons.IH [OF st(1)] st(5) Cons.prems(6) by auto
    then show ?thesis using s'(1) st(2,3) by auto
  qed
qed

end

text \<open>
  An algorithm that does nothing when no process is waiting keeps the program safe across idle
  gaps too: it waits for ever for a quantum that does not come, but nothing is corrupted.
\<close>

locale idle_policy = sched_policy +
  assumes idle: "\<lbrakk>env_ok env; inv_at WAITING (quantum s + 1) s;
      \<forall>j < num s. \<not> waiting (pcbs s ! j)\<rbrakk> \<Longrightarrow> alg env s = Some s"
begin

lemma idle_step:
  assumes env: "env_ok env" and inv: "sched_inv s" and c: "control s = Main"
    and gap: "\<not> no_gap s"
  shows "\<exists>s'. main_loop alg env s = Some s' \<and> sched_inv s' \<and> num s' = num s \<and> quantum s' = quantum s
    \<and> (\<forall>j < num s. static (pcbs s' ! j) = static (pcbs s ! j)) \<and> control s' = Main \<and> \<not> no_gap s'"
proof -
  obtain t where t: "interrupted env s = Some t" "interrupt_gives s t"
    by (rule interrupted_ok [OF inv])
  note g = t(2) [unfolded interrupt_gives_def]
  have none: "creation_quantum (pcbs s ! j) \<noteq> current_quantum s" "\<not> waiting (pcbs s ! j)"
    if "j < num s" for j using gap c that by (auto simp: no_gap_def)
  have own: "\<not> own s j" for j using c by (simp add: own_def)
  have st: "state (pcbs t ! j) = state (pcbs s ! j)" "\<not> waiting (pcbs t ! j)" if j: "j < num s" for j
  proof -
    have "state (pcbs s ! j) \<noteq> RUNNING" using running_own [OF inv j] own by blast
    then show "state (pcbs t ! j) = state (pcbs s ! j)" "\<not> waiting (pcbs t ! j)"
      using g j none [OF j] by auto
  qed
  have "pcb_ok RUNNING (quantum t) t j (pcbs t ! j)" if j: "j < num t" for j
  proof -
    have j': "j < num s" using j g by simp
    have "creation_quantum (pcbs t ! j) = creation_quantum (pcbs s ! j)"
      using g j' by (simp add: static_def)
    then have "unat (creation_quantum (pcbs t ! j)) \<noteq> quantum s"
      using none(1) [OF j'] by (simp add: word_unat_eq_iff)
    moreover have "pcb_ok WAITING (quantum s + 1) t j (pcbs t ! j)" using g j' by (simp add: inv_at_def)
    moreover have "state (pcbs t ! j) \<noteq> RUNNING"
      using st(1) [OF j'] running_own [OF inv j'] own by auto
    ultimately show ?thesis
      using st(2) [OF j'] g by (auto simp: pcb_ok_def split: process_state.splits)
  qed
  moreover have "inv_at WAITING (quantum s + 1) t" using g by simp
  ultimately have inv': "sched_inv t" by (simp add: inv_at_def)
  have "alg env t = Some t" using idle [OF env, of t] g st(2) by simp
  moreover have "\<not> (\<forall>i < num s. state (pcbs s ! i) = TERMINATED)" using gap c by (auto simp: no_gap_def)
  ultimately have "main_loop alg env s = Some t"
    using main_finished_iff [OF inv] t(1) by (auto simp: main_loop_def interrupt_handler_split)
  moreover have "creation_quantum (pcbs t ! j) \<noteq> current_quantum t" if "j < num t" for j
    using none(1) [of j] that g by (auto simp: static_def word_unat_eq_iff)
  then have "\<not> no_gap t" using st gap g c by (auto simp: no_gap_def)
  ultimately show ?thesis using inv' g c by auto
qed

lemma gap_for_ever:
  assumes env: "env_ok env" and "sched_inv s" "control s = Main" "\<not> no_gap s"
  shows "\<exists>s'. sched_steps alg env as s = Some s' \<and> control s' = Main \<and> quantum s' = quantum s"
  using assms(2-)
proof (induction as arbitrary: s)
  case (Cons a as)
  let ?t = "if a then signal_handler s else s"
  have "sched_inv ?t" "control ?t = Main" "\<not> no_gap ?t" "quantum ?t = quantum s"
    using Cons.prems by (simp_all add: signal_handler_def no_gap_def)
  from idle_step [OF env this(1-3)] this(4) obtain s' where s': "sched_step alg env a s = Some s'"
    "sched_inv s'" "control s' = Main" "\<not> no_gap s'" "quantum s' = quantum s"
    using Cons.prems(2) by (auto simp: sched_step_def signal_handler_def split: if_splits)
  with Cons.IH [OF s'(2-4)] show ?case by auto
qed simp

lemma run_safe:
  assumes env: "env_ok env" and "sched_inv s" "\<forall>j < num s. needs (pcbs s ! j)"
    "quantum s + length as < 2 ^ 32"
  shows "\<exists>s'. sched_steps alg env as s = Some s' \<and> sched_inv s' \<and> num s' = num s
    \<and> (\<forall>j < num s. static (pcbs s' ! j) = static (pcbs s ! j))"
  using assms(2-)
proof (induction as arbitrary: s)
  case (Cons a as)
  have "\<exists>s'. sched_step alg env a s = Some s' \<and> sched_inv s' \<and> num s' = num s \<and> quantum s' \<le> quantum s + 1
    \<and> (\<forall>j < num s. static (pcbs s' ! j) = static (pcbs s ! j))"
  proof (cases "control s = Done \<or> no_gap s")
    case True
    have q: "quantum s + 1 < 2 ^ 32" using Cons.prems(3) by simp
    show ?thesis
    proof (cases "control s = Done")
      case True
      then show ?thesis using Cons.prems(1) by (simp add: sched_step_def signal_handler_def)
    next
      case False
      then show ?thesis
        using True step_ok [OF env Cons.prems(1,2) q _ False] by (auto simp: step_gives_def)
    qed
  next
    case False
    then have c: "control s = Main" by (simp add: no_gap_def)
    let ?t = "if a then signal_handler s else s"
    have "sched_inv ?t" "control ?t = Main" "\<not> no_gap ?t"
      using c False Cons.prems(1) by (simp_all add: signal_handler_def no_gap_def)
    from idle_step [OF env this] show ?thesis
      using c by (auto simp: sched_step_def signal_handler_def split: if_splits)
  qed
  then obtain s' where s': "sched_step alg env a s = Some s'" "sched_inv s'" "num s' = num s"
    "quantum s' \<le> quantum s + 1" "\<forall>j < num s. static (pcbs s' ! j) = static (pcbs s ! j)" by blast
  have "\<forall>j < num s'. needs (pcbs s' ! j)" using s'(3,5) Cons.prems(2) needs_static by metis
  then show ?case using Cons.IH [OF s'(2)] s' Cons.prems(3) by auto
qed simp

end

end
