(* ===== verification/Sched_Algos.thy ===== *)
theory Sched_Algos
  imports Sched_Run
begin

text \<open>Each scheduling algorithm meets the contract; what its loop selects.\<close>

section \<open>The two loops\<close>

lemma first_index_SomeD:
  assumes "first_index P ps = Some i"
  shows "i < length ps \<and> P i (ps ! i) \<and> (\<forall>j < i. \<not> P j (ps ! j))"
proof -
  from assms obtain n where "n < length [0..<length ps]" "P ([0..<length ps] ! n) (ps ! ([0..<length ps] ! n))"
    "i = [0..<length ps] ! n" "\<forall>j < n. \<not> P ([0..<length ps] ! j) (ps ! ([0..<length ps] ! j))"
    unfolding first_index_def find_Some_iff by blast
  then show ?thesis by simp
qed

lemma first_index_None: "first_index P ps = None \<longleftrightarrow> (\<forall>i < length ps. \<not> P i (ps ! i))"
  by (auto simp: first_index_def find_None_iff)

text \<open>The selection loop keeps the first of the best keys seen so far.\<close>

definition best_so_far ::
  "(u32 \<Rightarrow> u32 \<Rightarrow> bool) \<Rightarrow> (pcb \<Rightarrow> u32) \<Rightarrow> pcb list \<Rightarrow> u32 \<Rightarrow> nat option \<Rightarrow> nat \<Rightarrow> u32 \<times> nat option \<Rightarrow> bool"
  where "best_so_far better key ps init dflt n r \<longleftrightarrow>
     (r = (init, dflt) \<and> (\<forall>j < n. waiting (ps ! j) \<longrightarrow> \<not> better (key (ps ! j)) init))
   \<or> (\<exists>i < n. r = (key (ps ! i), Some i) \<and> waiting (ps ! i) \<and> better (key (ps ! i)) init
        \<and> (\<forall>j < n. waiting (ps ! j) \<longrightarrow> \<not> better (key (ps ! j)) (key (ps ! i)))
        \<and> (\<forall>j < i. waiting (ps ! j) \<longrightarrow> better (key (ps ! i)) (key (ps ! j))))"

definition strict_order :: "(u32 \<Rightarrow> u32 \<Rightarrow> bool) \<Rightarrow> bool" where
  "strict_order better \<longleftrightarrow> (\<forall>x y z. better x y \<longrightarrow> better y z \<longrightarrow> better x z) \<and> (\<forall>x. \<not> better x x)
     \<and> (\<forall>x y. \<not> better x y \<longrightarrow> x = y \<or> better y x)"

lemma strict_orders: "strict_order (<)" "strict_order (>)"
  unfolding strict_order_def by auto

lemma best_waiting_loop:
  assumes "strict_order better"
  shows "best_so_far better key ps init dflt n
    (foldl (\<lambda>(best, pid) i. if waiting (ps ! i) \<and> better (key (ps ! i)) best
       then (key (ps ! i), Some i) else (best, pid)) (init, dflt) [0..<n])"
proof (induction n)
  case (Suc n)
  have trans: "\<And>x y z. better x y \<Longrightarrow> better y z \<Longrightarrow> better x z" and irrefl: "\<And>x. \<not> better x x"
    and total: "\<And>x y. \<not> better x y \<Longrightarrow> x = y \<or> better y x"
    using assms unfolding strict_order_def by blast+
  let ?f = "\<lambda>(best, pid) i. if waiting (ps ! i) \<and> better (key (ps ! i)) best
       then (key (ps ! i), Some i) else (best, pid)"
  obtain b p where r: "foldl ?f (init, dflt) [0..<n] = (b, p)" by fastforce
  let ?k = "key (ps ! n)"
  have step: "foldl ?f (init, dflt) [0..<Suc n]
      = (if waiting (ps ! n) \<and> better ?k b then (?k, Some n) else (b, p))" using r by simp
  from Suc r consider
      (none) "b = init" "p = dflt" "\<forall>j < n. waiting (ps ! j) \<longrightarrow> \<not> better (key (ps ! j)) init"
    | (some) i where "i < n" "b = key (ps ! i)" "p = Some i" "waiting (ps ! i)" "better b init"
        "\<forall>j < n. waiting (ps ! j) \<longrightarrow> \<not> better (key (ps ! j)) b"
        "\<forall>j < i. waiting (ps ! j) \<longrightarrow> better b (key (ps ! j))"
    unfolding best_so_far_def by auto
  then show ?case
  proof cases
    case none
    show ?thesis
    proof (cases "waiting (ps ! n) \<and> better ?k b")
      case True
      have "better ?k (key (ps ! j))" "\<not> better (key (ps ! j)) ?k" if "j < n" "waiting (ps ! j)" for j
        using that none True trans total irrefl by metis+
      with True none irrefl show ?thesis
        unfolding step best_so_far_def by (auto simp: less_Suc_eq)
    next
      case False
      with none show ?thesis unfolding step best_so_far_def by (auto simp: less_Suc_eq)
    qed
  next
    case some
    show ?thesis
    proof (cases "waiting (ps ! n) \<and> better ?k b")
      case True
      have "better ?k (key (ps ! j))" "\<not> better (key (ps ! j)) ?k" if "j < n" "waiting (ps ! j)" for j
        using that some True trans total irrefl by metis+
      moreover have "better ?k init" using True some(5) trans by blast
      ultimately show ?thesis
        unfolding step best_so_far_def using True irrefl
        by (intro disjI2 exI [of _ n]) (auto simp: less_Suc_eq)
    next
      case False
      with some show ?thesis
        unfolding step best_so_far_def by (intro disjI2 exI [of _ i]) (auto simp: less_Suc_eq)
    qed
  qed
qed (simp add: best_so_far_def)

definition selects :: "(u32 \<Rightarrow> u32 \<Rightarrow> bool) \<Rightarrow> (pcb \<Rightarrow> u32) \<Rightarrow> pcb list \<Rightarrow> nat \<Rightarrow> bool" where
  "selects better key ps i \<longleftrightarrow> i < length ps \<and> waiting (ps ! i)
     \<and> (\<forall>j < length ps. waiting (ps ! j) \<longrightarrow> \<not> better (key (ps ! j)) (key (ps ! i)))
     \<and> (\<forall>j < i. waiting (ps ! j) \<longrightarrow> better (key (ps ! i)) (key (ps ! j)))"

lemma best_waiting_selects:
  assumes "strict_order better" and "j < length ps" "waiting (ps ! j)" "better (key (ps ! j)) init"
  shows "\<exists>i. best_waiting better key ps init dflt = Some i \<and> selects better key ps i"
  using best_waiting_loop [OF assms(1), where key = key and ps = ps and init = init and dflt = dflt
      and n = "length ps"] assms(2-4)
  unfolding best_waiting_def best_so_far_def selects_def by auto

lemma best_waiting_none:
  assumes "strict_order better" and "\<forall>j < length ps. waiting (ps ! j) \<longrightarrow> \<not> better (key (ps ! j)) init"
  shows "best_waiting better key ps init dflt = dflt"
  using best_waiting_loop [OF assms(1), where key = key and ps = ps and init = init and dflt = dflt
      and n = "length ps"] assms(2)
  unfolding best_waiting_def best_so_far_def by auto

lemma least_waiting:
  "\<lbrakk>j < length ps; waiting (ps ! j); key (ps ! j) < init\<rbrakk> \<Longrightarrow>
   \<exists>i. best_waiting (<) key ps init dflt = Some i \<and> selects (<) key ps i"
  by (rule best_waiting_selects [OF strict_orders(1)])

lemma greatest_waiting:
  "\<lbrakk>j < length ps; waiting (ps ! j); key (ps ! j) > init\<rbrakk> \<Longrightarrow>
   \<exists>i. best_waiting (>) key ps init dflt = Some i \<and> selects (>) key ps i"
  by (rule best_waiting_selects [OF strict_orders(2)])

section \<open>What the algorithms find in a prepared state\<close>

lemma prepared:
  assumes inv: "inv_at WAITING (quantum s + 1) s"
  shows "procs s = Some (take (num s) (pcbs s))" "current_pcb s = Some (pcbs s ! current s)"
    "num s \<le> length (pcbs s)" "\<And>j. j < num s \<Longrightarrow> take (num s) (pcbs s) ! j = pcbs s ! j"
    "current s < num s" "\<And>j. j < num s \<Longrightarrow> state (pcbs s ! j) \<noteq> RUNNING"
    "\<And>j. j < num s \<Longrightarrow> executed_work (pcbs s ! j) \<le> workload (pcbs s ! j)"
proof -
  show "procs s = Some (take (num s) (pcbs s))" "current_pcb s = Some (pcbs s ! current s)"
    using inv_procs [OF inv] inv_current [OF inv] by simp_all
  show "num s \<le> length (pcbs s)" "current s < num s"
    using inv by (auto simp: inv_at_def table_ok_def)
  show "take (num s) (pcbs s) ! j = pcbs s ! j" if "j < num s" for j using that by simp
  show "state (pcbs s ! j) \<noteq> RUNNING" "executed_work (pcbs s ! j) \<le> workload (pcbs s ! j)"
    if "j < num s" for j using inv_pcb [OF inv that] by (auto simp: pcb_ok_def)
qed

lemma keep_rands: "s\<lparr>rands := rands s\<rparr> = (s :: sched)"
  by simp

text \<open>What the specifications must satisfy for the selection loops to see every process.\<close>

definition small_workload :: "pcb \<Rightarrow> bool" where
  "small_workload p \<longleftrightarrow> workload p < word_of_int INT_MAX"

definition early_creation :: "pcb \<Rightarrow> bool" where
  "early_creation p \<longleftrightarrow> creation_quantum p < word_of_int INT_MAX"

definition has_priority :: "pcb \<Rightarrow> bool" where
  "has_priority p \<longleftrightarrow> 0 < prio p"

definition fair_rnd :: "sched_env \<Rightarrow> bool" where
  "fair_rnd env \<longleftrightarrow> (\<forall>n i k. i < n \<longrightarrow> (\<exists>j \<ge> k. rnd env j mod n = i))"

section \<open>The contract, algorithm by algorithm\<close>

interpretation basic: idle_policy basic "\<lambda>_. True" "\<lambda>_. True"
proof unfold_locales
  fix env s i
  assume inv: "inv_at WAITING (quantum s + 1) s" and i: "i < num s" "waiting (pcbs s ! i)"
  note P = prepared [OF inv]
  obtain j where j: "first_index (\<lambda>_. waiting) (take (num s) (pcbs s)) = Some j"
    using first_index_None [of "\<lambda>_. waiting" "take (num s) (pcbs s)"] P i by fastforce
  then have "j < num s" "waiting (pcbs s ! j)" using first_index_SomeD [OF j] P by auto
  then show "\<exists>j k. j < num s \<and> waiting (pcbs s ! j) \<and> basic env s = context_switch j (s\<lparr>rands := k\<rparr>)"
    using P(1) j by (intro exI [of _ j] exI [of _ "rands s"]) (simp add: basic_def)
next
  fix env s
  assume inv: "inv_at WAITING (quantum s + 1) s" and "\<forall>j < num s. \<not> waiting (pcbs s ! j)"
  then have "first_index (\<lambda>_. waiting) (take (num s) (pcbs s)) = None"
    using prepared [OF inv] by (simp add: first_index_None)
  then show "basic env s = Some s" using prepared(1) [OF inv] by (simp add: basic_def)
qed simp

text \<open>Round robin: the next waiting process behind the current one, cyclically.\<close>

definition rr_next :: "nat \<Rightarrow> pcb list \<Rightarrow> nat \<Rightarrow> bool" where
  "rr_next cur ps i \<longleftrightarrow> i < length ps \<and> waiting (ps ! i)
     \<and> (if cur < i then \<forall>j. cur < j \<and> j < i \<longrightarrow> \<not> waiting (ps ! j)
        else (\<forall>j. cur < j \<and> j < length ps \<longrightarrow> \<not> waiting (ps ! j)) \<and> (\<forall>j < i. \<not> waiting (ps ! j)))"

lemma rr_selects:
  assumes "procs s = Some ps" "j < length ps" "waiting (ps ! j)"
  shows "\<exists>i. rr_next (current s) ps i \<and> rr env s = context_switch i s"
proof (cases "first_index (\<lambda>i p. waiting p \<and> current s < i) ps")
  case (Some i)
  with first_index_SomeD [OF Some] assms(1) show ?thesis
    by (intro exI [of _ i]) (auto simp: rr_next_def rr_def)
next
  case None
  obtain i where i: "first_index (\<lambda>_. waiting) ps = Some i"
    using first_index_None [of "\<lambda>_. waiting" ps] assms(2,3) by fastforce
  from None have none: "\<forall>j < length ps. \<not> (waiting (ps ! j) \<and> current s < j)"
    by (simp add: first_index_None)
  then show ?thesis
    using first_index_SomeD [OF i] None i assms(1)
    by (intro exI [of _ i]) (auto simp: rr_next_def rr_def)
qed

interpretation rr: idle_policy rr "\<lambda>_. True" "\<lambda>_. True"
proof unfold_locales
  fix env s i
  assume inv: "inv_at WAITING (quantum s + 1) s" and i: "i < num s" "waiting (pcbs s ! i)"
  note P = prepared [OF inv]
  obtain j where "rr_next (current s) (take (num s) (pcbs s)) j" "rr env s = context_switch j s"
    using rr_selects [OF P(1), of i env] P(3,4) i by auto
  then show "\<exists>j k. j < num s \<and> waiting (pcbs s ! j) \<and> rr env s = context_switch j (s\<lparr>rands := k\<rparr>)"
    using P by (intro exI [of _ j] exI [of _ "rands s"]) (auto simp: rr_next_def)
next
  fix env s
  assume inv: "inv_at WAITING (quantum s + 1) s" and none: "\<forall>j < num s. \<not> waiting (pcbs s ! j)"
  note P = prepared [OF inv]
  have "first_index (\<lambda>_. waiting) (take (num s) (pcbs s)) = None"
    "first_index (\<lambda>i p. waiting p \<and> current s < i) (take (num s) (pcbs s)) = None"
    using P none by (simp_all add: first_index_None)
  then show "rr env s = Some s" using P(1) by (simp add: rr_def)
qed simp

lemma sees_all:
  assumes inv: "inv_at WAITING (quantum s + 1) s" and i: "i < num s" "waiting (pcbs s ! i)"
    and key: "key (pcbs s ! i) < init"
  shows "\<exists>j. best_waiting (<) key (take (num s) (pcbs s)) init dflt = Some j
    \<and> selects (<) key (take (num s) (pcbs s)) j \<and> j < num s \<and> waiting (pcbs s ! j)"
proof -
  note P = prepared [OF inv]
  have "i < length (take (num s) (pcbs s))" using P(3) i(1) by simp
  with least_waiting [of i "take (num s) (pcbs s)" key init dflt] key i P(4)
  show ?thesis by (auto simp: selects_def)
qed

interpretation fifo: sched_policy fifo "\<lambda>_. True" early_creation
proof unfold_locales
  fix env s i
  assume inv: "inv_at WAITING (quantum s + 1) s" and needs: "\<forall>j < num s. early_creation (pcbs s ! j)"
    and i: "i < num s" "waiting (pcbs s ! i)"
  note P = prepared [OF inv]
  have "creation_quantum (pcbs s ! i) < word_of_int INT_MAX" using needs i(1) by (simp add: early_creation_def)
  from sees_all [where key = creation_quantum, OF inv i this] obtain j where j: "best_waiting (<) creation_quantum (take (num s) (pcbs s)) (word_of_int INT_MAX) None
      = Some j" "j < num s" "waiting (pcbs s ! j)" by blast
  have "fifo env s = context_switch j s"
    using P(1,2) P(6) [OF P(5)] j(1) by (simp add: fifo_def)
  with j show "\<exists>j k. j < num s \<and> waiting (pcbs s ! j) \<and> fifo env s = context_switch j (s\<lparr>rands := k\<rparr>)"
    by (intro exI [of _ j] exI [of _ "rands s"]) simp
qed (simp add: static_def early_creation_def)

interpretation sjf: sched_policy sjf "\<lambda>_. True" small_workload
proof unfold_locales
  fix env s i
  assume inv: "inv_at WAITING (quantum s + 1) s" and needs: "\<forall>j < num s. small_workload (pcbs s ! j)"
    and i: "i < num s" "waiting (pcbs s ! i)"
  have "workload (pcbs s ! i) < word_of_int INT_MAX" using needs i(1) by (simp add: small_workload_def)
  from sees_all [where key = workload, OF inv i this] obtain j where j: "best_waiting (<) workload (take (num s) (pcbs s)) (word_of_int INT_MAX) (Some 0)
      = Some j" "j < num s" "waiting (pcbs s ! j)" by blast
  then have "sjf env s = context_switch j s" using prepared(1) [OF inv] by (simp add: sjf_def)
  with j show "\<exists>j k. j < num s \<and> waiting (pcbs s ! j) \<and> sjf env s = context_switch j (s\<lparr>rands := k\<rparr>)"
    by (intro exI [of _ j] exI [of _ "rands s"]) simp
qed (simp add: static_def small_workload_def)

interpretation psjf: sched_policy psjf "\<lambda>_. True" small_workload
proof unfold_locales
  fix env s i
  assume inv: "inv_at WAITING (quantum s + 1) s" and needs: "\<forall>j < num s. small_workload (pcbs s ! j)"
    and i: "i < num s" "waiting (pcbs s ! i)"
  note P = prepared [OF inv]
  have "workload (pcbs s ! i) < word_of_int INT_MAX" using needs i(1) by (simp add: small_workload_def)
  from sees_all [where key = workload, OF inv i this] obtain j where j: "best_waiting (<) workload (take (num s) (pcbs s)) (word_of_int INT_MAX) (Some 0)
      = Some j" "j < num s" "waiting (pcbs s ! j)" by blast
  let ?j = "if current_quantum s > 0 \<and> waiting (pcbs s ! current s) then current s else j"
  have "psjf env s = context_switch ?j s" using P(1,2) j(1) by (simp add: psjf_def)
  with j P(5) show "\<exists>j k. j < num s \<and> waiting (pcbs s ! j) \<and> psjf env s = context_switch j (s\<lparr>rands := k\<rparr>)"
    by (intro exI [of _ ?j] exI [of _ "rands s"]) simp
qed (simp add: static_def small_workload_def)

interpretation sctf: sched_policy sctf "\<lambda>_. True" small_workload
proof unfold_locales
  fix env s i
  assume inv: "inv_at WAITING (quantum s + 1) s" and needs: "\<forall>j < num s. small_workload (pcbs s ! j)"
    and i: "i < num s" "waiting (pcbs s ! i)"
  note P = prepared [OF inv]
  let ?left = "\<lambda>p. workload p - executed_work p"
  have "?left (pcbs s ! i) \<le> workload (pcbs s ! i)" using P(7) [OF i(1)] by (rule word_sub_le)
  then have "?left (pcbs s ! i) < word_of_int INT_MAX"
    using needs i(1) by (auto simp: small_workload_def)
  from sees_all [where key = ?left, OF inv i this] obtain j where j: "best_waiting (<) ?left (take (num s) (pcbs s)) (word_of_int INT_MAX) (Some 0)
      = Some j" "j < num s" "waiting (pcbs s ! j)" by blast
  let ?j = "if current_quantum s > 0 \<and> waiting (pcbs s ! current s) then current s else j"
  have "sctf env s = context_switch ?j s" using P(1,2) j(1) by (simp add: sctf_def)
  with j P(5) show "\<exists>j k. j < num s \<and> waiting (pcbs s ! j) \<and> sctf env s = context_switch j (s\<lparr>rands := k\<rparr>)"
    by (intro exI [of _ ?j] exI [of _ "rands s"]) simp
qed (simp add: static_def small_workload_def)

interpretation priority: sched_policy priority "\<lambda>_. True" has_priority
proof unfold_locales
  fix env s i
  assume inv: "inv_at WAITING (quantum s + 1) s" and needs: "\<forall>j < num s. has_priority (pcbs s ! j)"
    and i: "i < num s" "waiting (pcbs s ! i)"
  note P = prepared [OF inv]
  have "i < length (take (num s) (pcbs s))" using P(3) i(1) by simp
  then obtain j where j: "best_waiting (>) prio (take (num s) (pcbs s)) 0 (Some 0) = Some j"
    "j < num s" "waiting (pcbs s ! j)"
    using greatest_waiting [of i "take (num s) (pcbs s)" 0 prio "Some 0"] needs i
    by (auto simp: selects_def has_priority_def)
  then have "priority env s = context_switch j s" using P(1) by (simp add: priority_def)
  with j show "\<exists>j k. j < num s \<and> waiting (pcbs s ! j) \<and> priority env s = context_switch j (s\<lparr>rands := k\<rparr>)"
    by (intro exI [of _ j] exI [of _ "rands s"]) simp
qed (simp add: static_def has_priority_def)

text \<open>The draws end when one of them hits a waiting process.\<close>

lemma insanity_loop_ends:
  "\<lbrakk>k \<le> j; waiting (ps ! (rnd env j mod length ps)); ps \<noteq> []\<rbrakk> \<Longrightarrow>
   \<exists>i k'. insanity_loop env ps k = Some (i, k') \<and> i < length ps \<and> waiting (ps ! i)"
proof (induction "j - k" arbitrary: k)
  case 0
  then have "k = j" by simp
  with 0 show ?case by (subst insanity_loop.simps) (simp add: Let_def)
next
  case (Suc d)
  show ?case
  proof (cases "waiting (ps ! (rnd env k mod length ps))")
    case True
    with Suc.prems show ?thesis by (subst insanity_loop.simps) (simp add: Let_def)
  next
    case False
    have "\<exists>i k'. insanity_loop env ps (k + 1) = Some (i, k') \<and> i < length ps \<and> waiting (ps ! i)"
      using Suc by (intro Suc.hyps(1)) auto
    with False show ?thesis by (subst insanity_loop.simps) (simp add: Let_def)
  qed
qed

interpretation insanity: sched_policy insanity fair_rnd "\<lambda>_. True"
proof unfold_locales
  fix env s i
  assume env: "fair_rnd env" and inv: "inv_at WAITING (quantum s + 1) s"
    and i: "i < num s" "waiting (pcbs s ! i)"
  note P = prepared [OF inv]
  let ?ps = "take (num s) (pcbs s)"
  have len: "length ?ps = num s" using P(3) by simp
  obtain j where j: "rands s \<le> j" "rnd env j mod length ?ps = i"
    using env i(1) unfolding fair_rnd_def len by blast
  have "waiting (?ps ! (rnd env j mod length ?ps))" unfolding j(2) using P(4) i by simp
  moreover have ne: "?ps \<noteq> []" using len i(1) by auto
  ultimately obtain p k where pk: "insanity_loop env ?ps (rands s) = Some (p, k)" "p < num s"
    "waiting (?ps ! p)" using insanity_loop_ends [OF j(1)] len by metis
  have "insanity env s = context_switch p (s\<lparr>rands := k\<rparr>)"
    using P(1) ne pk(1) by (simp add: insanity_def)
  with pk P(4) show "\<exists>j k. j < num s \<and> waiting (pcbs s ! j) \<and> insanity env s = context_switch j (s\<lparr>rands := k\<rparr>)"
    by auto
qed simp

end
