(* ===== verification/Sched_Times.thy ===== *)
theory Sched_Times
  imports Sched_Algos
begin

text \<open>
  The times that the scheduler records: on a clock that does not go back, a process arrives
  before it starts and starts before it completes. The invariant \<open>on_time\<close> says so for each state of a
  process, and is kept by every step of a run without idle gaps.
\<close>

section \<open>What an interrupt leaves unchanged\<close>

definition timing :: "pcb \<Rightarrow> rat \<times> rat \<times> u32" where
  "timing p = (start_time p, completion_time p, executed_work p)"

text \<open>The times of a process behind the arrivals of a quantum.\<close>

definition arrival_frame :: "sched_env \<Rightarrow> sched \<Rightarrow> sched \<Rightarrow> bool \<Rightarrow> nat \<Rightarrow> bool" where
  "arrival_frame env s t new i \<longleftrightarrow> timing (pcbs t ! i) = timing (pcbs s ! i)
     \<and> (if new then \<exists>k \<ge> ticks s. k < ticks t \<and> arrival_time (pcbs t ! i) = clock env k
        else arrival_time (pcbs t ! i) = arrival_time (pcbs s ! i))"

lemma ticks_emit [simp]: "ticks (emit e s) = ticks s" "ticks (upd_pcb i f s) = ticks s"
  by (simp_all add: emit_def upd_pcb_def)

lemma arrive_times:
  "n \<le> length (pcbs s) \<Longrightarrow> ticks s \<le> ticks (foldl (arrive env) s [0..<n])
     \<and> (\<forall>i < length (pcbs s). arrival_frame env s (foldl (arrive env) s [0..<n])
          (i < n \<and> creation_quantum (pcbs s ! i) = current_quantum s) i)"
proof (induction n)
  case 0
  then show ?case by (simp add: arrival_frame_def)
next
  case (Suc n)
  let ?t = "foldl (arrive env) s [0..<n]" and ?new = "\<lambda>n i. i < n \<and> creation_quantum (pcbs s ! i) = current_quantum s"
  have IH: "ticks s \<le> ticks ?t" "\<And>i. i < length (pcbs s) \<Longrightarrow> arrival_frame env s ?t (?new n i) i" using Suc by auto
  have same: "current_quantum ?t = current_quantum s" "length (pcbs ?t) = length (pcbs s)" "pcbs ?t ! n = pcbs s ! n"
    using arrive_loop [of n s env] Suc.prems by (auto simp: same_but_pcbs_def)
  have step: "foldl (arrive env) s [0..<Suc n] = arrive env ?t n" by simp
  show ?case
  proof (cases "creation_quantum (pcbs s ! n) = current_quantum s")
    case False
    then have "arrive env ?t n = ?t" using same by (simp add: arrive_def)
    moreover have "?new (Suc n) i = ?new n i" for i using False by (auto simp: less_Suc_eq)
    ultimately show ?thesis unfolding step using IH by simp
  next
    case True
    have a: "ticks (arrive env ?t n) = ticks ?t + 1"
      "pcbs (arrive env ?t n) = (pcbs ?t)[n := (pcbs ?t ! n)\<lparr>state := WAITING, arrival_time := clock env (ticks ?t), ctx := Some Entry\<rparr>]"
      using True same by (simp_all add: arrive_def get_time_def)
    have "arrival_frame env s (arrive env ?t n) (?new (Suc n) i) i" if i: "i < length (pcbs s)" for i
    proof (cases "i = n")
      case True
      then show ?thesis
        using \<open>creation_quantum (pcbs s ! n) = current_quantum s\<close> IH(1) a same i
        by (auto simp: arrival_frame_def timing_def intro!: exI [of _ "ticks ?t"])
    next
      case False
      then show ?thesis using IH(2) [OF i] a by (fastforce simp: arrival_frame_def less_Suc_eq)
    qed
    then show ?thesis unfolding step using IH(1) a(1) by simp
  qed
qed

lemma interrupted_frame:
  assumes inv: "sched_inv s" and t: "interrupted env s = Some t" and i: "i < num s"
  shows "ticks s \<le> ticks t" "arrival_frame env s t (creation_quantum (pcbs s ! i) = current_quantum s) i"
proof -
  define s1 where "s1 = emit (Interrupt (current_quantum s)) (s\<lparr>g_interrupt := False\<rparr>)"
  define s2 where "s2 = (if state (pcbs s1 ! current s1) = RUNNING then upd_pcb (current s1) (\<lambda>p. p\<lparr>state := WAITING\<rparr>) s1 else s1)"
  have s1: "current_pcb s1 = Some (pcbs s1 ! current s1)" "procs s = Some (take (num s) (pcbs s))"
    using inv_current [OF inv] inv_procs [OF inv] by (simp_all add: s1_def current_pcb_def pcb_at_def split: if_splits)
  have n: "num s \<le> length (pcbs s)" using inv by (simp add: inv_at_def table_ok_def)
  have s2: "num_processes s2 = num_processes s" "length (pcbs s2) = length (pcbs s)" "ticks s2 = ticks s" "current_quantum s2 = current_quantum s"
    by (simp_all add: s2_def s1_def)
  then have "procs s2 = Some (take (num s) (pcbs s2))" using n by (simp add: procs_def)
  then have e: "t = foldl (arrive env) s2 [0..<num s]"
    using t s1(1) n s2(2) unfolding interrupted_def s1_def [symmetric] Let_def by (simp add: s2_def [symmetric] handle_arrivals_def min_absorb2)
  have same: "timing (pcbs s2 ! j) = timing (pcbs s ! j) \<and> arrival_time (pcbs s2 ! j) = arrival_time (pcbs s ! j)
      \<and> creation_quantum (pcbs s2 ! j) = creation_quantum (pcbs s ! j)" for j
    using inv by (cases "j = current s") (auto simp: s2_def s1_def timing_def upd_pcb_def inv_at_def table_ok_def)
  show "ticks s \<le> ticks t" using arrive_times [of "num s" s2 env] n s2 e by simp
  have "arrival_frame env s2 t (creation_quantum (pcbs s2 ! i) = current_quantum s2) i"
    using conjunct2 [OF arrive_times [of "num s" s2 env], rule_format, of i] n s2 e i by simp
  then show "arrival_frame env s t (creation_quantum (pcbs s ! i) = current_quantum s) i"
    using same [of i] unfolding arrival_frame_def s2(3,4) by simp
qed

lemma context_switch_frame:
  assumes "context_switch j s = Some s'" "i < length (pcbs s)"
  shows "ticks s' = ticks s" "timing (pcbs s' ! i) = timing (pcbs s ! i)" "arrival_time (pcbs s' ! i) = arrival_time (pcbs s ! i)"
    "state (pcbs s' ! i) = state (pcbs s ! i) \<or> i = j \<and> state (pcbs s' ! i) = RUNNING"
  using assms
  by (auto simp: context_switch_def resume_pcb_def pcb_at_def current_pcb_def upd_pcb_def emit_def timing_def Let_def nth_list_update
      split: if_splits bind_splits)

section \<open>The invariant\<close>

text \<open>A process has started when it has less to do than all of its steps.\<close>

definition started :: "sched \<Rightarrow> nat \<Rightarrow> bool" where
  "started s i \<longleftrightarrow> proc_cost s i < 3 + 22 * (unat (workload (pcbs s ! i)) - unat (executed_work (pcbs s ! i)))"

definition on_time :: "rat \<Rightarrow> rat \<Rightarrow> bool \<Rightarrow> pcb \<Rightarrow> bool" where
  "on_time first now st p \<longleftrightarrow> (state p \<noteq> CREATED \<longrightarrow> first \<le> arrival_time p \<and> arrival_time p \<le> now)
     \<and> (st \<longrightarrow> arrival_time p \<le> start_time p \<and> start_time p \<le> now)
     \<and> (state p = TERMINATED \<longrightarrow> start_time p \<le> completion_time p \<and> completion_time p \<le> now)"

definition times_ok :: "sched_env \<Rightarrow> sched \<Rightarrow> bool" where
  "times_ok env s \<longleftrightarrow> (\<forall>i < num s. on_time (clock env 0) (clock env (ticks s)) (started s i) (pcbs s ! i))"

definition steady_clock :: "sched_env \<Rightarrow> bool" where
  "steady_clock env \<longleftrightarrow> (\<forall>m n. m \<le> n \<longrightarrow> clock env m \<le> clock env n)"

lemma on_time_later: "\<lbrakk>on_time b now st p; now \<le> now'\<rbrakk> \<Longrightarrow> on_time b now' st p"
  by (auto simp: on_time_def)

text \<open>A process whose code has the control has started, unless it is at its entry.\<close>

lemma own_started:
  assumes inv: "sched_inv s" and own: "own s p" and c: "control s \<noteq> Entry"
  shows "started s p"
proof -
  note B = own_block [OF inv own]
  have "position s p = control s" using own by (simp add: position_def)
  moreover have "unat (executed_work (pcbs s ! p)) < unat (workload (pcbs s ! p))" if "control s = Slice q k" for q k
    using B(6) that by (simp add: at_ok_def word_less_nat_alt)
  ultimately show ?thesis
    using B(4) own c by (auto simp: started_def proc_cost_def cost_at_def own_def Let_def split: cont.splits)
qed

lemma created_not_started: "\<lbrakk>sched_inv s; i < num s; state (pcbs s ! i) = CREATED\<rbrakk> \<Longrightarrow> \<not> started s i"
  using inv_pcb [of RUNNING "quantum s" s i] by (simp add: pcb_ok_def started_def proc_cost_def position_def cost_at_def Let_def)

text \<open>A step of the process that has the control.\<close>

lemma own_on_time:
  assumes inv: "sched_inv s" and own: "own s p" and clk: "steady_clock env" and ok: "times_ok env s"
    and s': "num s' = num s" "ticks s \<le> ticks s'" "pcbs s' = (pcbs s)[p := b]" "\<And>j. own s' j \<Longrightarrow> j = p"
    and b: "on_time (clock env 0) (clock env (ticks s')) (started s' p) b"
  shows "times_ok env s'"
  unfolding times_ok_def
proof (intro allI impI)
  fix j assume "j < num s'"
  then have j: "j < num s" using s'(1) by simp
  show "on_time (clock env 0) (clock env (ticks s')) (started s' j) (pcbs s' ! j)"
  proof (cases "j = p")
    case True
    have "p < length (pcbs s)" by (rule own_block(2) [OF inv own])
    then show ?thesis using b s'(3) True by simp
  next
    case False
    have "p = current s" by (rule inv_own_current [OF inv own])
    then have n: "\<not> own s j" "\<not> own s' j" using inv_own_current [OF inv, of j] s'(4) [of j] False by auto
    have e: "pcbs s' ! j = pcbs s ! j" using s'(3) False by simp
    then have "started s' j = started s j" using n by (simp add: started_def proc_cost_def position_def)
    moreover have "on_time (clock env 0) (clock env (ticks s)) (started s j) (pcbs s ! j)" using ok j by (simp add: times_ok_def)
    moreover have "clock env (ticks s) \<le> clock env (ticks s')" using clk s'(2) by (simp add: steady_clock_def)
    ultimately show ?thesis using on_time_later e by simp
  qed
qed

lemma own_times:
  assumes inv: "sched_inv s" and own: "own s p" and c: "control s \<noteq> Entry" and ok: "times_ok env s"
  shows "arrival_time (pcbs s ! p) \<le> start_time (pcbs s ! p)" "start_time (pcbs s ! p) \<le> clock env (ticks s)"
    "clock env 0 \<le> arrival_time (pcbs s ! p)"
  using ok own_started [OF inv own c] own_block(1,4) [OF inv own] by (auto simp: times_ok_def on_time_def)

lemma entry_on_time:
  assumes inv: "sched_inv s" and c: "control s = Entry" and clk: "steady_clock env" and ok: "times_ok env s"
    and run: "process_entry env s = Some s'"
  shows "times_ok env s'"
proof -
  let ?p = "current s"
  have own: "own s ?p" using c by (simp add: own_def)
  note B = own_block [OF inv own]
  have s': "num s' = num s" "ticks s' = ticks s + 1" "control s' = Head ?p"
    "pcbs s' = (pcbs s)[?p := (pcbs s ! ?p)\<lparr>start_time := clock env (ticks s)\<rparr>]"
    using run inv_current [OF inv] by (auto simp: process_entry_def get_time_def upd_pcb_def emit_def)
  have "clock env 0 \<le> arrival_time (pcbs s ! ?p)" "arrival_time (pcbs s ! ?p) \<le> clock env (ticks s)" using ok B(1,4) by (simp_all add: times_ok_def on_time_def)
  moreover have "clock env (ticks s) \<le> clock env (ticks s + 1)" using clk by (simp add: steady_clock_def)
  ultimately have "on_time (clock env 0) (clock env (ticks s')) st ((pcbs s ! ?p)\<lparr>start_time := clock env (ticks s)\<rparr>)" for st
    using s'(2) B(4) by (auto simp: on_time_def)
  then show ?thesis
    by (intro own_on_time [OF inv own clk ok s'(1) _ s'(4)]) (use s'(2,3) in \<open>auto simp: own_def\<close>)
qed

lemma exit_on_time:
  assumes inv: "sched_inv s" and c: "control s = Head p" and clk: "steady_clock env" and ok: "times_ok env s"
    and run: "process_exit env p s = Some s'"
  shows "times_ok env s'"
proof -
  have own: "own s p" using c by (simp add: own_def)
  note B = own_block [OF inv own]
  have s': "num s' = num s" "ticks s' = ticks s + 1" "control s' = Main"
    "pcbs s' = (pcbs s)[p := (pcbs s ! p)\<lparr>state := TERMINATED, completion_time := clock env (ticks s)\<rparr>]"
    using run B(8) by (auto simp: process_exit_def get_time_def resume_main_def upd_pcb_def emit_def)
  have "clock env (ticks s) \<le> clock env (ticks s + 1)" using clk by (simp add: steady_clock_def)
  then have "on_time (clock env 0) (clock env (ticks s')) st ((pcbs s ! p)\<lparr>state := TERMINATED, completion_time := clock env (ticks s)\<rparr>)" for st
    using s'(2) own_times [OF inv own _ ok] c by (auto simp: on_time_def)
  then show ?thesis
    by (intro own_on_time [OF inv own clk ok s'(1) _ s'(4)]) (use s'(2,3) in \<open>auto simp: own_def\<close>)
qed

text \<open>A step that changes no time.\<close>

lemma work_on_time:
  assumes inv: "sched_inv s" and own: "own s p" and c: "control s \<noteq> Entry" and clk: "steady_clock env" and ok: "times_ok env s"
    and s': "num s' = num s" "ticks s' = ticks s" "pcbs s' = (pcbs s)[p := b]" "\<And>j. own s' j \<Longrightarrow> j = p"
    and b: "arrival_time b = arrival_time (pcbs s ! p)" "start_time b = start_time (pcbs s ! p)" "state b = RUNNING"
  shows "times_ok env s'"
proof -
  have "on_time (clock env 0) (clock env (ticks s')) (started s' p) b"
    using own_times [OF inv own c ok] b s'(2) by (auto simp: on_time_def)
  then show ?thesis by (intro own_on_time [OF inv own clk ok s'(1) _ s'(3,4)]) (use s'(2) in simp_all)
qed

context sched_policy
begin

lemma interrupt_on_time:
  assumes env: "env_ok env" and inv: "sched_inv s" and needs: "\<forall>j < num s. needs (pcbs s ! j)"
    and q: "quantum s + 1 < 2 ^ 32"
    and i: "i < num s" "creation_quantum (pcbs s ! i) = current_quantum s
        \<or> state (pcbs s ! i) = RUNNING \<or> state (pcbs s ! i) = WAITING"
    and clk: "steady_clock env" and ok: "times_ok env s" and run: "interrupt_handler alg env s = Some s'"
  shows "times_ok env s'"
proof -
  obtain t where t: "interrupted env s = Some t" "interrupt_gives s t" by (rule interrupted_ok [OF inv])
  note g = t(2) [unfolded interrupt_gives_def]
  have "\<forall>j < num t. needs (pcbs t ! j)" using g needs needs_static by metis
  moreover have "i < num t" "waiting (pcbs t ! i)" using g i by auto
  ultimately obtain j k where j: "j < num t" "waiting (pcbs t ! j)" "alg env t = context_switch j (t\<lparr>rands := k\<rparr>)"
    using picks [of env t i] env g by auto
  then have cs: "context_switch j (t\<lparr>rands := k\<rparr>) = Some s'" using run t(1) by (simp add: interrupt_handler_split)
  obtain s'' where "interrupt_handler alg env s = Some s''" "switch_gives s s''"
    by (rule interrupt_switches [OF env inv needs q i])
  then have sg: "num s' = num s" "\<And>m. m < num s \<Longrightarrow> proc_cost s' m = proc_cost s m \<and> static (pcbs s' ! m) = static (pcbs s ! m)"
    using run by (simp_all add: switch_gives_def)
  have "on_time (clock env 0) (clock env (ticks s')) (started s' m) (pcbs s' ! m)" if m: "m < num s" for m
  proof -
    have "m < length (pcbs (t\<lparr>rands := k\<rparr>))" using g m by (simp add: inv_at_def table_ok_def)
    note f = context_switch_frame [OF cs this]
    note a = interrupted_frame [OF inv t(1) m]
    have tm: "timing (pcbs s' ! m) = timing (pcbs s ! m)" using f(2) a(2) by (simp add: arrival_frame_def)
    then have st: "started s' m = started s m"
      using sg(2) [OF m] by (simp add: started_def timing_def static_def)
    have now: "clock env (ticks s) \<le> clock env (ticks s')" using a(1) f(1) clk by (simp add: steady_clock_def)
    have tt: "state (pcbs s' ! m) = TERMINATED \<longleftrightarrow> state (pcbs s ! m) = TERMINATED"
      using sg(2) [OF m] by (metis proc_cost_0)
    have old: "on_time (clock env 0) (clock env (ticks s)) (started s m) (pcbs s ! m)" using ok m by (simp add: times_ok_def)
    show ?thesis
    proof (cases "creation_quantum (pcbs s ! m) = current_quantum s")
      case True
      then have "state (pcbs s ! m) = CREATED" using inv_pcb [OF inv m] by (simp add: pcb_ok_def)
      then have n: "\<not> started s' m" "state (pcbs s' ! m) \<noteq> TERMINATED" using created_not_started [OF inv m] st tt by auto
      obtain n where "n \<le> ticks s'" "arrival_time (pcbs s' ! m) = clock env n"
        using a(2) f(1,3) True by (auto simp: arrival_frame_def dest: less_imp_le)
      then show ?thesis using n clk by (simp add: on_time_def steady_clock_def)
    next
      case False
      then have "arrival_time (pcbs s' ! m) = arrival_time (pcbs s ! m)" using a(2) f(3) by (simp add: arrival_frame_def)
      moreover have "state (pcbs s ! m) = CREATED \<Longrightarrow> state (pcbs s' ! m) = CREATED"
        using f(4) g False m j(2) by auto
      ultimately show ?thesis using old st tt now tm by (auto simp: on_time_def timing_def)
    qed
  qed
  then show ?thesis using sg(1) by (simp add: times_ok_def)
qed

lemma step_on_time:
  assumes env: "env_ok env" and inv: "sched_inv s" and needs: "\<forall>j < num s. needs (pcbs s ! j)"
    and q: "quantum s + 1 < 2 ^ 32" and gap: "no_gap s" and nd: "control s \<noteq> Done"
    and clk: "steady_clock env" and ok: "times_ok env s"
    and step: "sched_step alg env a s = Some s'" "step_gives s s'"
  shows "times_ok env s'"
proof -
  define t where "t = (if a then signal_handler s else s)"
  have t: "sched_inv t" "num t = num s" "quantum t = quantum s" "control t = control s" "pcbs t = pcbs s"
    "no_gap t" "times_ok env t"
    using inv gap ok by (simp_all add: t_def signal_handler_def no_gap_def times_ok_def started_def)
  have needs': "\<forall>j < num t. needs (pcbs t ! j)" and q': "quantum t + 1 < 2 ^ 32" using needs q t by simp_all
  have nd': "control t \<noteq> Done" "control t \<noteq> Aborted" using nd t(1,4) by (auto simp: inv_at_def control_ok_def)
  have inv': "sched_inv s'" "num s' = num s" using step(2) by (simp_all add: step_gives_def)
  show ?thesis
  proof (cases "control t")
    case Main
    then have ml: "main_loop alg env t = Some s'" using step(1) t(4) by (simp add: sched_step_def t_def)
    show ?thesis
    proof (cases "\<forall>i < num t. state (pcbs t ! i) = TERMINATED")
      case True
      then have "s' = t\<lparr>control := Done\<rparr>" using ml main_finished_iff [OF t(1)] by (simp add: main_loop_def)
      then show ?thesis using t(7) True by (simp add: times_ok_def started_def proc_cost_def)
    next
      case False
      then obtain i where "i < num t" "creation_quantum (pcbs t ! i) = current_quantum t \<or> waiting (pcbs t ! i)"
        using t(6) Main by (auto simp: no_gap_def)
      moreover have "interrupt_handler alg env t = Some s'"
        using ml False main_finished_iff [OF t(1)] by (auto simp: main_loop_def)
      ultimately show ?thesis using interrupt_on_time [OF env t(1) needs' q' _ _ clk t(7)] by blast
    qed
  next
    case Entry
    then have "process_entry env t = Some s'" using step(1) t(4) by (simp add: sched_step_def t_def)
    from entry_on_time [OF t(1) Entry clk t(7) this] show ?thesis .
  next
    case (Head p)
    then have h: "process_head env p t = Some s'" using step(1) t(4) by (simp add: sched_step_def t_def)
    have own: "own t p" using Head by (simp add: own_def)
    note B = own_block [OF t(1) own]
    show ?thesis
    proof (cases "executed_work (pcbs t ! p) < workload (pcbs t ! p)")
      case True
      then have e: "s' = t\<lparr>control := Slice p 0\<rparr>" using h B(3) by (simp add: process_head_def)
      show ?thesis
        by (rule work_on_time [OF t(1) own _ clk t(7), of s' "pcbs t ! p"]) (use Head B(4) in \<open>auto simp: e own_def\<close>)
    next
      case False
      then have "process_exit env p t = Some s'" using h B(3) by (simp add: process_head_def)
      from exit_on_time [OF t(1) Head clk t(7) this] show ?thesis .
    qed
  next
    case (Slice p i)
    then have h: "process_slice alg env p i t = Some s'" using step(1) t(4) by (simp add: sched_step_def t_def)
    have own: "own t p" using Slice by (simp add: own_def)
    note B = own_block [OF t(1) own]
    let ?t = "t\<lparr>control := Slice p (i + 1)\<rparr>"
    have move: "times_ok env ?t"
      by (rule work_on_time [OF t(1) own _ clk t(7), of ?t "pcbs t ! p"]) (use Slice B(4) in \<open>auto simp: own_def\<close>)
    show ?thesis
    proof (cases "i < 20")
      case False
      then have "s' = (upd_pcb p (\<lambda>b. b\<lparr>executed_work := executed_work b + 1\<rparr>) t)\<lparr>control := Head p\<rparr>"
        using h B(3) by (simp add: process_slice_def)
      then show ?thesis
        by (intro work_on_time [OF t(1) own _ clk t(7), of s' "(pcbs t ! p)\<lparr>executed_work := executed_work (pcbs t ! p) + 1\<rparr>"])
          (use Slice B(4) in \<open>auto simp: own_def upd_pcb_def\<close>)
    next
      case True
      show ?thesis
      proof (cases "g_interrupt t")
        case False
        then show ?thesis using h True move by (simp add: process_slice_def Let_def)
      next
        case int: True
        have it: "sched_inv ?t" using slice_move [OF t(1) Slice True] by (simp add: step_gives_def)
        have "own ?t p" by (simp add: own_def)
        note B' = own_block [OF it this]
        have "\<forall>j < num ?t. needs (pcbs ?t ! j)" using needs' by simp
        moreover have "interrupt_handler alg env ?t = Some s'" using h True int by (simp add: process_slice_def Let_def)
        ultimately show ?thesis using interrupt_on_time [OF env it, of p] B'(1,4) q' clk move by simp
      qed
    qed
  qed (use nd' in auto)
qed

text \<open>The whole run, with the times.\<close>

lemma run_times:
  assumes env: "env_ok env" and "sched_inv s" "\<forall>j < num s. needs (pcbs s ! j)"
    "steady_arrivals s" "begun s \<le> quantum s" "steady_clock env" "times_ok env s"
    "quantum s + length as < 2 ^ 32"
  shows "\<exists>s'. sched_steps alg env as s = Some s' \<and> times_ok env s'"
  using assms(2-)
proof (induction as arbitrary: s)
  case (Cons a as)
  show ?case
  proof (cases "control s = Done")
    case True
    then have "sched_step alg env a s = Some s" by (simp add: sched_step_def signal_handler_def)
    then show ?thesis using Cons.IH [OF Cons.prems(1-6)] Cons.prems(7) by simp
  next
    case False
    have q: "quantum s + 1 < 2 ^ 32" using Cons.prems(7) by simp
    have gap: "no_gap s" by (rule no_gap_steady [OF Cons.prems(1,3,4)])
    obtain s' where s': "sched_step alg env a s = Some s'" "step_gives s s'"
      using step_ok [OF env Cons.prems(1,2) q gap False] by blast
    have st: "sched_inv s'" "num s' = num s" "\<forall>j < num s. static (pcbs s' ! j) = static (pcbs s ! j)"
      "quantum s' \<le> quantum s + 1"
      using s'(2) by (simp_all add: step_gives_def)
    have needs': "\<forall>j < num s'. needs (pcbs s' ! j)" using st(2,3) Cons.prems(2) needs_static by metis
    have b: "begun s' \<le> quantum s'"
      using step_begun [OF env Cons.prems(1,2) q gap False s'(1)] Cons.prems(4) by linarith
    have q': "quantum s' + length as < 2 ^ 32" using st(4) Cons.prems(7) by simp
    have "times_ok env s'" by (rule step_on_time [OF env Cons.prems(1,2) q gap False Cons.prems(5,6) s'])
    from Cons.IH [OF st(1) needs' steady_static [OF st(2,3) Cons.prems(3)] b Cons.prems(5) this q'] s'(1)
    show ?thesis by simp
  qed
qed simp

end

text \<open>For each of the algorithms, from what the loader leaves behind.\<close>

lemma loaded_times: "loaded s \<Longrightarrow> times_ok env s"
proof -
  assume l: "loaded s"
  have "\<not> started s i" "state (pcbs s ! i) = CREATED" if "i < num s" for i
    using created_not_started [OF loaded_inv [OF l] that] l that by (auto simp: loaded_def)
  then show ?thesis by (simp add: times_ok_def on_time_def)
qed

lemma loaded_begun: "loaded s \<Longrightarrow> begun s \<le> quantum s"
proof -
  assume l: "loaded s"
  then have "{j. j < num s \<and> state (pcbs s ! j) = TERMINATED} = {}" by (auto simp: loaded_def)
  then show ?thesis unfolding begun_def using l by (simp add: loaded_def)
qed

lemma early_arrivals: "\<lbrakk>loaded s; steady_arrivals s\<rbrakk> \<Longrightarrow> \<forall>j < num s. early_creation (pcbs s ! j)"
proof (intro allI impI)
  fix j assume "loaded s" "steady_arrivals s" "j < num s"
  then have "unat (creation_quantum (pcbs s ! j)) < 100"
    using steady_early [of s j] by (simp add: loaded_def NUM_PROCESSES_def)
  then show "early_creation (pcbs s ! j)" by (simp add: early_creation_def INT_MAX_def word_less_nat_alt)
qed

lemma all_algorithms_on_time:
  assumes "loaded s" "fair_rnd env" "steady_arrivals s" "steady_clock env" "length as < 2 ^ 32"
    and specs: "\<forall>j < num s. small_workload (pcbs s ! j) \<and> has_priority (pcbs s ! j)"
  shows "\<exists>s'. sched_steps (select_algo a) env as s = Some s' \<and> times_ok env s'"
proof -
  have inv: "sched_inv s" and q: "quantum s + length as < 2 ^ 32"
    using loaded_inv [OF assms(1)] assms(1,5) by (auto simp: loaded_def)
  note r = assms(3) loaded_begun [OF assms(1)] assms(4) loaded_times [OF assms(1)] q
  have small: "\<forall>j < num s. small_workload (pcbs s ! j)" and pr: "\<forall>j < num s. has_priority (pcbs s ! j)"
    using specs by auto
  show ?thesis
    unfolding select_algo_def
    using basic.run_times [OF _ inv _ r] fifo.run_times [OF _ inv early_arrivals [OF assms(1,3)] r]
      sjf.run_times [OF _ inv small r] psjf.run_times [OF _ inv small r]
      sctf.run_times [OF _ inv small r] rr.run_times [OF _ inv _ r]
      priority.run_times [OF _ inv pr r] insanity.run_times [OF assms(2) inv _ r]
    by simp
qed

text \<open>Each of the algorithms runs to completion.\<close>

lemma all_algorithms_complete:
  assumes "loaded s" "fair_rnd env" and arr: "steady_arrivals s"
    and specs: "\<forall>j < num s. small_workload (pcbs s ! j) \<and> has_priority (pcbs s ! j)"
    and time: "(\<Sum>j < num s. 22 * unat (workload (pcbs s ! j)) + 3) + 1 \<le> length as"
      "(\<Sum>j < num s. 22 * unat (workload (pcbs s ! j)) + 3) + 1 < 2 ^ 32"
  shows "\<exists>s'. sched_steps (select_algo a) env as s = Some s' \<and> control s' = Done
    \<and> sched_inv s' \<and> num s' = num s \<and> (\<forall>j < num s. static (pcbs s' ! j) = static (pcbs s ! j))
    \<and> (\<forall>j < num s. state (pcbs s' ! j) = TERMINATED
         \<and> executed_work (pcbs s' ! j) = workload (pcbs s ! j))"
proof -
  have inv: "sched_inv s" using assms(1) by (rule loaded_inv)
  have L: "quantum s = 0" "control s = Main" and created: "\<And>j. j < num s \<Longrightarrow> state (pcbs s ! j) = CREATED
      \<and> ctx (pcbs s ! j) = None \<and> executed_work (pcbs s ! j) = 0" using assms(1) by (auto simp: loaded_def)
  have "proc_cost s j = 22 * unat (workload (pcbs s ! j)) + 3" if "j < num s" for j
    using created [OF that] L by (simp add: proc_cost_def position_def own_def cost_at_def)
  then have left: "steps_left s = (\<Sum>j < num s. 22 * unat (workload (pcbs s ! j)) + 3) + 1"
    using L by (simp add: steps_left_def)
  have q: "quantum s + steps_left s < 2 ^ 32" "steps_left s \<le> length as"
    using left time L by simp_all
  have early: "\<forall>j < num s. early_creation (pcbs s ! j)" by (rule early_arrivals [OF assms(1) arr])
  have zero: "begun s \<le> quantum s" by (rule loaded_begun [OF assms(1)])
  have small: "\<forall>j < num s. small_workload (pcbs s ! j)" and pr: "\<forall>j < num s. has_priority (pcbs s ! j)"
    using specs by auto
  have "\<exists>s'. sched_steps (select_algo a) env as s = Some s' \<and> control s' = Done \<and> sched_inv s'
      \<and> num s' = num s \<and> (\<forall>j < num s. static (pcbs s' ! j) = static (pcbs s ! j))"
    unfolding select_algo_def
    using basic.run_finishes [OF _ inv _ arr zero q] fifo.run_finishes [OF _ inv early arr zero q]
      sjf.run_finishes [OF _ inv small arr zero q] psjf.run_finishes [OF _ inv small arr zero q]
      sctf.run_finishes [OF _ inv small arr zero q] rr.run_finishes [OF _ inv _ arr zero q]
      priority.run_finishes [OF _ inv pr arr zero q] insanity.run_finishes [OF assms(2) inv _ arr zero q]
    by simp
  then obtain s' where s': "sched_steps (select_algo a) env as s = Some s'" "control s' = Done"
    "sched_inv s'" "num s' = num s" "\<forall>j < num s. static (pcbs s' ! j) = static (pcbs s ! j)" by blast
  have "state (pcbs s' ! j) = TERMINATED \<and> executed_work (pcbs s' ! j) = workload (pcbs s ! j)"
    if j: "j < num s" for j
  proof -
    have t: "state (pcbs s' ! j) = TERMINATED"
      using s'(2-4) j by (simp add: inv_at_def control_ok_def)
    have "executed_work (pcbs s' ! j) = workload (pcbs s' ! j)"
      using inv_pcb [OF s'(3), of j] t j s'(4) by (simp add: pcb_ok_def)
    with t s'(5) j show ?thesis by (simp add: static_def)
  qed
  with s' show ?thesis by blast
qed

end
