(* ===== verification/Sched_Props.thy ===== *)
theory Sched_Props
  imports Sched_Times "HOL-Library.Multiset"
begin

text \<open>The properties of the scheduler and of the summary that it prints.\<close>

section \<open>The sort of the completion order\<close>

fun bub :: "(int \<times> string) list \<Rightarrow> (int \<times> string) list" where
  "bub (x # y # zs) = (if fst y < fst x then y # bub (x # zs) else x # bub (y # zs))"
| "bub xs = xs"

lemma swap_if_at:
  "swap_if (as @ x # y # zs) (length as) = as @ (if fst y < fst x then y # x # zs else x # y # zs)"
  by (simp add: swap_if_def nth_append list_update_append)

lemma bubble_pass_loop:
  "foldl swap_if (as @ x # zs) [length as..<length as + length zs] = as @ bub (x # zs)"
proof (induction zs arbitrary: as x)
  case (Cons y zs)
  have up: "[length as..<length as + length (y # zs)]
      = length as # [length (as @ [x])..<length (as @ [x]) + length zs]"
    by (simp add: upt_conv_Cons del: upt_Suc)
  show ?case
  proof (cases "fst y < fst x")
    case True
    then have "foldl swap_if (as @ x # y # zs) [length as..<length as + length (y # zs)]
      = foldl swap_if ((as @ [y]) @ x # zs) [length (as @ [y])..<length (as @ [y]) + length zs]"
      unfolding up by (simp add: swap_if_at)
    also have "\<dots> = (as @ [y]) @ bub (x # zs)" by (rule Cons.IH)
    finally show ?thesis using True by simp
  next
    case False
    then have "foldl swap_if (as @ x # y # zs) [length as..<length as + length (y # zs)]
      = foldl swap_if ((as @ [x]) @ y # zs) [length (as @ [x])..<length (as @ [x]) + length zs]"
      unfolding up by (simp add: swap_if_at)
    also have "\<dots> = (as @ [x]) @ bub (y # zs)" by (rule Cons.IH)
    finally show ?thesis using False by simp
  qed
qed simp

lemma bubble_pass_bub: "bubble_pass = bub"
proof
  fix xs show "bubble_pass xs = bub xs"
    using bubble_pass_loop [of "[]" "hd xs" "tl xs"]
    by (cases xs) (simp_all add: bubble_pass_def)
qed

lemma bub_mset [simp]: "mset (bub xs) = mset xs"
  by (induction xs rule: bub.induct) auto

lemma bub_length [simp]: "length (bub xs) = length xs"
  by (induction xs rule: bub.induct) auto

lemma bub_stable: "filter (\<lambda>x. k = fst x) (bub xs) = filter (\<lambda>x. k = fst x) xs"
  by (induction xs rule: bub.induct) auto

lemma bub_sorted: "sorted (map fst xs) \<Longrightarrow> bub xs = xs"
  by (induction xs rule: bub.induct) auto

lemma bub_append:
  "\<lbrakk>as \<noteq> []; \<forall>a \<in> set as. \<forall>b \<in> set bs. fst a \<le> fst b; sorted (map fst bs)\<rbrakk> \<Longrightarrow>
   bub (as @ bs) = bub as @ bs"
  by (induction as rule: bub.induct) (auto simp: bub_sorted)

lemma bub_last:
  "xs \<noteq> [] \<Longrightarrow> \<exists>ys m. bub xs = ys @ [m] \<and> (\<forall>y \<in> set ys. fst y \<le> fst m)"
proof (induction xs rule: bub.induct)
  case (1 x y zs)
  show ?case
  proof (cases "fst y < fst x")
    case True
    from "1.IH"(1) [OF True] obtain ys m where b: "bub (x # zs) = ys @ [m]" "\<forall>y \<in> set ys. fst y \<le> fst m" by auto
    have "x \<in> set (ys @ [m])" using bub_mset [of "x # zs"] b by (metis list.set_intros(1) mset_eq_setD)
    then have "fst x \<le> fst m" using b(2) by auto
    with True b show ?thesis by (intro exI [of _ "y # ys"] exI [of _ m]) auto
  next
    case False
    from "1.IH"(2) [OF False] obtain ys m where b: "bub (y # zs) = ys @ [m]" "\<forall>y \<in> set ys. fst y \<le> fst m" by auto
    have "y \<in> set (ys @ [m])" using bub_mset [of "y # zs"] b by (metis list.set_intros(1) mset_eq_setD)
    then have "fst y \<le> fst m" using b(2) by auto
    with False b show ?thesis by (intro exI [of _ "x # ys"] exI [of _ m]) auto
  qed
qed auto

lemma passes:
  "k \<le> length xs \<Longrightarrow> \<exists>as bs. (bub ^^ k) xs = as @ bs \<and> length bs = k \<and> sorted (map fst bs)
     \<and> (\<forall>a \<in> set as. \<forall>b \<in> set bs. fst a \<le> fst b)"
proof (induction k)
  case (Suc k)
  then obtain as bs where IH: "(bub ^^ k) xs = as @ bs" "length bs = k" "sorted (map fst bs)"
    "\<forall>a \<in> set as. \<forall>b \<in> set bs. fst a \<le> fst b" by auto
  have "length ((bub ^^ k) xs) = length xs" by (induction k) auto
  then have ne: "as \<noteq> []" using IH(1,2) Suc.prems by auto
  obtain ys m where m: "bub as = ys @ [m]" "\<forall>y \<in> set ys. fst y \<le> fst m" using bub_last [OF ne] by blast
  have "set (ys @ [m]) = set as" using m(1) bub_mset [of as] by (metis mset_eq_setD)
  moreover have "(bub ^^ Suc k) xs = ys @ (m # bs)" using IH bub_append [OF ne IH(4,3)] m(1) by simp
  ultimately show ?case using IH m(2)
    by (intro exI [of _ ys] exI [of _ "m # bs"]) auto
qed simp

lemma sorted_after:
  assumes "xs \<noteq> []"
  shows "sorted (map fst ((bub ^^ (length xs - 1)) xs))"
proof -
  obtain as bs where r: "(bub ^^ (length xs - 1)) xs = as @ bs" "length bs = length xs - 1"
    "sorted (map fst bs)" "\<forall>a \<in> set as. \<forall>b \<in> set bs. fst a \<le> fst b"
    using passes [of "length xs - 1" xs] by auto
  have "length ((bub ^^ n) xs) = length xs" for n by (induction n) auto
  then have "length as + length bs = length xs" using r(1) by (metis length_append)
  then have "length as = Suc 0" using r(2) assms by (cases xs) auto
  then obtain a where "as = [a]" by (auto simp: length_Suc_conv)
  with r show ?thesis by auto
qed

lemma bubble_sort_key: "((bubble_pass ^^ (length xs - 1)) xs) = sort_key fst xs"
proof (cases "xs = []")
  case False
  have "mset ((bub ^^ n) xs) = mset xs" for n by (induction n) auto
  moreover have "filter (\<lambda>x. k = fst x) ((bub ^^ n) xs) = filter (\<lambda>x. k = fst x) xs" for n k
    by (induction n) (auto simp: bub_stable)
  ultimately show ?thesis
    unfolding bubble_pass_bub using sorted_after [OF False]
    by (intro properties_for_sort_key [symmetric]) (auto simp: eq_commute)
qed simp

section \<open>Properties\<close>

text \<open>Two processes of two work units and one, for concrete runs.\<close>

definition demo_pcb :: "string \<Rightarrow> u32 \<Rightarrow> u32 \<Rightarrow> u32 \<Rightarrow> pcb" where
  "demo_pcb n q w pr = empty_pcb\<lparr>name := n, creation_quantum := q, workload := w, prio := pr\<rparr>"

definition demo_sched :: "pcb list \<Rightarrow> sched" where
  "demo_sched ps = sched_init\<lparr>num_processes := word_of_nat (length ps),
     pcbs := ps @ replicate (100 - length ps) empty_pcb\<rparr>"

definition demo_rnd :: sched_env where
  "demo_rnd = \<lparr>clock = of_nat, rnd = id\<rparr>"

lemma demo_rnd_fair: "fair_rnd demo_rnd"
  unfolding fair_rnd_def
proof (intro allI impI)
  fix n i k :: nat assume "i < n"
  then have "k \<le> i + n * k" "rnd demo_rnd (i + n * k) mod n = i"
    by (auto simp: demo_rnd_def intro: trans_le_add2)
  then show "\<exists>j \<ge> k. rnd demo_rnd j mod n = i" by blast
qed

abbreviation demo2 :: sched where
  "demo2 \<equiv> demo_sched [demo_pcb ''A'' 0 2 1, demo_pcb ''B'' 0 1 2]"

lemma below_two: "(\<forall>j < 2. P j) \<longleftrightarrow> P 0 \<and> P (1 :: nat)" "(\<Sum>j < 2. f j) = f 0 + f (1 :: nat)"
  by (auto simp: less_2_cases_iff) (simp add: numeral_2_eq_2)

lemma demo_num: "length ps \<le> 100 \<Longrightarrow> num (demo_sched ps) = length ps"
  by (simp add: demo_sched_def sched_init_def unat_of_nat)

lemma demo_loaded:
  assumes "ps \<noteq> []" "length ps \<le> 100"
    "list_all (\<lambda>p. state p = CREATED \<and> ctx p = None \<and> executed_work p = 0) ps"
  shows "loaded (demo_sched ps)"
  using assms demo_num [OF assms(2)] unfolding loaded_def
  by (auto simp: NUM_PROCESSES_def list_all_length nth_append) (simp_all add: demo_sched_def sched_init_def nth_append)

lemma demo2_loaded: "loaded demo2"
  by (rule demo_loaded) (simp_all add: demo_pcb_def empty_pcb_def)

text \<open>
  C4: with any of the eight algorithms, any interrupt pattern and any clock, a table whose
  processes have a positive priority and less work than \<open>INT_MAX\<close>, and arrive early enough (up to
  each quantum more than the number of quanta before it, as long as there are so many), runs to
  completion within one step more than three per process and 22 per unit of work, if these are
  fewer than \<open>2^32\<close>: no step is undefined, and every process ends with all its work done (for
  \<open>insanity\<close>, if the draws hit every process).
\<close>

theorem schedulers_complete:
  assumes "loaded s" "fair_rnd env" and arr: "steady_arrivals s"
    and specs: "\<forall>j < num s. small_workload (pcbs s ! j) \<and> has_priority (pcbs s ! j)"
    and time: "(\<Sum>j < num s. 22 * unat (workload (pcbs s ! j)) + 3) + 1 \<le> length as"
      "(\<Sum>j < num s. 22 * unat (workload (pcbs s ! j)) + 3) + 1 < 2 ^ 32"
  shows "\<exists>s'. sched_steps (select_algo a) env as s = Some s' \<and> control s' = Done
    \<and> (\<forall>j < num s. state (pcbs s' ! j) = TERMINATED
         \<and> executed_work (pcbs s' ! j) = workload (pcbs s ! j))"
  using all_algorithms_complete [OF assms] by blast

theorem schedulers_complete_witness:
  "\<exists>s'. sched_steps (select_algo ''sctf'') demo_rnd (replicate 73 True) demo2 = Some s' \<and> control s' = Done"
proof -
  have n: "num demo2 = 2" by (simp add: demo_num)
  have p: "pcbs demo2 ! 0 = demo_pcb ''A'' 0 2 1" "pcbs demo2 ! 1 = demo_pcb ''B'' 0 1 2"
    by (simp_all add: demo_sched_def)
  have sum: "(\<Sum>j < num demo2. 22 * unat (workload (pcbs demo2 ! j)) + 3) + 1 = 73"
    using p unfolding n below_two by (simp add: demo_pcb_def)
  have "creation_quantum (pcbs demo2 ! j) = 0" if "j < num demo2" for j
    using p that unfolding n by (auto simp: demo_pcb_def less_2_cases_iff)
  then have "{j. j < num demo2 \<and> unat (creation_quantum (pcbs demo2 ! j)) \<le> q} = {..<num demo2}" for q by auto
  then have arr: "steady_arrivals demo2" by (simp add: steady_arrivals_def)
  have specs: "\<forall>j < num demo2. small_workload (pcbs demo2 ! j)
        \<and> has_priority (pcbs demo2 ! j)"
    using p unfolding n below_two
    by (simp add: demo_pcb_def small_workload_def has_priority_def INT_MAX_def)
  show ?thesis
    using schedulers_complete [OF demo2_loaded demo_rnd_fair arr specs, of "replicate 73 True" "''sctf''"]
    unfolding sum by auto
qed

text \<open>
  C16: the basic and the round robin scheduler are safe for every set of processes, also when
  none has arrived for a while: whatever the interrupts, no step is undefined, at most one
  process is running, it is the current one and its code has the control, and a terminated
  process has done exactly its work. Processes that have not been created have done none.
\<close>

theorem basic_and_rr_safe:
  assumes "loaded s" "alg = basic \<or> alg = rr" "length as < 2 ^ 32"
  shows "\<exists>s'. sched_steps alg env as s = Some s' \<and> control s' \<noteq> Aborted
    \<and> (\<forall>j < num s. (state (pcbs s' ! j) = RUNNING \<longrightarrow> j = current s' \<and> own s' j)
         \<and> (state (pcbs s' ! j) = TERMINATED \<longrightarrow> executed_work (pcbs s' ! j) = workload (pcbs s ! j))
         \<and> (state (pcbs s' ! j) = CREATED \<longrightarrow> executed_work (pcbs s' ! j) = 0))"
proof -
  have inv: "sched_inv s" and q: "quantum s + length as < 2 ^ 32"
    using assms loaded_inv by (auto simp: loaded_def)
  obtain s' where s': "sched_steps alg env as s = Some s'" "sched_inv s'" "num s' = num s"
    "\<forall>j < num s. static (pcbs s' ! j) = static (pcbs s ! j)"
    using basic.run_safe [OF _ inv _ q, of env] rr.run_safe [OF _ inv _ q, of env] assms(2) by auto
  have "(state (pcbs s' ! j) = RUNNING \<longrightarrow> j = current s' \<and> own s' j)
         \<and> (state (pcbs s' ! j) = TERMINATED \<longrightarrow> executed_work (pcbs s' ! j) = workload (pcbs s ! j))
         \<and> (state (pcbs s' ! j) = CREATED \<longrightarrow> executed_work (pcbs s' ! j) = 0)"
    if j: "j < num s" for j
    using inv_pcb [OF s'(2), of j] j s'(3,4) running_own [OF s'(2), of j]
      inv_own_current [OF s'(2), of j] by (auto simp: pcb_ok_def static_def)
  moreover have "control s' \<noteq> Aborted" using s'(2) by (auto simp: inv_at_def control_ok_def)
  ultimately show ?thesis using s'(1) by blast
qed

theorem basic_and_rr_safe_witness:
  "\<exists>s'. sched_steps rr demo_rnd (replicate 40 True) demo2 = Some s' \<and> control s' \<noteq> Aborted"
  using basic_and_rr_safe [OF demo2_loaded, of rr "replicate 40 True" demo_rnd] by auto

text \<open>
  Round robin takes the processes in turn: it switches to the first waiting process behind
  the current one, and to the first of the table when there is none behind it.
\<close>

theorem rr_takes_turns:
  assumes "procs s = Some ps" "j < length ps" "waiting (ps ! j)"
  shows "\<exists>i. rr env s = context_switch i s \<and> i < length ps \<and> waiting (ps ! i)
    \<and> (if current s < i then \<forall>k. current s < k \<and> k < i \<longrightarrow> \<not> waiting (ps ! k)
       else (\<forall>k. current s < k \<and> k < length ps \<longrightarrow> \<not> waiting (ps ! k)) \<and> (\<forall>k < i. \<not> waiting (ps ! k)))"
  using rr_selects [OF assms, of env] unfolding rr_next_def by blast

text \<open>A table whose processes have all arrived.\<close>

abbreviation arrived2 :: sched where
  "arrived2 \<equiv> demo_sched [(demo_pcb ''A'' 0 2 1)\<lparr>state := WAITING, ctx := Some Entry\<rparr>,
     (demo_pcb ''B'' 0 1 2)\<lparr>state := WAITING, ctx := Some Entry\<rparr>]"

lemma arrived2_procs: "procs arrived2 = Some [(demo_pcb ''A'' 0 2 1)\<lparr>state := WAITING, ctx := Some Entry\<rparr>,
     (demo_pcb ''B'' 0 1 2)\<lparr>state := WAITING, ctx := Some Entry\<rparr>]"
  by (simp add: procs_def demo_sched_def sched_init_def)

theorem rr_takes_turns_witness:
  "\<exists>i. rr demo_rnd arrived2 = context_switch i arrived2 \<and> (current arrived2 < i \<longrightarrow> i = 1)"
proof -
  obtain i where i: "rr demo_rnd arrived2 = context_switch i arrived2" "i < 2"
    using rr_takes_turns [OF arrived2_procs, of 0 demo_rnd] by auto
  then have "i = 0 \<or> i = 1" by auto
  then have "current arrived2 < i \<longrightarrow> i = 1" by auto
  with i show ?thesis by blast
qed

text \<open>
  C19: when a process is waiting whose key is in the range of the searches, \<open>fifo\<close> switches to the
  one created first, \<open>sjf\<close> to the one with the least work and \<open>priority\<close> to the one with the
  highest priority; ties go to the smaller index. \<open>psjf\<close> and \<open>sctf\<close> switch back to the process
  that was interrupted, whenever there is one; only otherwise they select the least work, and the
  least work that is left.
\<close>

theorem selections_optimal:
  assumes "inv_at WAITING (quantum s + 1) s" "j < num s" "waiting (pcbs s ! j)"
    and "early_creation (pcbs s ! j)" "small_workload (pcbs s ! j)" "has_priority (pcbs s ! j)"
  shows "(\<exists>i. fifo env s = context_switch i s \<and> selects (<) creation_quantum (take (num s) (pcbs s)) i)
    \<and> (\<exists>i. sjf env s = context_switch i s \<and> selects (<) workload (take (num s) (pcbs s)) i)
    \<and> (\<exists>i. priority env s = context_switch i s \<and> selects (>) prio (take (num s) (pcbs s)) i)
    \<and> (if 0 < current_quantum s \<and> waiting (pcbs s ! current s)
       then psjf env s = context_switch (current s) s \<and> sctf env s = context_switch (current s) s
       else (\<exists>i. psjf env s = context_switch i s \<and> selects (<) workload (take (num s) (pcbs s)) i)
          \<and> (\<exists>i. sctf env s = context_switch i s
               \<and> selects (<) (\<lambda>p. workload p - executed_work p) (take (num s) (pcbs s)) i))"
proof (intro conjI)
  note P = prepared [OF assms(1)]
  note see = sees_all [OF assms(1-3)]
  show "\<exists>i. fifo env s = context_switch i s \<and> selects (<) creation_quantum (take (num s) (pcbs s)) i"
    using see [where key = creation_quantum and init = "word_of_int INT_MAX" and dflt = None]
      assms(4) P(1,2) P(6) [OF P(5)] by (auto simp: fifo_def early_creation_def)
  show "\<exists>i. sjf env s = context_switch i s \<and> selects (<) workload (take (num s) (pcbs s)) i"
    using see [where key = workload and init = "word_of_int INT_MAX" and dflt = "Some 0"]
      assms(5) P(1) by (auto simp: sjf_def small_workload_def)
  have "j < length (take (num s) (pcbs s))" using P(3) assms(2) by simp
  then show "\<exists>i. priority env s = context_switch i s \<and> selects (>) prio (take (num s) (pcbs s)) i"
    using greatest_waiting [of j "take (num s) (pcbs s)" 0 prio "Some 0"] assms P(1,4)
    by (auto simp: priority_def has_priority_def)
  have "workload (pcbs s ! j) - executed_work (pcbs s ! j) \<le> workload (pcbs s ! j)"
    using P(7) [OF assms(2)] by (rule word_sub_le)
  also have w: "\<dots> < word_of_int INT_MAX" using assms(5) by (simp add: small_workload_def)
  finally have left: "workload (pcbs s ! j) - executed_work (pcbs s ! j) < word_of_int INT_MAX" .
  show "if 0 < current_quantum s \<and> waiting (pcbs s ! current s)
       then psjf env s = context_switch (current s) s \<and> sctf env s = context_switch (current s) s
       else (\<exists>i. psjf env s = context_switch i s \<and> selects (<) workload (take (num s) (pcbs s)) i)
          \<and> (\<exists>i. sctf env s = context_switch i s
               \<and> selects (<) (\<lambda>p. workload p - executed_work p) (take (num s) (pcbs s)) i)"
    using see [where key = workload, OF w, of "Some 0"] see [where key = "\<lambda>p. workload p - executed_work p", OF left, of "Some 0"]
      P(1,2) by (auto simp: psjf_def sctf_def)
qed

lemma inv_at_two: "num s = 2 \<Longrightarrow> inv_at run arr s \<longleftrightarrow> table_ok s \<and> control_ok s
    \<and> pcb_ok run arr s 0 (pcbs s ! 0) \<and> pcb_ok run arr s 1 (pcbs s ! 1)"
  by (simp add: inv_at_def below_two)

lemma arrived2_inv: "inv_at WAITING (quantum arrived2 + 1) arrived2"
  by (subst inv_at_two, simp add: demo_num)
    (simp add: demo_sched_def sched_init_def table_ok_def control_ok_def NUM_PROCESSES_def pcb_ok_def
      own_def at_ok_def demo_pcb_def empty_pcb_def)

theorem selections_optimal_witness:
  "(\<exists>i. sjf demo_rnd arrived2 = context_switch i arrived2
     \<and> selects (<) workload (take (num arrived2) (pcbs arrived2)) i)"
proof -
  have p: "pcbs arrived2 ! 0 = (demo_pcb ''A'' 0 2 1)\<lparr>state := WAITING, ctx := Some Entry\<rparr>"
    by (simp add: demo_sched_def)
  show ?thesis
    using selections_optimal [OF arrived2_inv, of 0 demo_rnd] unfolding p
    by (simp add: demo_num early_creation_def small_workload_def has_priority_def demo_pcb_def
        empty_pcb_def INT_MAX_def)
qed

text \<open>
  \<open>psjf\<close> and \<open>sctf\<close> never preempt: once the first quantum is over, an interrupted process is
  resumed by both, whatever shorter processes are waiting.
\<close>

theorem psjf_sctf_never_preempt:
  assumes "current_pcb s = Some p" "waiting p" "current_quantum s > 0"
  shows "psjf env s = context_switch (current s) s \<and> sctf env s = context_switch (current s) s"
  using assms by (simp add: psjf_def sctf_def)

text \<open>Process A is running with two units of work, B waits with one.\<close>

abbreviation interrupted2 :: sched where
  "interrupted2 \<equiv> arrived2\<lparr>current_quantum := 1\<rparr>"

theorem psjf_sctf_never_preempt_witness:
  "psjf demo_rnd interrupted2 = context_switch 0 interrupted2
   \<and> workload (pcbs interrupted2 ! 1) < workload (pcbs interrupted2 ! 0)"
proof -
  have p: "current_pcb interrupted2 = Some ((demo_pcb ''A'' 0 2 1)\<lparr>state := WAITING, ctx := Some Entry\<rparr>)"
    by (simp add: current_pcb_def pcb_at_def demo_sched_def sched_init_def)
  have "psjf demo_rnd interrupted2 = context_switch (current interrupted2) interrupted2"
    using psjf_sctf_never_preempt [OF p] by simp
  moreover have "current interrupted2 = 0" by (simp add: demo_sched_def sched_init_def)
  ultimately show ?thesis by (simp add: demo_sched_def demo_pcb_def)
qed

text \<open>
  A process with priority 0 never runs under \<open>priority\<close> unless it is the first of the table:
  whatever \<open>priority\<close> switches to, it is process 0 or a waiting process with a positive priority.
\<close>

theorem priority_zero_starves:
  assumes "procs s = Some ps"
  shows "\<exists>i. priority env s = context_switch i s
    \<and> (i = 0 \<or> (i < length ps \<and> waiting (ps ! i) \<and> 0 < prio (ps ! i)))"
proof (cases "\<exists>j < length ps. waiting (ps ! j) \<and> 0 < prio (ps ! j)")
  case True
  then obtain j where j: "j < length ps" "waiting (ps ! j)" "0 < prio (ps ! j)" by blast
  from greatest_waiting [of j ps 0 prio "Some 0"] j obtain i where
    "best_waiting (>) prio ps 0 (Some 0) = Some i" "selects (>) prio ps i" by auto
  moreover then have "0 < prio (ps ! i)" using j by (auto simp: selects_def)
  ultimately show ?thesis using assms by (auto simp: priority_def selects_def)
next
  case False
  then have "best_waiting (>) prio ps 0 (Some 0) = Some 0"
    by (intro best_waiting_none [OF strict_orders(2)]) auto
  then show ?thesis using assms by (intro exI [of _ 0]) (simp add: priority_def)
qed

theorem priority_zero_starves_witness:
  "\<exists>i. priority demo_rnd arrived2 = context_switch i arrived2"
  using priority_zero_starves [OF arrived2_procs, of demo_rnd] by blast

text \<open>
  When nothing is waiting (the next process has not been created yet), \<open>sjf\<close> switches to
  process 0 all the same. If that is the current process and it has terminated, it is marked
  running again while the control stays in main, so the program goes on without any process.
\<close>

theorem sjf_revives_process_zero:
  assumes "procs s = Some ps" "ps \<noteq> []" "\<forall>p \<in> set ps. \<not> waiting p"
    and "current_process s = 0" "current_quantum s > 0"
  shows "\<exists>s'. sjf env s = Some s' \<and> state (pcbs s' ! 0) = RUNNING \<and> control s' = control s
    \<and> current_quantum s' = current_quantum s + 1"
proof -
  have len: "num s \<le> length (pcbs s)" "ps = take (num s) (pcbs s)"
    using assms(1) by (auto simp: procs_def split: if_splits)
  then have n: "0 < num s" "pcbs s \<noteq> []" using assms(2) by auto
  have "best_waiting (<) workload ps (word_of_int INT_MAX) (Some 0) = Some 0"
    using assms(3) by (intro best_waiting_none [OF strict_orders(1)]) auto
  then have "sjf env s = context_switch 0 s" using assms(1) by (simp add: sjf_def)
  then show ?thesis
    using n assms(4,5) by (simp add: context_switch_def current_pcb_def pcb_at_def)
qed

text \<open>A has terminated in the second quantum, B is created in the fifth.\<close>

abbreviation gap2 :: sched where
  "gap2 \<equiv> (demo_sched [(demo_pcb ''A'' 0 0 1)\<lparr>state := TERMINATED\<rparr>, demo_pcb ''B'' 5 1 2])
     \<lparr>current_quantum := 1\<rparr>"

lemma gap2_procs: "procs gap2 = Some [(demo_pcb ''A'' 0 0 1)\<lparr>state := TERMINATED\<rparr>, demo_pcb ''B'' 5 1 2]"
  by (simp add: procs_def demo_sched_def sched_init_def)

lemma gap2_fields: "current_process gap2 = 0" "current_quantum gap2 = 1" "control gap2 = Main"
  by (simp_all add: demo_sched_def sched_init_def)

theorem sjf_revives_process_zero_witness:
  "\<exists>s'. sjf demo_rnd gap2 = Some s' \<and> state (pcbs s' ! 0) = RUNNING \<and> control s' = Main"
proof -
  have "\<forall>p \<in> set [(demo_pcb ''A'' 0 0 1)\<lparr>state := TERMINATED\<rparr>, demo_pcb ''B'' 5 1 2]. \<not> waiting p"
    by (simp add: demo_pcb_def empty_pcb_def)
  moreover have "current_quantum gap2 > 0" unfolding gap2_fields by simp
  ultimately obtain s' where "sjf demo_rnd gap2 = Some s'" "state (pcbs s' ! 0) = RUNNING"
    "control s' = control gap2"
    using sjf_revives_process_zero [OF gap2_procs _ _ gap2_fields(1), of demo_rnd] by auto
  then show ?thesis using gap2_fields(3) by auto
qed

text \<open>
  The basic and the round robin scheduler never come back from such a gap: the quantum does
  not advance while nothing runs, so the process that is created in a later quantum never
  arrives, and main polls for ever.
\<close>

theorem idle_gap_is_for_ever:
  assumes "sched_inv s" "control s = Main" "alg = basic \<or> alg = rr"
    and "\<exists>j < num s. state (pcbs s ! j) \<noteq> TERMINATED"
    and "\<forall>j < num s. creation_quantum (pcbs s ! j) \<noteq> current_quantum s \<and> \<not> waiting (pcbs s ! j)"
  shows "\<exists>s'. sched_steps alg env as s = Some s' \<and> control s' = Main
    \<and> current_quantum s' = current_quantum s"
proof -
  have "\<not> no_gap s"
    using assms(2,4,5) by (auto simp: no_gap_def)
  then obtain s' where "sched_steps alg env as s = Some s'" "control s' = Main" "quantum s' = quantum s"
    using basic.gap_for_ever [OF _ assms(1,2), of env as] rr.gap_for_ever [OF _ assms(1,2), of env as]
      assms(3) by auto
  then show ?thesis by (auto simp: word_unat_eq_iff)
qed

lemma gap2_num: "num gap2 = 2"
  by (simp add: demo_sched_def sched_init_def)

lemma gap2_inv: "sched_inv gap2"
  unfolding inv_at_two [OF gap2_num]
  by (simp add: demo_sched_def sched_init_def table_ok_def control_ok_def NUM_PROCESSES_def pcb_ok_def
      own_def at_ok_def demo_pcb_def empty_pcb_def)

theorem idle_gap_is_for_ever_witness:
  "\<exists>s'. sched_steps basic demo_rnd (replicate 1000 True) gap2 = Some s' \<and> control s' = Main"
proof -
  have "\<exists>j < num gap2. state (pcbs gap2 ! j) \<noteq> TERMINATED"
    unfolding gap2_num by (rule exI [of _ 1]) (simp add: demo_sched_def demo_pcb_def empty_pcb_def)
  moreover have "\<forall>j < num gap2. creation_quantum (pcbs gap2 ! j) \<noteq> current_quantum gap2 \<and> \<not> waiting (pcbs gap2 ! j)"
    unfolding gap2_num below_two by (simp add: demo_sched_def sched_init_def demo_pcb_def empty_pcb_def)
  moreover have "control gap2 = Main" by (simp add: demo_sched_def sched_init_def)
  ultimately show ?thesis
    using idle_gap_is_for_ever [OF gap2_inv, of basic demo_rnd "replicate 1000 True"] by auto
qed

lemma completion_order_eq: "completion_order ps = map name (sort_key (\<lambda>p. \<lfloor>completion_time p\<rfloor>) ps)"
proof -
  let ?f = "\<lambda>p. (\<lfloor>completion_time p\<rfloor>, name p)"
  have stable: "filter (\<lambda>p. k = \<lfloor>completion_time p\<rfloor>) (sort_key (\<lambda>p. \<lfloor>completion_time p\<rfloor>) ps)
      = filter (\<lambda>p. k = \<lfloor>completion_time p\<rfloor>) ps" for k
    using sort_key_stable [of "\<lambda>p. \<lfloor>completion_time p\<rfloor>" k ps] by (simp add: eq_commute)
  have "sort_key fst (map ?f ps) = map ?f (sort_key (\<lambda>p. \<lfloor>completion_time p\<rfloor>) ps)"
    by (rule properties_for_sort_key) (auto simp: filter_map comp_def stable)
  then show ?thesis
    using bubble_sort_key [of "map ?f ps"] by (simp add: completion_order_def Let_def)
qed

text \<open>
  the completion order that main prints lists the processes by the second in which they
  completed, those of the same second in the order of the table: its two loops are a stable
  sort.
\<close>

theorem completion_order_sorts:
  "completion_order ps = map name (sort_key (\<lambda>p. \<lfloor>completion_time p\<rfloor>) ps)"
  by (rule completion_order_eq)

end
