(* ===== verification/Process_Spec.thy ===== *)
theory Process_Spec
  imports Tokens Sched_Inv
begin

text \<open>
  The loader of process definition files, LabWork/Lab7/file_format.c: \<open>read_spec\<close> fills the
  scheduler state from lines \<open>name, quantum, workload, priority\<close>. The file is the list of its
  bytes; what the code prints to stderr is part of the result.
\<close>

section \<open>Reading lines\<close>

text \<open>\<open>fgets(line, 1024, fp)\<close> until the end of the file: at most 1023 bytes, up to a newline.\<close>

definition fgets1 :: "string \<Rightarrow> string" where
  "fgets1 f = fgets_piece 1024 f"

lemma fgets1_pos: "f \<noteq> [] \<Longrightarrow> 0 < length (fgets1 f)"
  by (simp add: fgets1_def fgets_piece_pos del: length_greater_0_conv)

function fgets_lines :: "string \<Rightarrow> string list" where
  "fgets_lines f = (if f = [] then [] else fgets1 f # fgets_lines (drop (length (fgets1 f)) f))"
  by pat_completeness auto

termination
  using fgets1_pos by (relation "measure length") (auto simp: diff_less)

declare fgets_lines.simps [simp del]

section \<open>The loader\<close>

text \<open>
  The scan over the line: it ends at \<open>#\<close>, which becomes the end of the string, and counts the
  fields that the commas separate.
\<close>

fun scan_line :: "string \<Rightarrow> nat \<Rightarrow> string \<times> nat" where
  "scan_line [] nf = ([], nf)"
| "scan_line (c # cs) nf =
     (if c = CHR ''#'' \<or> c = NUL then ([], nf)
      else let (line, f) = scan_line cs (if c = CHR '','' then nf + 1 else nf) in (c # line, f))"

datatype load_msg = Ignoring nat string | Created string

definition delims :: string where
  "delims = [CHR '','', CHR '' '', CHR 0x09, CHR 0x0A]"

definition parse_fields :: "string \<Rightarrow> u32 \<Rightarrow> pcb option" where
  "parse_fields line n = do {
     let next = next_token_str delims;
     (st1, tok) \<leftarrow> next (line @ [NUL], Some 0);
     nm \<leftarrow> tok;
     nm \<leftarrow> strcpy_into 128 nm;
     (st2, tok) \<leftarrow> next st1;
     q \<leftarrow> Option.bind tok atoi_int;
     (st3, tok) \<leftarrow> next st2;
     w \<leftarrow> Option.bind tok atoi_int;
     (st4, tok) \<leftarrow> next st3;
     p \<leftarrow> Option.bind tok atoi_int;
     Some (empty_pcb\<lparr>pid := n, name := nm, creation_quantum := word_of_int q,
       workload := word_of_int w, prio := word_of_int p\<rparr>)
   }"

definition read_line_spec :: "string \<Rightarrow> load_msg list \<times> sched \<Rightarrow> (load_msg list \<times> sched) option" where
  "read_line_spec bytes st = (case st of (msgs, s) \<Rightarrow>
     let (line, nf) = scan_line bytes 1 in
     if length line = 0 then Some (msgs, s)
     else if nf \<noteq> 4 then Some (msgs @ [Ignoring nf line], s)
     else do {
       let n = unat (num_processes s);
       if \<not> n < length (pcbs s) then None
       else do {
         p \<leftarrow> parse_fields line (num_processes s);
         Some (msgs @ [Created (name p)],
           s\<lparr>pcbs := (pcbs s)[n := p], num_processes := num_processes s + 1\<rparr>)
       }
     })"

fun read_lines :: "string list \<Rightarrow> load_msg list \<times> sched \<Rightarrow> (load_msg list \<times> sched) option" where
  "read_lines [] st = Some st"
| "read_lines (l # ls) st = do { st' \<leftarrow> read_line_spec l st; read_lines ls st' }"

text \<open>\<open>read_spec\<close>; a file that cannot be opened is \<open>None\<close> and gives \<open>fgets\<close> a null stream.\<close>

definition read_spec :: "string option \<Rightarrow> sched \<Rightarrow> (load_msg list \<times> sched) option" where
  "read_spec file s = do { f \<leftarrow> file; read_lines (fgets_lines f) ([], s) }"

section \<open>Lines\<close>

lemma fgets_line:
  assumes "NL \<notin> set l" "length l < 1023"
  shows "fgets_lines ((l @ [NL]) @ f) = (l @ [NL]) # fgets_lines f"
proof -
  have "fgets1 ((l @ [NL]) @ f) = l @ [NL]" using assms by (simp add: fgets1_def fgets_piece_line)
  then show ?thesis by (subst fgets_lines.simps) simp
qed

lemma fgets_file:
  "list_all (\<lambda>l. NL \<notin> set l \<and> length l < 1023) ls \<Longrightarrow>
   fgets_lines (concat (map (\<lambda>l. l @ [NL]) ls)) = map (\<lambda>l. l @ [NL]) ls"
proof (induction ls)
  case (Cons l ls)
  then show ?case using fgets_line [of l "concat (map (\<lambda>l. l @ [NL]) ls)"] by simp
qed (simp add: fgets_lines.simps)

section \<open>The fields of a line are its words\<close>

lemma parse_fields_words:
  assumes "NUL \<notin> set line"
  shows "parse_fields line n = (case words_of delims line of
      nm # q # w # p # _ \<Rightarrow>
        if length nm < 128 then do {
          q \<leftarrow> atoi_int q; w \<leftarrow> atoi_int w; p \<leftarrow> atoi_int p;
          Some (empty_pcb\<lparr>pid := n, name := nm, creation_quantum := word_of_int q,
            workload := word_of_int w, prio := word_of_int p\<rparr>) }
        else None
    | _ \<Rightarrow> None)"
proof -
  let ?st = "(line @ [NUL], Some 0)"
  have wf: "tok_wf ?st" and rest: "tok_rest delims ?st = words_of delims line"
    using cstr_at_append [of line "[]" 0 "[]"] assms by (simp_all add: tok_wf_def tok_rest_def)
  have step: "\<exists>st'. next_token_str delims st = Some (st', case r of [] \<Rightarrow> None | t # _ \<Rightarrow> Some t)
      \<and> tok_wf st' \<and> tok_rest delims st' = tl r" if "tok_wf st" "tok_rest delims st = r" for st r
    using nt.next_Nil [OF that(1)] nt.next_Cons [OF that(1)] that(2) by (cases r) auto
  obtain st1 where 1: "next_token_str delims ?st = Some (st1, case words_of delims line of [] \<Rightarrow> None | t # _ \<Rightarrow> Some t)"
    "tok_wf st1" "tok_rest delims st1 = tl (words_of delims line)" using step [OF wf rest] by blast
  obtain st2 where 2: "next_token_str delims st1 = Some (st2, case tl (words_of delims line) of [] \<Rightarrow> None | t # _ \<Rightarrow> Some t)"
    "tok_wf st2" "tok_rest delims st2 = tl (tl (words_of delims line))" using step [OF 1(2,3)] by blast
  obtain st3 where 3: "next_token_str delims st2 = Some (st3, case tl (tl (words_of delims line)) of [] \<Rightarrow> None | t # _ \<Rightarrow> Some t)"
    "tok_wf st3" "tok_rest delims st3 = tl (tl (tl (words_of delims line)))" using step [OF 2(2,3)] by blast
  obtain st4 where 4: "next_token_str delims st3 = Some (st4, case tl (tl (tl (words_of delims line))) of [] \<Rightarrow> None | t # _ \<Rightarrow> Some t)"
    using step [OF 3(2,3)] by blast
  show ?thesis
    using 1(1) 2(1) 3(1) 4
    by (auto simp: parse_fields_def Let_def strcpy_into_def split: list.splits)
qed

section \<open>A file that is written as documented\<close>

type_synonym proc_spec = "string \<times> nat \<times> nat \<times> nat"

definition spec_ok :: "proc_spec \<Rightarrow> bool" where
  "spec_ok = (\<lambda>(nm, q, w, p). nm \<noteq> [] \<and> length nm < 128 \<and> set nm \<inter> set (delims @ [NUL, CHR ''#'']) = {}
     \<and> q < 2147483648 \<and> w < 2147483648 \<and> p < 2147483648)"

definition spec_line :: "proc_spec \<Rightarrow> string" where
  "spec_line = (\<lambda>(nm, q, w, p). nm @ CHR '','' # show_nat q @ CHR '','' # show_nat w @ CHR '','' # show_nat p)"

definition spec_pcb :: "nat \<Rightarrow> proc_spec \<Rightarrow> pcb" where
  "spec_pcb i = (\<lambda>(nm, q, w, p). empty_pcb\<lparr>pid := word_of_nat i, name := nm,
     creation_quantum := word_of_nat q, workload := word_of_nat w, prio := word_of_nat p\<rparr>)"

lemma digit_not_delim: "isdigit c \<Longrightarrow> c \<notin> set (delims @ [NUL, CHR ''#''])"
  by (auto simp: isdigit_def delims_def)

lemma show_nat_clean: "set (show_nat n) \<inter> set (delims @ [NUL, CHR ''#'']) = {}"
  using show_nat_digits [of n] digit_not_delim by blast

lemma scan_line_clean:
  "set l \<inter> {NUL, CHR ''#''} = {} \<Longrightarrow> scan_line l n = (l, n + count_list l (CHR '',''))"
  by (induction l arbitrary: n) auto

lemma spec_line_words:
  assumes "spec_ok (nm, q, w, p)"
  shows "words_of delims (spec_line (nm, q, w, p) @ [NL]) = [nm, show_nat q, show_nat w, show_nat p]"
proof -
  have clean: "set nm \<inter> set delims = {}" "nm \<noteq> []" "set (show_nat k) \<inter> set delims = {}" for k
    using assms show_nat_clean [of k] by (auto simp: spec_ok_def)
  have c: "CHR '','' \<in> set delims" "NL \<in> set delims" by (auto simp: delims_def)
  show ?thesis
    using clean c by (simp add: spec_line_def)
qed

lemma count_list_none: "c \<notin> set l \<Longrightarrow> count_list l c = 0"
  by (induction l) auto

lemma spec_line_scan:
  assumes "spec_ok x"
  shows "scan_line (spec_line x @ [NL]) 1 = (spec_line x @ [NL], 4)"
    and "NL \<notin> set (spec_line x)" "length (spec_line x) < 1023" "NUL \<notin> set (spec_line x @ [NL])"
proof -
  obtain nm q w p where x: "x = (nm, q, w, p)" by (cases x)
  have clean: "set nm \<inter> set (delims @ [NUL, CHR ''#'']) = {}" "set (show_nat k) \<inter> set (delims @ [NUL, CHR ''#'']) = {}" for k
    using assms show_nat_clean [of k] by (auto simp: spec_ok_def x)
  then have comma: "CHR '','' \<notin> set nm" "CHR '','' \<notin> set (show_nat k)" for k
    by (auto simp: delims_def disjoint_iff)
  have "set (spec_line x @ [NL]) \<inter> {NUL, CHR ''#''} = {}"
    using clean by (auto simp: spec_line_def x delims_def disjoint_iff)
  moreover have "count_list (spec_line x @ [NL]) (CHR '','') = 3"
    using comma by (simp add: spec_line_def x count_list_none)
  ultimately show "scan_line (spec_line x @ [NL]) 1 = (spec_line x @ [NL], 4)"
    using scan_line_clean [of "spec_line x @ [NL]" 1] by simp
  show "NL \<notin> set (spec_line x)" "NUL \<notin> set (spec_line x @ [NL])"
    using clean by (auto simp: spec_line_def x delims_def disjoint_iff)
  have "length (show_nat k) \<le> 10" if "k < 2147483648" for k
    using that by (intro show_nat_length) simp_all
  then have "length (show_nat q) \<le> 10" "length (show_nat w) \<le> 10" "length (show_nat p) \<le> 10"
    "length nm < 128" using assms by (auto simp: spec_ok_def x)
  then show "length (spec_line x) < 1023" by (simp add: spec_line_def x)
qed

lemma read_line_ok:
  assumes "spec_ok x" "num s < 100" "length (pcbs s) = 100"
  shows "read_line_spec (spec_line x @ [NL]) (msgs, s) = Some (msgs @ [Created (fst x)],
    s\<lparr>pcbs := (pcbs s)[num s := spec_pcb (num s) x], num_processes := num_processes s + 1\<rparr>)"
proof -
  obtain nm q w p where x: "x = (nm, q, w, p)" by (cases x)
  have "parse_fields (spec_line x @ [NL]) (num_processes s) = Some (spec_pcb (num s) x)"
    unfolding parse_fields_words [OF spec_line_scan(4) [OF assms(1)]]
    using spec_line_words [of nm q w p] assms(1) by (simp add: x spec_ok_def spec_pcb_def)
  then show ?thesis
    using assms spec_line_scan(1) [OF assms(1)] by (simp add: read_line_spec_def x spec_pcb_def)
qed

lemma read_lines_ok:
  "\<lbrakk>list_all spec_ok xs; num s + length xs \<le> 100; length (pcbs s) = 100\<rbrakk> \<Longrightarrow>
   \<exists>s'. read_lines (map (\<lambda>x. spec_line x @ [NL]) xs) (msgs, s) = Some (msgs @ map (Created \<circ> fst) xs, s')
     \<and> num s' = num s + length xs \<and> length (pcbs s') = 100
     \<and> (\<forall>i < num s. pcbs s' ! i = pcbs s ! i)
     \<and> (\<forall>i < length xs. pcbs s' ! (num s + i) = spec_pcb (num s + i) (xs ! i))
     \<and> s' = s\<lparr>pcbs := pcbs s', num_processes := num_processes s'\<rparr>"
proof (induction xs arbitrary: s msgs)
  case (Cons x xs)
  let ?s = "s\<lparr>pcbs := (pcbs s)[num s := spec_pcb (num s) x], num_processes := num_processes s + 1\<rparr>"
  have n: "num ?s = num s + 1" using Cons.prems(2) by (simp add: unat_word_ariths)
  have line: "read_line_spec (spec_line x @ [NL]) (msgs, s) = Some (msgs @ [Created (fst x)], ?s)"
    using Cons.prems by (intro read_line_ok) auto
  obtain s' where s': "read_lines (map (\<lambda>x. spec_line x @ [NL]) xs) (msgs @ [Created (fst x)], ?s)
      = Some ((msgs @ [Created (fst x)]) @ map (Created \<circ> fst) xs, s')" "num s' = num ?s + length xs"
    "length (pcbs s') = 100" "\<forall>i < num ?s. pcbs s' ! i = pcbs ?s ! i"
    "\<forall>i < length xs. pcbs s' ! (num ?s + i) = spec_pcb (num ?s + i) (xs ! i)"
    "s' = ?s\<lparr>pcbs := pcbs s', num_processes := num_processes s'\<rparr>"
    using Cons.IH [of ?s "msgs @ [Created (fst x)]"] Cons.prems n by auto
  have "pcbs s' ! (num s + i) = spec_pcb (num s + i) ((x # xs) ! i)" if "i < length (x # xs)" for i
  proof (cases i)
    case 0
    then show ?thesis using s'(4) n Cons.prems by simp
  next
    case (Suc k)
    then show ?thesis using s'(5) n that by (simp add: add.assoc)
  qed
  moreover have "pcbs s' ! i = pcbs s ! i" if "i < num s" for i
    using s'(4) n that by simp
  moreover have "s' = s\<lparr>pcbs := pcbs s', num_processes := num_processes s'\<rparr>"
    using s'(6) by (cases s) (metis sched.update_convs(1,4))
  ultimately show ?case using line s'(1-3) n by simp
qed simp

lemma read_lines_append: "read_lines (as @ bs) st = do { st' \<leftarrow> read_lines as st; read_lines bs st' }"
  by (induction as arbitrary: st) (auto split: bind_splits)

definition spec_file :: "proc_spec list \<Rightarrow> string" where
  "spec_file xs = concat (map (\<lambda>x. spec_line x @ [NL]) xs)"

lemma spec_file_lines:
  assumes "list_all spec_ok xs"
  shows "fgets_lines (spec_file xs) = map (\<lambda>x. spec_line x @ [NL]) xs"
proof -
  have "list_all (\<lambda>l. NL \<notin> set l \<and> length l < 1023) (map spec_line xs)"
    using assms spec_line_scan(2,3) by (auto simp: list_all_iff)
  from fgets_file [OF this] show ?thesis by (simp add: spec_file_def comp_def)
qed

section \<open>Properties\<close>

text \<open>
  C14: loading a file of at most 100 process lines in the documented format gives the table that
  was written: process \<open>i\<close> has the name and the numbers of line \<open>i\<close>, its id is \<open>i\<close>, and the state
  is one the scheduler can start from.
\<close>

theorem read_spec_roundtrip:
  assumes "list_all spec_ok xs" "length xs \<le> 100" "xs \<noteq> []"
  shows "\<exists>s. read_spec (Some (spec_file xs)) sched_init = Some (map (Created \<circ> fst) xs, s)
    \<and> num s = length xs \<and> (\<forall>i < length xs. pcbs s ! i = spec_pcb i (xs ! i)) \<and> loaded s"
proof -
  have n: "num sched_init = 0" "length (pcbs sched_init) = 100"
    by (simp_all add: sched_init_def NUM_PROCESSES_def)
  obtain s where s: "read_lines (map (\<lambda>x. spec_line x @ [NL]) xs) ([], sched_init)
      = Some (map (Created \<circ> fst) xs, s)" "num s = length xs" "length (pcbs s) = 100"
    "\<forall>i < length xs. pcbs s ! i = spec_pcb i (xs ! i)"
    "s = sched_init\<lparr>pcbs := pcbs s, num_processes := num_processes s\<rparr>"
    using read_lines_ok [OF assms(1), of sched_init "[]"] n assms(2) by auto
  have "current_process s = 0 \<and> current_quantum s = 0 \<and> g_main_ctx s = None \<and> control s = Main"
    by (subst s(5), subst s(5), subst s(5), subst s(5)) (simp add: sched_init_def)
  moreover have "\<forall>i < num s. state (pcbs s ! i) = CREATED \<and> ctx (pcbs s ! i) = None
      \<and> executed_work (pcbs s ! i) = 0"
    using s(2,4) by (auto simp: spec_pcb_def empty_pcb_def split: prod.splits)
  ultimately have "loaded s" using s(2,3) assms(2,3) by (simp add: loaded_def NUM_PROCESSES_def)
  with s show ?thesis by (auto simp: read_spec_def spec_file_lines [OF assms(1)])
qed

theorem read_spec_roundtrip_witness:
  "\<exists>s. read_spec (Some (spec_file [(''A'', 0, 5, 1), (''B'', 2, 3, 4)])) sched_init
      = Some ([Created ''A'', Created ''B''], s) \<and> workload (pcbs s ! 1) = 3"
proof -
  have "list_all spec_ok [(''A'', 0, 5, 1), (''B'', 2, 3, 4)]" by (simp add: spec_ok_def delims_def)
  from read_spec_roundtrip [OF this] show ?thesis
    by (auto simp: spec_pcb_def dest!: spec [of _ "1"])
qed

text \<open>
  The loader does not check the size of the table: a file with more than 100 process lines
  writes behind the end of the array.
\<close>

theorem read_spec_overflow:
  assumes "list_all spec_ok xs" "100 < length xs"
  shows "read_spec (Some (spec_file xs)) sched_init = None"
proof -
  let ?f = "\<lambda>x. spec_line x @ [NL]"
  have n: "num sched_init = 0" "length (pcbs sched_init) = 100"
    by (simp_all add: sched_init_def NUM_PROCESSES_def)
  have split: "xs = take 100 xs @ xs ! 100 # drop 101 xs"
    using assms(2) id_take_nth_drop [of 100 xs] by simp
  have "list_all spec_ok (take 100 xs)" using assms(1) by (auto simp: list_all_iff dest: in_set_takeD)
  moreover have "num sched_init + length (take 100 xs) \<le> 100" using n by simp
  ultimately obtain s msgs where s: "read_lines (map ?f (take 100 xs)) ([], sched_init) = Some (msgs, s)"
    "num s = 100" "length (pcbs s) = 100"
    using read_lines_ok [of "take 100 xs" sched_init "[]"] n assms(2) by auto
  have ok: "spec_ok (xs ! 100)" using assms by (simp add: list_all_length)
  have "read_line_spec (?f (xs ! 100)) (msgs, s) = None"
    using spec_line_scan(1) [OF ok] s(2,3) by (simp add: read_line_spec_def)
  moreover have "map ?f xs = map ?f (take 100 xs) @ ?f (xs ! 100) # map ?f (drop 101 xs)"
    by (subst split) simp
  ultimately have "read_lines (map ?f xs) ([], sched_init) = None"
    using s(1) by (simp add: read_lines_append)
  then show ?thesis by (simp add: read_spec_def spec_file_lines [OF assms(1)])
qed

theorem read_spec_overflow_witness:
  "read_spec (Some (spec_file (replicate 101 (''A'', 0, 1, 1)))) sched_init = None"
  by (rule read_spec_overflow) (simp_all add: list_all_iff spec_ok_def delims_def)

text \<open>
  A line with three commas but fewer than four words (an empty field) is not rejected: the
  missing token is a null pointer, which \<open>strcpy\<close> or \<open>atoi\<close> then reads.
\<close>

theorem read_spec_empty_field:
  assumes "scan_line bytes 1 = (line, 4)" "line \<noteq> []" "NUL \<notin> set line"
    and "length (words_of delims line) < 4"
  shows "read_line_spec bytes (msgs, s) = None"
proof -
  have "parse_fields line n = None" for n
    using assms(4) unfolding parse_fields_words [OF assms(3)] by (auto split: list.splits)
  then show ?thesis using assms(1,2) by (simp add: read_line_spec_def Let_def)
qed

theorem read_spec_empty_field_witness:
  "read_line_spec ''A,,1,2'' ([], sched_init) = None"
proof -
  have "words_of delims ''A,,1,2'' = [''A'', ''1'', ''2'']" by (simp add: words_of.simps delims_def)
  then show ?thesis by (intro read_spec_empty_field [of _ "''A,,1,2''"]) simp_all
qed

end
