(* ===== verification/History.thy ===== *)
theory History
  imports C_Prelude
begin

text \<open>
  The command history of the shell, Project2/history.c: a ring of 100 lines. The abstract view
  is the list of all commands ever added, of which the ring holds the last hundred.
\<close>

section \<open>The code\<close>

text \<open>The globals; \<open>max\<close> is the constant 100.\<close>

record hist =
  ring :: "string list"
  minimum :: int
  cmd_count :: int
  tail :: int

definition CAP :: int where
  "CAP = 100"

definition hist_init :: hist where
  "hist_init = \<lparr>ring = replicate 100 [], minimum = 0, cmd_count = 0, tail = 0\<rparr>"

definition slot :: "hist \<Rightarrow> int \<Rightarrow> string" where
  "slot h i = ring h ! nat (i mod CAP)"

text \<open>What \<open>print_history\<close> prints: the number and the line.\<close>

definition print_history :: "hist \<Rightarrow> (int \<times> string) list" where
  "print_history h =
     (let i0 = tail h + 1; max_length = tail h + CAP + 1 in
      [(cmd_count h + (i - i0) - CAP, slot h i). i \<leftarrow> [i0..max_length - 1], slot h i \<noteq> []])"

text \<open>A line of 100000 bytes or more does not fit its row.\<close>

definition add_history :: "string \<Rightarrow> hist \<Rightarrow> hist option" where
  "add_history command h = do {
     let h1 = h\<lparr>tail := cmd_count h mod CAP\<rparr>;
     line \<leftarrow> strcpy_into 100000 command;
     let h2 = h1\<lparr>ring := (ring h1)[nat (cmd_count h mod CAP) := line], cmd_count := cmd_count h + 1\<rparr>;
     Some (if cmd_count h2 > CAP then h2\<lparr>minimum := minimum h2 + 1\<rparr> else h2)
   }"

definition get_cmd :: "int \<Rightarrow> hist \<Rightarrow> string option" where
  "get_cmd n h = (if n \<ge> minimum h \<and> n \<le> cmd_count h then Some (slot h n) else None)"

text \<open>
  The loop of \<open>find_cmd\<close> from \<open>i\<close> down to \<open>minimum\<close>. The copy goes to a buffer of
  \<open>sizeof(char *) + 1\<close> bytes.
\<close>

function find_cmd_loop :: "string \<Rightarrow> hist \<Rightarrow> int \<Rightarrow> string option option" where
  "find_cmd_loop cmd h i =
     (if i < minimum h then Some None
      else case get_cmd i h of
          Some s \<Rightarrow> if has_prefix s cmd then map_option Some (strcpy_into 9 s)
                    else find_cmd_loop cmd h (i - 1)
        | None \<Rightarrow> find_cmd_loop cmd h (i - 1))"
  by pat_completeness auto

termination
  by (relation "measure (\<lambda>(_, h, i). nat (i - minimum h + 1))") auto

declare find_cmd_loop.simps [simp del]

definition find_cmd :: "string \<Rightarrow> hist \<Rightarrow> string option option" where
  "find_cmd cmd h = find_cmd_loop cmd h (cmd_count h - 1)"

section \<open>The abstract history\<close>

text \<open>The ring holds command \<open>n\<close> in slot \<open>n mod 100\<close>, for the last hundred commands.\<close>

definition holds :: "hist \<Rightarrow> string list \<Rightarrow> bool" where
  "holds h cs \<longleftrightarrow> length (ring h) = 100 \<and> cmd_count h = int (length cs)
     \<and> tail h = (if cs = [] then 0 else int (length cs - 1) mod 100)
     \<and> minimum h = int (length cs - 100)
     \<and> (\<forall>n < length cs. length cs - 100 \<le> n \<longrightarrow> ring h ! (n mod 100) = cs ! n)
     \<and> (\<forall>k < 100. length cs \<le> k \<longrightarrow> ring h ! k = [])"

lemma holds_init: "holds hist_init []"
  by (simp add: holds_def hist_init_def)

lemma nat_mod_CAP: "nat (int n mod CAP) = n mod 100"
  by (simp add: CAP_def nat_mod_distrib)

lemma slot_nat: "slot h (int n) = ring h ! (n mod 100)"
  by (simp add: slot_def nat_mod_CAP)

lemma mod_window_inj:
  fixes m n l :: nat
  assumes "m mod 100 = n mod 100" "m < l" "n < l" "l - 100 \<le> m" "l - 100 \<le> n"
  shows "m = n"
proof -
  have "m = n" if "m \<le> n" "m mod 100 = n mod 100" "n < l" "l - 100 \<le> m" for m n
  proof -
    have "100 dvd n - m" using that(1,2) mod_eq_dvd_iff_nat [of m n 100] by simp
    moreover have "n - m < 100" using that by linarith
    ultimately have "n - m = 0" using nat_dvd_not_less by blast
    with that(1) show ?thesis by simp
  qed
  from this [of m n] this [of n m] assms show ?thesis by (cases "m \<le> n") auto
qed

lemma add_history_holds:
  assumes h: "holds h cs" and c: "length c < 100000"
  shows "\<exists>h'. add_history c h = Some h' \<and> holds h' (cs @ [c])"
proof -
  let ?l = "length cs"
  define h' where "h' = h\<lparr>tail := cmd_count h mod CAP, ring := (ring h)[?l mod 100 := c],
    cmd_count := cmd_count h + 1, minimum := int (?l + 1 - 100)\<rparr>"
  have cnt: "cmd_count h = int ?l" and len: "length (ring h) = 100" using h by (auto simp: holds_def)
  have slot: "nat (cmd_count h mod CAP) = ?l mod 100" by (simp add: cnt nat_mod_CAP)
  have "nat (int ?l mod 100) = ?l mod 100" by (simp add: nat_mod_distrib)
  then have "add_history c h = Some h'"
    using c h by (auto simp: add_history_def Let_def slot h'_def strcpy_into_def holds_def CAP_def of_nat_diff)
  moreover have "holds h' (cs @ [c])"
  proof -
    have "(ring h)[?l mod 100 := c] ! (n mod 100) = (cs @ [c]) ! n"
      if n: "n < ?l + 1" "?l + 1 - 100 \<le> n" for n
    proof (cases "n = ?l")
      case True
      then show ?thesis using len by simp
    next
      case False
      then have lt: "n < ?l" using n by simp
      moreover have "n mod 100 \<noteq> ?l mod 100"
        using mod_window_inj [of n ?l "?l + 1"] n False by auto
      ultimately show ?thesis using h n len by (simp add: holds_def nth_append)
    qed
    moreover have "(ring h)[?l mod 100 := c] ! k = []" if "k < 100" "?l + 1 \<le> k" for k
      using h that by (simp add: holds_def)
    ultimately show ?thesis
      using len cnt by (simp add: holds_def h'_def CAP_def)
  qed
  ultimately show ?thesis by blast
qed

fun add_all :: "string list \<Rightarrow> hist \<Rightarrow> hist option" where
  "add_all [] h = Some h"
| "add_all (c # cs) h = do { h' \<leftarrow> add_history c h; add_all cs h' }"

lemma add_all_holds:
  "\<lbrakk>holds h ds; list_all (\<lambda>c. length c < 100000) cs\<rbrakk> \<Longrightarrow> \<exists>h'. add_all cs h = Some h' \<and> holds h' (ds @ cs)"
proof (induction cs arbitrary: h ds)
  case (Cons c cs)
  obtain h1 where h1: "add_history c h = Some h1" "holds h1 (ds @ [c])"
    using add_history_holds [OF Cons.prems(1)] Cons.prems(2) by auto
  from Cons.IH [OF h1(2)] Cons.prems(2) h1(1) show ?case by auto
qed simp

section \<open>Lookups\<close>

lemma holds_slot: "\<lbrakk>holds h cs; n < length cs; length cs - 100 \<le> n\<rbrakk> \<Longrightarrow> slot h (int n) = cs ! n"
  by (simp add: holds_def slot_nat)

lemma get_cmd_holds:
  assumes h: "holds h cs"
  shows "get_cmd (int n) h = (if length cs - 100 \<le> n \<and> n < length cs then Some (cs ! n)
    else if n = length cs then Some (if n < 100 then [] else cs ! (n - 100)) else None)"
proof -
  have m: "minimum h = int (length cs - 100)" "cmd_count h = int (length cs)" using h by (auto simp: holds_def)
  have "slot h (int (length cs)) = (if length cs < 100 then [] else cs ! (length cs - 100))"
  proof (cases "length cs < 100")
    case True
    then show ?thesis using h by (simp add: slot_nat holds_def)
  next
    case False
    then have "length cs mod 100 = (length cs - 100) mod 100" by (simp add: mod_if)
    with False h show ?thesis by (simp add: slot_nat holds_def)
  qed
  then show ?thesis using holds_slot [OF h, of n] m by (auto simp: get_cmd_def)
qed

lemma find_cmd_loop_holds:
  assumes h: "holds h cs"
  shows "n \<le> length cs \<Longrightarrow> find_cmd_loop p h (int n - 1)
    = (case find (\<lambda>m. has_prefix (cs ! m) p) (rev [length cs - 100..<n]) of
         Some m \<Rightarrow> map_option Some (strcpy_into 9 (cs ! m)) | None \<Rightarrow> Some None)"
proof (induction n)
  case 0
  then show ?case using h by (subst find_cmd_loop.simps) (simp add: holds_def)
next
  case (Suc n)
  have m: "minimum h = int (length cs - 100)" using h by (simp add: holds_def)
  show ?case
  proof (cases "length cs - 100 \<le> n")
    case True
    have "get_cmd (int n) h = Some (cs ! n)" using get_cmd_holds [OF h, of n] True Suc.prems by simp
    then show ?thesis
      using Suc True m by (subst find_cmd_loop.simps) simp
  next
    case False
    then have "int n < minimum h" using m by linarith
    then show ?thesis using False by (subst find_cmd_loop.simps) simp
  qed
qed

section \<open>Printing\<close>

lemma upto_map: "[i..i + 99] = map (\<lambda>k. i + int k) [0..<100]"
  by (rule nth_equalityI) (auto simp: nth_upto)

lemma print_history_loop:
  "print_history h = map (\<lambda>k. (cmd_count h + int k - 100, slot h (tail h + 1 + int k)))
     (filter (\<lambda>k. slot h (tail h + 1 + int k) \<noteq> []) [0..<100])"
proof -
  have "[tail h + 1..tail h + CAP + 1 - 1] = [tail h + 1..(tail h + 1) + 99]" by (simp add: CAP_def)
  then have "print_history h = concat (map (\<lambda>k. if slot h (tail h + 1 + int k) \<noteq> []
      then [(cmd_count h + int k - 100, slot h (tail h + 1 + int k))] else []) [0..<100])"
    unfolding print_history_def Let_def upto_map map_map comp_def
    by (simp only: upto_map map_map comp_def)
      (intro arg_cong [where f = concat] map_cong refl, simp add: CAP_def)
  also have "concat (map (\<lambda>k. if P k then [f k] else []) ks) = map f (filter P ks)"
    for P ks and f :: "nat \<Rightarrow> int \<times> string" by (induction ks) auto
  finally show ?thesis .
qed

lemma window: "map (\<lambda>k. l + k - 100) (filter (\<lambda>k. 100 \<le> l + k) [0..<100]) = [l - 100..<l]"
proof -
  have "filter (\<lambda>k. 100 \<le> l + k) [0..<100] = filter (\<lambda>k. 100 - l \<le> k) [0..<100]"
    by (rule filter_cong) auto
  also have "\<dots> = [100 - l..<100]"
  proof -
    have "[0..<100] = [0..<100 - l] @ [100 - l..<100]" using upt_add_eq_append [of 0 "100 - l" "100 - (100 - l)"] by simp
    then show ?thesis by (simp add: filter_empty_conv)
  qed
  finally show ?thesis by (simp only:) (rule nth_equalityI, auto)
qed

lemma holds_print:
  assumes h: "holds h cs" and "[] \<notin> set cs"
  shows "print_history h = map (\<lambda>n. (int n, cs ! n)) [length cs - 100..<length cs]"
proof -
  let ?l = "length cs"
  have t: "slot h (tail h + 1 + int k) = ring h ! ((?l + k) mod 100)" if "k < 100" for k
  proof (cases "cs = []")
    case True
    have "slot h (1 + int k) = slot h (int (1 + k))" by simp
    then show ?thesis using True h that unfolding slot_nat by (simp add: holds_def)
  next
    case False
    then have "tail h + 1 + int k = int ((?l - 1) mod 100 + 1 + k)"
      using h by (simp add: holds_def zmod_int)
    then have "slot h (tail h + 1 + int k) = ring h ! (((?l - 1) mod 100 + 1 + k) mod 100)"
      by (metis slot_nat)
    also have "((?l - 1) mod 100 + 1 + k) mod 100 = (?l - 1 + (1 + k)) mod 100"
      by (simp only: mod_add_left_eq add.assoc)
    also have "?l - 1 + (1 + k) = ?l + k" using False by (cases cs) auto
    finally show ?thesis .
  qed
  have entry: "ring h ! ((?l + k) mod 100) = (if 100 \<le> ?l + k then cs ! (?l + k - 100) else [])" if "k < 100" for k
  proof (cases "100 \<le> ?l + k")
    case True
    then have "(?l + k) mod 100 = (?l + k - 100) mod 100" by (simp add: mod_if)
    with True that h show ?thesis by (simp add: holds_def)
  next
    case False
    with that h show ?thesis by (simp add: holds_def)
  qed
  have ne: "cs ! n \<noteq> []" if "n < ?l" for n using assms(2) that by (metis nth_mem)
  have "filter (\<lambda>k. slot h (tail h + 1 + int k) \<noteq> []) [0..<100] = filter (\<lambda>k. 100 \<le> ?l + k) [0..<100]"
    using t entry ne by (intro filter_cong) auto
  moreover have "map (\<lambda>k. (cmd_count h + int k - 100, slot h (tail h + 1 + int k)))
      (filter (\<lambda>k. 100 \<le> ?l + k) [0..<100])
    = map (\<lambda>k. (int (?l + k - 100), cs ! (?l + k - 100))) (filter (\<lambda>k. 100 \<le> ?l + k) [0..<100])"
    using t entry h by (intro map_cong) (auto simp: holds_def of_nat_diff)
  ultimately show ?thesis
    unfolding print_history_loop window [symmetric] by simp
qed

section \<open>Properties\<close>

text \<open>
  C22: after any number of commands \<open>print_history\<close> prints exactly the last hundred of them (all,
  if there are fewer), in order, each with its number counted from 0.
\<close>

theorem print_history_last_hundred:
  assumes "list_all (\<lambda>c. c \<noteq> [] \<and> length c < 100000) cs"
  shows "\<exists>h. add_all cs hist_init = Some h
    \<and> print_history h = map (\<lambda>n. (int n, cs ! n)) [length cs - 100..<length cs]"
proof -
  have "list_all (\<lambda>c. length c < 100000) cs" "[] \<notin> set cs" using assms by (auto simp: list_all_iff)
  with add_all_holds [OF holds_init] obtain h where "add_all cs hist_init = Some h" "holds h cs" by fastforce
  with holds_print [OF this(2) \<open>[] \<notin> set cs\<close>] show ?thesis by blast
qed

theorem print_history_last_hundred_witness:
  "\<exists>h. add_all [''ls'', ''pwd''] hist_init = Some h \<and> print_history h = [(0, ''ls''), (1, ''pwd'')]"
  using print_history_last_hundred [of "[''ls'', ''pwd'']"] by (simp add: upt_rec)

text \<open>
  \<open>get_cmd n\<close> returns the command with number \<open>n\<close> while it is among the last hundred, and
  NULL for other numbers, except that the number of the next command is accepted: it yields an
  empty line, or the oldest command once the ring is full.
\<close>

theorem get_cmd_by_number:
  assumes "list_all (\<lambda>c. length c < 100000) cs"
  shows "\<exists>h. add_all cs hist_init = Some h \<and> (\<forall>n. get_cmd (int n) h =
    (if length cs - 100 \<le> n \<and> n < length cs then Some (cs ! n)
     else if n = length cs then Some (if n < 100 then [] else cs ! (n - 100)) else None))"
proof -
  from add_all_holds [OF holds_init assms] obtain h where "add_all cs hist_init = Some h" "holds h cs" by auto
  with get_cmd_holds [OF this(2)] show ?thesis by blast
qed

theorem get_cmd_by_number_witness:
  "\<exists>h. add_all [''ls'', ''pwd''] hist_init = Some h \<and> get_cmd 1 h = Some ''pwd'' \<and> get_cmd 2 h = Some []
    \<and> get_cmd 3 h = None"
proof -
  obtain h where h: "add_all [''ls'', ''pwd''] hist_init = Some h"
    "\<forall>n. get_cmd (int n) h = (if length [''ls'', ''pwd''] - 100 \<le> n \<and> n < length [''ls'', ''pwd'']
       then Some ([''ls'', ''pwd''] ! n) else if n = length [''ls'', ''pwd'']
       then Some (if n < 100 then [] else [''ls'', ''pwd''] ! (n - 100)) else None)"
    using get_cmd_by_number [of "[''ls'', ''pwd'']"] by auto
  from h(2) [rule_format, of 1] h(2) [rule_format, of 2] h(2) [rule_format, of 3] h(1) show ?thesis by simp
qed

text \<open>
  \<open>find_cmd\<close> looks for the most recent of the last hundred commands that starts with the
  prefix; it finds it only if the command is shorter than 9 bytes, since a longer one is copied
  into a buffer of the size of a pointer.
\<close>

theorem find_cmd_most_recent:
  assumes "list_all (\<lambda>c. length c < 100000) cs"
  shows "\<exists>h. add_all cs hist_init = Some h \<and> (\<forall>p. find_cmd p h =
    (case find (\<lambda>n. has_prefix (cs ! n) p) (rev [length cs - 100..<length cs]) of
       Some n \<Rightarrow> if length (cs ! n) < 9 then Some (Some (cs ! n)) else None
     | None \<Rightarrow> Some None))"
proof -
  from add_all_holds [OF holds_init assms] obtain h where h: "add_all cs hist_init = Some h" "holds h cs" by auto
  have "cmd_count h = int (length cs)" using h(2) by (simp add: holds_def)
  then have "find_cmd p h = (case find (\<lambda>n. has_prefix (cs ! n) p) (rev [length cs - 100..<length cs]) of
       Some n \<Rightarrow> if length (cs ! n) < 9 then Some (Some (cs ! n)) else None | None \<Rightarrow> Some None)" for p
    using find_cmd_loop_holds [OF h(2), of "length cs" p]
    by (simp add: find_cmd_def strcpy_into_def split: option.splits)
  with h(1) show ?thesis by blast
qed

theorem find_cmd_most_recent_witness:
  "\<exists>h. add_all [''ls'', ''pwd'', ''ls -l -a -t''] hist_init = Some h \<and> find_cmd ''p'' h = Some (Some ''pwd'')
    \<and> find_cmd ''ls'' h = None"
proof -
  let ?cs = "[''ls'', ''pwd'', ''ls -l -a -t'']"
  obtain h where h: "add_all ?cs hist_init = Some h" "\<forall>p. find_cmd p h =
    (case find (\<lambda>n. has_prefix (?cs ! n) p) (rev [length ?cs - 100..<length ?cs]) of
       Some n \<Rightarrow> if length (?cs ! n) < 9 then Some (Some (?cs ! n)) else None
     | None \<Rightarrow> Some None)" using find_cmd_most_recent [of ?cs] by auto
  have r: "rev [length ?cs - 100..<length ?cs] = [2, 1, 0]" by (simp add: upt_rec)
  have "find_cmd ''p'' h = Some (Some ''pwd'')" "find_cmd ''ls'' h = None"
    unfolding h(2) [rule_format] r by (simp_all add: has_prefix_def)
  with h(1) show ?thesis by blast
qed

text \<open>
  After any sequence of commands \<open>get_cmd n\<close> is the command with number \<open>n\<close> while it is among the
  last hundred, and NULL otherwise, except that the number of the next command is accepted; and
  \<open>find_cmd\<close> finds the most recent of the last hundred commands with a prefix, if it has at most
  eight characters, and overflows a buffer when it is longer.
\<close>

theorem history_lookup:
  assumes "list_all (\<lambda>c. length c < 100000) cs"
  shows "\<exists>h. add_all cs hist_init = Some h
    \<and> (\<forall>n. get_cmd (int n) h =
        (if length cs - 100 \<le> n \<and> n < length cs then Some (cs ! n)
         else if n = length cs then Some (if n < 100 then [] else cs ! (n - 100)) else None))
    \<and> (\<forall>p. find_cmd p h =
        (case find (\<lambda>n. has_prefix (cs ! n) p) (rev [length cs - 100..<length cs]) of
           Some n \<Rightarrow> if length (cs ! n) < 9 then Some (Some (cs ! n)) else None
         | None \<Rightarrow> Some None))"
proof -
  obtain h where "add_all cs hist_init = Some h" using get_cmd_by_number [OF assms] by blast
  then show ?thesis using get_cmd_by_number [OF assms] find_cmd_most_recent [OF assms] by simp
qed

theorem history_lookup_witness:
  "\<exists>h. add_all [''ls'', ''pwd''] hist_init = Some h \<and> get_cmd 1 h = Some ''pwd'' \<and> find_cmd ''p'' h = Some (Some ''pwd'')"
proof -
  let ?cs = "[''ls'', ''pwd'']"
  obtain h where h: "add_all ?cs hist_init = Some h"
    "\<forall>n. get_cmd (int n) h = (if length ?cs - 100 \<le> n \<and> n < length ?cs then Some (?cs ! n)
       else if n = length ?cs then Some (if n < 100 then [] else ?cs ! (n - 100)) else None)"
    "\<forall>p. find_cmd p h = (case find (\<lambda>n. has_prefix (?cs ! n) p) (rev [length ?cs - 100..<length ?cs]) of
       Some n \<Rightarrow> if length (?cs ! n) < 9 then Some (Some (?cs ! n)) else None
     | None \<Rightarrow> Some None)" using history_lookup [of ?cs] by auto
  have r: "rev [length ?cs - 100..<length ?cs] = [1, 0]" by (simp add: upt_rec)
  have "find_cmd ''p'' h = Some (Some ''pwd'')"
    unfolding h(3) [rule_format] r by (simp add: has_prefix_def)
  with h(1) h(2) [rule_format, of 1] show ?thesis by simp
qed

end
