(* ===== verification/Shell.thy ===== *)
theory Shell
  imports Tokens History
begin

text \<open>
  The shell, Project2/shell.c and tokenizer.c: the quoting tokenizer, the prompt, one pass of
  the main loop (history substitution and built-in commands), the parser of pipelines, the
  tree of processes that a pipeline becomes, and the table of background jobs with its signal
  handler.

  An array of \<open>char *\<close> is the list of its known cells, \<open>None\<close> for a NULL pointer; cells beyond
  the list were never written, and reading one has no defined result. Line 352 of shell.c is a
  stray line of text that does not compile; it is read as if it were a comment.
\<close>

section \<open>The quoting tokenizer\<close>

definition next_token_quoted ::
  "buffer \<Rightarrow> nat option \<Rightarrow> string \<Rightarrow> (buffer \<times> nat option \<times> nat option) option" where
  "next_token_quoted buf str_ptr delim =
     (case str_ptr of
        None \<Rightarrow> Some (buf, None, None)
      | Some p \<Rightarrow> do {
          s \<leftarrow> cstr_at buf p;
          let tok_st = strspn s delim;
          let tok_end = strcspn (drop tok_st s) delim;
          let quote_st = strcspn s [CHR 0x27, CHR 0x22];
          let offset = quote_st + 1;
          let tok_end =
            (if quote_st < tok_end
             then let quote_end = strcspn (drop offset s) [s ! quote_st] + offset in
                  strcspn (drop quote_end s) delim + quote_end - tok_st
             else tok_end);
          if tok_end = 0 then Some (buf, None, None)
          else do {
            let current_ptr = p + tok_st;
            let q = p + (tok_st + tok_end);
            if buf ! q = NUL then Some (buf, None, Some current_ptr)
            else Some (buf[q := NUL], Some (q + 1), Some current_ptr)
          }
        })"

definition next_token_q :: "string \<Rightarrow> tok_state \<Rightarrow> (tok_state \<times> string option) option" where
  "next_token_q delim st = (case st of (buf, str_ptr) \<Rightarrow> do {
     (buf', ptr', tok) \<leftarrow> next_token_quoted buf str_ptr delim;
     case tok of
       None \<Rightarrow> Some ((buf', ptr'), None)
     | Some t \<Rightarrow> do { s \<leftarrow> cstr_at buf' t; Some ((buf', ptr'), Some s) }
   })"

section \<open>The state of the shell\<close>

type_synonym tok_array = "string option list"

text \<open>What the shell does that can be seen from outside.\<close>

datatype source = Stdin | From_pipe nat
datatype sink = Stdout | To_pipe nat | To_file string

text \<open>
  A process of a pipeline: it runs a program, or, when a call fails, returns from
  \<open>execute_pipeline\<close> into the main loop of the shell it was forked from.
\<close>

datatype proc =
    Runs "string list" source sink
  | Returns source sink

datatype action =
    Printed string
  | History "(int \<times> string) list"
  | Jobs "(nat \<times> string) list"
  | Chdir string
  | Error string
  | Launch "proc list"
  | Wait int

record shell =
  num_cmds :: int
  count :: int
  num_tokens :: nat
  num_jobs :: "int list"
  bg_cmds :: "string list"
  hist :: hist
  hostname :: string
  username :: string
  nameDir :: string
  env_vars :: "string \<Rightarrow> string option"
  out :: "action list"

definition shell_init :: "(string \<Rightarrow> string option) \<Rightarrow> shell" where
  "shell_init env = \<lparr>num_cmds = 0, count = 0, num_tokens = 0, num_jobs = replicate 10 0,
     bg_cmds = replicate 10 [], hist = hist_init, hostname = [], username = [], nameDir = [],
     env_vars = env, out = []\<rparr>"

text \<open>
  The operating system's answers: whether a program can be executed, a file opened and made the
  output, a pipe or a process created (by its position in the pipeline), the process id of the
  forked child, and what \<open>waitpid\<close> returns in the handler for each SIGCHLD that arrives while the
  line runs, which is in the wait for a foreground process.
\<close>

record os =
  exec_ok :: "string \<Rightarrow> bool"
  open_ok :: "string \<Rightarrow> bool"
  dup2_ok :: bool
  pipe_ok :: "nat \<Rightarrow> bool"
  fork_ok :: "nat \<Rightarrow> bool"
  fork_pid :: int
  in_wait :: "int list"
  chdir_ok :: "string \<Rightarrow> bool"

definition act :: "action \<Rightarrow> shell \<Rightarrow> shell" where
  "act a sh = sh\<lparr>out := out sh @ [a]\<rparr>"

text \<open>Reading a cell of an array: \<open>None\<close> when it was never written.\<close>

definition cell :: "tok_array \<Rightarrow> nat \<Rightarrow> string option option" where
  "cell a i = (if i < length a then Some (a ! i) else None)"

definition starts :: "string \<Rightarrow> char \<Rightarrow> bool" where
  "starts s c \<longleftrightarrow> (case s of [] \<Rightarrow> False | d # _ \<Rightarrow> d = c)"

section \<open>The prompt and the account\<close>

text \<open>
  \<open>print_prompt\<close>: outside the home directory \<open>free\<close> is called on the array \<open>cwd\<close>, which is not
  on the heap. \<open>None\<close> for the directory is a failure of \<open>getcwd\<close>.
\<close>

definition print_prompt :: "string option \<Rightarrow> shell \<Rightarrow> shell option" where
  "print_prompt cwd sh = do {
     c \<leftarrow> cwd;
     if has_prefix c (nameDir sh)
     then Some (act (Printed (''--['' @ show_nat (nat (num_cmds sh)) @ ''|'' @ username sh @ ''@'' @ hostname sh
            @ '':'' @ ''~'' @ drop (length (nameDir sh)) c @ '']--$ '')) sh)
     else None
   }"

text \<open>
  \<open>get_info\<close>: host name (or \<open>Unknown\<close>), user name, home directory in a 25-byte buffer. The
  results of \<open>gethostname\<close> and \<open>getpwuid\<close> are parameters, \<open>None\<close> for a failure.
\<close>

definition get_info :: "string option \<Rightarrow> string option \<Rightarrow> shell \<Rightarrow> shell option" where
  "get_info host user sh = do {
     let host_name = (case host of Some h \<Rightarrow> h | None \<Rightarrow> ''Unknown'');
     user_name \<leftarrow> user;
     dir \<leftarrow> strcpy_into (16 + 9) (''/home/'' @ user_name);
     Some (sh\<lparr>hostname := host_name, username := user_name, nameDir := dir\<rparr>)
   }"

section \<open>\<open>tokenizer\<close>\<close>

definition WS :: string where
  "WS = [CHR '' '', CHR 0x09, CHR 0x0D, CHR 0x0A]"

text \<open>The tokens up to a comment. The array has 5000 cells, one of them for the final NULL.\<close>

partial_function (option) tokenizer_loop :: "tok_state \<Rightarrow> string list \<Rightarrow> string list option" where
  "tokenizer_loop st toks = do {
     (st', tok) \<leftarrow> next_token_q WS st;
     case tok of
       None \<Rightarrow> Some toks
     | Some t \<Rightarrow> if starts t CHR ''#'' then Some toks
                 else if length toks = 4999 then None
                 else tokenizer_loop st' (toks @ [t])
   }"

definition tokenizer :: "tok_array \<Rightarrow> string \<Rightarrow> shell \<Rightarrow> (tok_array \<times> shell) option" where
  "tokenizer a str sh = do {
     sh1 \<leftarrow> (if starts str CHR ''#''
            then do { h \<leftarrow> add_history str (hist sh); Some (sh\<lparr>num_cmds := num_cmds sh + 1, hist := h\<rparr>) }
            else Some sh);
     toks \<leftarrow> tokenizer_loop (str @ [NUL], Some 0) [];
     Some (map Some toks @ [None] @ drop (length toks + 1) a, sh1\<lparr>num_tokens := length toks\<rparr>)
   }"

section \<open>\<open>exec\<close>: from tokens to a pipeline\<close>

record command_line =
  tokens :: "string list option"
  stdout_pipe :: bool
  stdout_file :: "string option"

text \<open>The substitution of a variable in the first or the second token.\<close>

definition substitute :: "tok_array \<Rightarrow> shell \<Rightarrow> (tok_array \<times> shell) option" where
  "substitute a sh = do {
     t0 \<leftarrow> cell a 0;
     case t0 of
       None \<Rightarrow> Some (a, sh)
     | Some t \<Rightarrow>
         if starts t CHR ''$'' then
           (case env_vars sh (drop 1 t) of
              None \<Rightarrow> Some (a, act (Error ''No Match'') sh)
            | Some v \<Rightarrow> Some (a[1 := Some v], sh))
         else do {
           t1 \<leftarrow> cell a 1;
           case t1 of
             None \<Rightarrow> Some (a, sh)
           | Some t' \<Rightarrow>
               if starts t' CHR ''$'' then
                 (case env_vars sh (drop 1 t') of
                    None \<Rightarrow> Some (a, act (Error ''No Match'') sh)
                  | Some v \<Rightarrow> Some (a[1 := Some v], sh))
               else Some (a, sh)
         }
   }"

text \<open>
  The parser's state: the commands so far, and where the last separator was. \<open>seen\<close> are the
  tokens up to and including the current one, \<open>r\<close> the cells behind it; the temporary arrays
  have 625 cells (\<open>malloc(5000)\<close> of 8-byte pointers).
\<close>

record parse =
  cmds :: "command_line list"
  last :: nat
  has_pipe :: bool

definition seg_start :: "parse \<Rightarrow> nat" where
  "seg_start st = (if has_pipe st then last st + 1 else last st)"

definition copy_seg :: "string list \<Rightarrow> string list option" where
  "copy_seg seg = (if length seg < 625 then Some seg else None)"

definition add_pipe :: "string list \<Rightarrow> parse \<Rightarrow> parse option" where
  "add_pipe seen st = do {
     seg \<leftarrow> copy_seg (takeWhile (\<lambda>t. t \<noteq> ''|'') (drop (seg_start st) seen));
     Some \<lparr>cmds = cmds st @ [\<lparr>tokens = Some seg, stdout_pipe = True, stdout_file = None\<rparr>],
       last = length seen - 1, has_pipe = True\<rparr>
   }"

definition add_redirect :: "string list \<Rightarrow> tok_array \<Rightarrow> parse \<Rightarrow> parse option" where
  "add_redirect seen r st = do {
     seg \<leftarrow> copy_seg (takeWhile (\<lambda>t. t \<noteq> ''>'') (drop (seg_start st) seen));
     file \<leftarrow> cell (map Some seen @ r) (seg_start st + length seg + 1);
     Some \<lparr>cmds = cmds st @ [\<lparr>tokens = Some seg, stdout_pipe = False, stdout_file = file\<rparr>],
       last = length seen - 1, has_pipe = True\<rparr>
   }"

definition add_last :: "string list \<Rightarrow> parse \<Rightarrow> parse option" where
  "add_last seen st = do {
     seg \<leftarrow> copy_seg (drop (seg_start st) seen);
     Some (st\<lparr>cmds := cmds st @ [\<lparr>tokens = Some seg, stdout_pipe = False, stdout_file = None\<rparr>]\<rparr>)
   }"

fun parse_loop :: "string list \<Rightarrow> tok_array \<Rightarrow> parse \<Rightarrow> parse option" where
  "parse_loop seen [] st = None"
| "parse_loop seen (None # r) st = Some st"
| "parse_loop seen (Some t # r) st = do {
     let seen = seen @ [t];
     st1 \<leftarrow> (if starts t CHR ''|'' then add_pipe seen st else Some st);
     st2 \<leftarrow> (if starts t CHR ''>'' then add_redirect seen r st1 else Some st1);
     st3 \<leftarrow> (case r of [] \<Rightarrow> None | None # _ \<Rightarrow> add_last seen st2 | Some _ # _ \<Rightarrow> Some st2);
     parse_loop seen r st3
   }"

definition parse_cmds :: "tok_array \<Rightarrow> command_line list option" where
  "parse_cmds a = do {
     st \<leftarrow> parse_loop [] a \<lparr>cmds = [], last = 0, has_pipe = False\<rparr>;
     Some (cmds st)
   }"

section \<open>\<open>execute_pipeline\<close>\<close>

text \<open>
  The processes that the recursion creates; \<open>n\<close> numbers the pipes, \<open>src\<close> is the standard input
  of the current process. Past the last command the array holds zeros, whose tokens are NULL.
\<close>

fun execute_pipeline :: "os \<Rightarrow> nat \<Rightarrow> source \<Rightarrow> command_line list \<Rightarrow> proc list option" where
  "execute_pipeline os n src [] = None"
| "execute_pipeline os n src (c # cs) = do {
     argv \<leftarrow> tokens c;
     let run = (\<lambda>snk. if argv \<noteq> [] \<and> exec_ok os (hd argv) then Runs argv src snk else Returns src snk);
     if \<not> stdout_pipe c then
       (case stdout_file c of
          Some f \<Rightarrow>
            if \<not> open_ok os f then Some [Returns src Stdout]
            else if \<not> dup2_ok os then Some [Returns src Stdout]
            else Some [run (To_file f)]
        | None \<Rightarrow> Some [run Stdout])
     else if \<not> pipe_ok os n \<or> \<not> fork_ok os n then Some [Returns src Stdout]
     else do {
       rest \<leftarrow> execute_pipeline os (n + 1) (From_pipe n) cs;
       Some (run (To_pipe n) # rest)
     }
   }"

definition exec :: "os \<Rightarrow> tok_array \<Rightarrow> bool \<Rightarrow> string \<Rightarrow> shell \<Rightarrow> shell option" where
  "exec os a isBackground command_char sh = do {
     (a1, sh1) \<leftarrow> substitute a sh;
     cs \<leftarrow> parse_cmds a1;
     if cs = [] then Some sh1
     else if fork_pid os = -1 then Some (act (Error ''fork'') sh1)
     else do {
       procs \<leftarrow> execute_pipeline os 0 Stdin cs;
       let sh2 = act (Launch procs) sh1;
       if isBackground then
         (if 0 \<le> count sh2 \<and> count sh2 < 10 then do {
            line \<leftarrow> strcpy_into 5000 command_char;
            Some (sh2\<lparr>num_jobs := (num_jobs sh2)[nat (count sh2) := fork_pid os],
              bg_cmds := (bg_cmds sh2)[nat (count sh2) := line], count := count sh2 + 1\<rparr>)
          }
          else None)
       else Some (act (Wait (fork_pid os)) sh2)
     }
   }"

section \<open>The job table\<close>

text \<open>The loop that moves the later jobs one place to the front.\<close>

function shift_jobs :: "nat \<Rightarrow> shell \<Rightarrow> shell option" where
  "shift_jobs i sh =
     (if int i < count sh
      then if i + 1 < 10
           then shift_jobs (i + 1) (sh\<lparr>num_jobs := (num_jobs sh)[i := num_jobs sh ! (i + 1)],
                  bg_cmds := (bg_cmds sh)[i := bg_cmds sh ! (i + 1)]\<rparr>)
           else None
      else Some sh)"
  by pat_completeness auto

termination
  by (relation "measure (\<lambda>(i, sh). 10 - i)") auto

declare shift_jobs.simps [simp del]

text \<open>\<open>pid\<close> is the result of \<open>waitpid(-1, NULL, WNOHANG)\<close>.\<close>

definition sigchld_handler :: "int \<Rightarrow> shell \<Rightarrow> shell option" where
  "sigchld_handler pid sh0 =
     (let sh = (if pid = -1 then act (Error ''background'') sh0 else sh0) in
      if pid = num_jobs sh ! 9
      then Some (sh\<lparr>count := count sh - 1, bg_cmds := (bg_cmds sh)[9 := []], num_jobs := (num_jobs sh)[9 := 0]\<rparr>)
      else (case find (\<lambda>i. num_jobs sh ! i = pid) [0..<9] of
          None \<Rightarrow> Some sh
        | Some i \<Rightarrow> do {
            sh1 \<leftarrow> shift_jobs i sh;
            Some (sh1\<lparr>count := count sh1 - 1\<rparr>)
          }))"

text \<open>The signals that arrive one after the other.\<close>

fun deliver :: "int list \<Rightarrow> shell \<Rightarrow> shell option" where
  "deliver [] sh = Some sh"
| "deliver (pid # pids) sh = do { sh1 \<leftarrow> sigchld_handler pid sh; deliver pids sh1 }"

section \<open>One pass of the main loop\<close>

datatype outcome = Exit shell | Continue shell

text \<open>
  The history substitution: a fresh buffer of 8 bytes (\<open>sizeof\<close> of a pointer) receives the
  command that was found; when none was, the buffer is added to the history as it is.
\<close>

definition substitute_history :: "string \<Rightarrow> tok_array \<Rightarrow> shell \<Rightarrow> (tok_array \<times> shell) option" where
  "substitute_history t a sh = do {
     found \<leftarrow> (if starts (drop 1 t) CHR ''!'' then Some (get_cmd (num_cmds sh - 2) (hist sh))
              else if drop 1 t \<noteq> [] \<and> isdigit (t ! 1)
              then do { n \<leftarrow> atoi_int (drop 1 t); Some (get_cmd n (hist sh)) }
              else find_cmd (drop 1 t) (hist sh));
     hisStr \<leftarrow> found;
     hisTemp \<leftarrow> strcpy_into 8 hisStr;
     (a1, sh1) \<leftarrow> tokenizer a hisStr sh;
     h \<leftarrow> add_history hisTemp (hist sh1);
     Some (a1, sh1\<lparr>hist := h\<rparr>)
   }"

text \<open>The quotes around the second token are taken off through a buffer of 500 bytes.\<close>

definition strip_quote :: "char \<Rightarrow> tok_array \<Rightarrow> tok_array option" where
  "strip_quote q a = do {
     t1 \<leftarrow> cell a 1;
     case t1 of
       None \<Rightarrow> Some a
     | Some t \<Rightarrow>
         if starts t q then do {
           temp \<leftarrow> strcpy_into 500 (drop 1 t);
           if temp = [] then None else Some (a[1 := Some (butlast temp)])
         }
         else Some a
   }"

definition run_cd :: "os \<Rightarrow> tok_array \<Rightarrow> shell \<Rightarrow> shell option" where
  "run_cd os a sh = do {
     t1 \<leftarrow> cell a 1;
     case t1 of
       None \<Rightarrow> Some (act (Chdir (nameDir sh)) sh)
     | Some d \<Rightarrow> Some (if chdir_ok os d then act (Chdir d) sh else act (Error ''Directory Not Found'') sh)
   }"

definition run_num_jobs :: "shell \<Rightarrow> shell" where
  "run_num_jobs sh =
     (if count sh = 0 then act (Printed ''No Background Programs Running'') sh
      else act (Jobs (map (\<lambda>i. (i, bg_cmds sh ! i)) [0..<nat (count sh)])) sh)"

definition run_setenv :: "tok_array \<Rightarrow> shell \<Rightarrow> shell option" where
  "run_setenv a sh = do {
     t1 \<leftarrow> cell a 1;
     case t1 of
       None \<Rightarrow> Some (act (Error ''Usage Error: setenv'') sh)
     | Some n \<Rightarrow> do {
         t2 \<leftarrow> cell a 2;
         case t2 of
           None \<Rightarrow> Some (act (Error ''Usage Error: setenv'') sh)
         | Some v \<Rightarrow> do {
             var_name \<leftarrow> strcpy_into 256 n;
             var_val \<leftarrow> strcpy_into 256 v;
             Some (if var_name = [] \<or> CHR ''='' \<in> set var_name
                   then act (Error ''Variable not set'') sh
                   else sh\<lparr>env_vars := (env_vars sh)(var_name \<mapsto> var_val)\<rparr>)
           }
       }
   }"

text \<open>The built-in commands, and \<open>exec\<close> for all others (for \<open>setenv\<close> too).\<close>

definition run_command :: "os \<Rightarrow> tok_array \<Rightarrow> bool \<Rightarrow> string \<Rightarrow> shell \<Rightarrow> outcome option" where
  "run_command os a isBackground command_char sh = do {
     first \<leftarrow> cell a 0;
     cmd \<leftarrow> first;
     if cmd = ''exit'' then Some (Exit (act (Printed [NL]) sh))
     else do {
       let sh1 = (if cmd = ''history'' then act (History (print_history (hist sh))) sh else sh);
       sh2 \<leftarrow> (if cmd = ''cd'' then run_cd os a sh1 else Some sh1);
       let sh3 = (if cmd = ''num_jobs'' then run_num_jobs sh2 else sh2);
       sh4 \<leftarrow> (if cmd = ''setenv'' then run_setenv a sh3 else Some sh3);
       a1 \<leftarrow> strip_quote CHR 0x22 a;
       a2 \<leftarrow> strip_quote CHR 0x27 a1;
       sh5 \<leftarrow> (if cmd = ''history'' \<or> cmd = ''cd'' \<or> cmd = ''num_jobs'' then Some sh4
              else exec os a2 isBackground command_char sh4);
       Some (Continue sh5)
     }
   }"

text \<open>The history: a line with an exclamation mark is replaced, any other recorded.\<close>

definition record_line :: "string \<Rightarrow> string \<Rightarrow> tok_array \<Rightarrow> shell \<Rightarrow> (tok_array \<times> shell) option" where
  "record_line t line a sh =
     (if starts t CHR ''!'' then substitute_history t a sh
      else do { h \<leftarrow> add_history line (hist sh); Some (a, sh\<lparr>hist := h\<rparr>) })"

text \<open>A line of the input: its tokens, the ampersand, the history and the command.\<close>

definition shell_line :: "os \<Rightarrow> string \<Rightarrow> shell \<Rightarrow> outcome option" where
  "shell_line os line sh = do {
     (a, sh1) \<leftarrow> tokenizer [] line sh;
     t0 \<leftarrow> cell a 0;
     if t0 = None then Some (Continue sh1)
     else do {
       lt \<leftarrow> cell a (num_tokens sh1 - 1);
       let isBackground = (lt = Some ''&'');
       let a1 = (if isBackground then a[num_tokens sh1 - 1 := None] else a);
       let sh2 = sh1\<lparr>num_cmds := num_cmds sh1 + 1\<rparr>;
       first \<leftarrow> cell a1 0;
       t \<leftarrow> first;
       (a2, sh3) \<leftarrow> record_line t line a1 sh2;
       run_command os a2 isBackground line sh3
     }
   }"

text \<open>
  What happens to the shell while it is in \<open>getline\<close>: a line comes, with the answers of the
  operating system for it; a child ends and the handler's \<open>waitpid\<close> returns a number; or
  SIGINT arrives. The C library restarts the \<open>read\<close> behind \<open>getline\<close> after a handler.
\<close>

datatype input = Line os string | Child int | Interrupt

definition sigint_handler :: "shell \<Rightarrow> shell" where
  "sigint_handler sh = sh"

text \<open>
  The prompt is printed on a terminal only. \<open>tty\<close> is \<open>None\<close> when the input is not one;
  otherwise it gives the directory that \<open>getcwd\<close> finds, which depends on what was done so far.
\<close>

definition prompted :: "(action list \<Rightarrow> string option) option \<Rightarrow> shell \<Rightarrow> shell option" where
  "prompted tty sh = (case tty of None \<Rightarrow> Some sh | Some getcwd \<Rightarrow> print_prompt (getcwd (out sh)) sh)"

text \<open>
  The loop, from the call of \<open>getline\<close> on; at the end of the inputs it returns -1. The handler runs
  as well while a line is executed, in the wait at the end of \<open>exec\<close>: nothing between that wait
  and the prompt reads the table.
\<close>

fun shell_loop :: "(action list \<Rightarrow> string option) option \<Rightarrow> input list \<Rightarrow> shell \<Rightarrow> shell option" where
  "shell_loop tty [] sh = Some sh"
| "shell_loop tty (Line os l # ins) sh = do {
     r \<leftarrow> shell_line os l sh;
     case r of
       Exit sh' \<Rightarrow> Some sh'
     | Continue sh' \<Rightarrow> do {
         sh1 \<leftarrow> deliver (in_wait os) sh';
         sh2 \<leftarrow> prompted tty sh1;
         shell_loop tty ins sh2
       }
   }"
| "shell_loop tty (Child pid # ins) sh = do {
     sh1 \<leftarrow> sigchld_handler pid sh;
     shell_loop tty ins sh1
   }"
| "shell_loop tty (Interrupt # ins) sh = shell_loop tty ins (sigint_handler sh)"

definition shell_main ::
  "(action list \<Rightarrow> string option) option \<Rightarrow> string option \<Rightarrow> string option \<Rightarrow> (string \<Rightarrow> string option)
    \<Rightarrow> input list \<Rightarrow> shell option" where
  "shell_main tty host user env ins = do {
     sh \<leftarrow> get_info host user (shell_init env);
     sh1 \<leftarrow> prompted tty sh;
     shell_loop tty ins sh1
   }"

end
