(* ===== verification/Shell_Tokens.thy ===== *)
theory Shell_Tokens
  imports Shell
begin

text \<open>
  What the shell's tokenizer makes of a line: on lines without quotes it is the token stream of
  the other programs, and a quoted argument is one token when little white space precedes it.
\<close>

section \<open>The quoting tokenizer on lines without quotes\<close>

definition quotes :: "char set" where
  "quotes = {CHR 0x27, CHR 0x22}"

lemma strcspn_all: "set s \<inter> set d = {} \<Longrightarrow> strcspn s d = length s"
proof -
  assume "set s \<inter> set d = {}"
  then have "takeWhile (\<lambda>c. c \<notin> set d) s = s" unfolding takeWhile_eq_all_conv by blast
  then show "strcspn s d = length s" by (simp only: strcspn_def)
qed

lemma strcspn_le: "strcspn s d \<le> length s"
  by (simp add: strcspn_def length_takeWhile_le)

lemma next_token_quoted_plain:
  assumes "cstr_at buf p = Some s" "set s \<inter> quotes = {}"
  shows "next_token_quoted buf (Some p) d = next_token buf (Some p) d"
proof -
  have "strcspn s [CHR 0x27, CHR 0x22] = length s"
    using assms(2) by (intro strcspn_all) (auto simp: quotes_def)
  moreover have "strcspn (drop k s) d \<le> length s" for k
    using strcspn_le [of "drop k s" d] by simp
  then have "\<not> length s < strcspn (drop k s) d" for k by (simp add: not_less)
  ultimately show ?thesis
    using assms(1) by (simp add: next_token_quoted_def next_token_cstr Let_def)
qed

definition no_quotes :: "tok_state \<Rightarrow> bool" where
  "no_quotes st = (case st of (buf, None) \<Rightarrow> True
     | (buf, Some p) \<Rightarrow> (case cstr_at buf p of None \<Rightarrow> True | Some s \<Rightarrow> set s \<inter> quotes = {}))"

lemma next_token_q_plain: "\<lbrakk>tok_wf st; no_quotes st\<rbrakk> \<Longrightarrow> next_token_q d st = next_token_str d st"
proof -
  assume wf: "tok_wf st" and nq: "no_quotes st"
  obtain buf ptr where st: "st = (buf, ptr)" by (cases st)
  have "next_token_quoted buf ptr d = next_token buf ptr d"
  proof (cases ptr)
    case None
    then show ?thesis by (simp add: next_token_quoted_def next_token_cstr)
  next
    case (Some p)
    with wf nq st obtain s where "cstr_at buf p = Some s" "set s \<inter> quotes = {}"
      by (auto simp: tok_wf_def no_quotes_def)
    then show ?thesis by (simp only: Some next_token_quoted_plain)
  qed
  then show ?thesis by (simp only: st next_token_q_def next_token_str_def prod.case)
qed

lemma next_token_str_no_quotes:
  assumes "tok_wf st" "no_quotes st" "next_token_str d st = Some (st', t)"
  shows "no_quotes st'"
proof (cases "snd st")
  case None
  then show ?thesis using assms by (cases st) (auto simp: next_token_str_def next_token_cstr no_quotes_def)
next
  case (Some p)
  obtain buf s where st: "st = (buf, Some p)" "cstr_at buf p = Some s" "set s \<inter> quotes = {}"
    using assms(1,2) Some by (cases st) (auto simp: tok_wf_def no_quotes_def)
  obtain ds w r where s: "s = ds @ w @ r" and ds: "set ds \<subseteq> set d" and w: "set w \<inter> set d = {}"
    and wr: "w = [] \<longrightarrow> r = []" and r: "r = [] \<or> (\<exists>c r'. r = c # r' \<and> c \<in> set d)"
    by (rule split_word [of s d])
  consider (none) "w = []" | (last) "w \<noteq> []" "r = []" | (more) c r' where "w \<noteq> []" "r = c # r'" "c \<in> set d"
    using r by blast
  then show ?thesis
  proof cases
    case none
    then show ?thesis
      using next_token_none [of buf p ds d] assms(3) st s ds wr
      by (auto simp: next_token_str_def no_quotes_def)
  next
    case last
    then show ?thesis
      using next_token_last [of buf p ds w d] assms(3) st s ds w
      by (auto simp: next_token_str_def no_quotes_def)
  next
    case more
    then obtain buf' where
      "next_token buf (Some p) d = Some (buf', Some (p + length ds + length w + 1), Some (p + length ds))"
      "cstr_at buf' (p + length ds) = Some w"
      "cstr_at buf' (p + length ds + length w + 1) = Some r'"
      using next_token_more [of buf p ds w c r' d] st s ds w by metis
    then show ?thesis using assms(3) st(1,3) s more by (auto simp: next_token_str_def no_quotes_def)
  qed
qed

interpretation nq: token_stream "next_token_q d" "tok_rest d" "\<lambda>st. tok_wf st \<and> no_quotes st" for d
proof unfold_locales
  fix st assume wf: "tok_wf st \<and> no_quotes st" and r: "tok_rest d st = []"
  obtain st' where st': "next_token_str d st = Some (st', None)" "tok_wf st'" "tok_rest d st' = []"
    using nt.next_Nil [of st d] wf r by blast
  with next_token_str_no_quotes [of st d st' None] wf
  show "\<exists>st'. next_token_q d st = Some (st', None) \<and> (tok_wf st' \<and> no_quotes st') \<and> tok_rest d st' = []"
    by (auto simp: next_token_q_plain)
next
  fix st t ts assume wf: "tok_wf st \<and> no_quotes st" and r: "tok_rest d st = t # ts"
  obtain st' where st': "next_token_str d st = Some (st', Some t)" "tok_wf st'" "tok_rest d st' = ts"
    using nt.next_Cons [of st d t ts] wf r by blast
  with next_token_str_no_quotes [of st d st' "Some t"] wf
  show "\<exists>st'. next_token_q d st = Some (st', Some t) \<and> (tok_wf st' \<and> no_quotes st') \<and> tok_rest d st' = ts"
    by (auto simp: next_token_q_plain)
qed

lemma tokenizer_loop_words:
  assumes "tok_wf st" "no_quotes st" "length acc + length (tok_rest WS st) < 5000"
  shows "tokenizer_loop st acc = Some (acc @ takeWhile (\<lambda>t. \<not> starts t CHR ''#'') (tok_rest WS st))"
  using assms
proof (induction "tok_rest WS st" arbitrary: st acc)
  case Nil
  then show ?case using nq.next_Nil [of st WS] by (subst tokenizer_loop.simps) auto
next
  case (Cons t ts)
  obtain st' where st': "next_token_q WS st = Some (st', Some t)" "tok_wf st'" "no_quotes st'"
    "tok_rest WS st' = ts"
    using nq.next_Cons [of st WS t ts] Cons.prems Cons.hyps(2) by auto
  have "length acc \<noteq> 4999" using Cons.prems(3) by (simp flip: Cons.hyps(2))
  then show ?case
    using Cons.hyps(1) [of st' "acc @ [t]"] st' Cons.prems(3) Cons.hyps(2) [symmetric]
    by (subst tokenizer_loop.simps) auto
qed

text \<open>The array that \<open>tokenizer\<close> fills.\<close>

lemma tokenizer_words:
  assumes "NUL \<notin> set line" "set line \<inter> quotes = {}" "\<not> starts line CHR ''#''"
    and "length (words_of WS line) < 5000"
  shows "tokenizer a line sh = (let ws = takeWhile (\<lambda>t. \<not> starts t CHR ''#'') (words_of WS line) in
    Some (map Some ws @ [None] @ drop (length ws + 1) a, sh\<lparr>num_tokens := length ws\<rparr>))"
proof -
  have c: "cstr_at (line @ [NUL]) 0 = Some line" using cstr_at_append [of line "[]" 0 "[]"] assms(1) by simp
  have "tokenizer_loop (line @ [NUL], Some 0) []
      = Some ([] @ takeWhile (\<lambda>t. \<not> starts t CHR ''#'') (tok_rest WS (line @ [NUL], Some 0)))"
    using c assms(2,4) by (intro tokenizer_loop_words) (simp_all add: tok_wf_def no_quotes_def tok_rest_def)
  then show ?thesis using assms(3) c by (simp add: tokenizer_def tok_rest_def Let_def)
qed

text \<open>
  C31: On a line without quotes that is not a comment and has fewer than 5000 words, \<open>tokenizer\<close>
  leaves in the array the words of the line up to the first that starts with a hash sign, then a
  NULL, and their number in \<open>num_tokens\<close>.
\<close>

theorem tokenizer_splits:
  assumes "NUL \<notin> set line" "set line \<inter> quotes = {}" "\<not> starts line CHR ''#''"
    and "length (words_of WS line) < 5000"
  defines "ws \<equiv> takeWhile (\<lambda>t. \<not> starts t CHR ''#'') (words_of WS line)"
  shows "\<exists>a' sh'. tokenizer a line sh = Some (a', sh') \<and> num_tokens sh' = length ws
    \<and> (\<forall>i < length ws. cell a' i = Some (Some (ws ! i))) \<and> cell a' (length ws) = Some None
    \<and> hist sh' = hist sh \<and> num_cmds sh' = num_cmds sh"
  using tokenizer_words [OF assms(1-4), of a sh]
  by (simp add: Let_def cell_def nth_append flip: ws_def)

lemma tokenizer_splits_witness:
  "\<exists>a' sh'. tokenizer [] (''ls -l # all'' @ [CHR 0x0A]) (shell_init Map.empty) = Some (a', sh')
    \<and> num_tokens sh' = 2 \<and> cell a' 0 = Some (Some ''ls'') \<and> cell a' 1 = Some (Some ''-l'')
    \<and> cell a' 2 = Some None"
  using tokenizer_splits [of "''ls -l # all'' @ [CHR 0x0A]" "[]" "shell_init Map.empty"]
  by (simp add: quotes_def starts_def WS_def words_of.simps eval_nat_numeral All_less_Suc) blast

section \<open>Quoted arguments\<close>

text \<open>Cutting a token out of a buffer.\<close>

lemma cut_token:
  assumes "NUL \<notin> set s" "a + b \<le> length s"
  shows "cstr_at (if a + b = length s then s @ [NUL] else (s @ [NUL])[a + b := NUL]) a
    = Some (take b (drop a s))"
proof -
  have nul: "NUL \<notin> set (take b (drop a s))" using assms(1) by (meson in_set_dropD in_set_takeD)
  have s: "s = take a s @ take b (drop a s) @ drop (a + b) s"
    by (metis add.commute append_take_drop_id drop_drop)
  show ?thesis
  proof (cases "a + b = length s")
    case True
    have e: "take a s @ drop a s @ [NUL] = s @ [NUL]" by (simp flip: append.assoc)
    have "cstr_at (take a s @ drop a s @ [NUL]) a = Some (drop a s)"
      using True cstr_at_append [OF nul, of "take a s" a "[]"] assms(2) by (simp add: min.absorb2)
    then have "cstr_at (s @ [NUL]) a = Some (drop a s)" by (simp only: e)
    then show ?thesis using True by simp
  next
    case False
    then obtain c r where r: "drop (a + b) s = c # r"
      using assms(2) by (cases "drop (a + b) s") auto
    have "(s @ [NUL])[a + b := NUL] = take a s @ take b (drop a s) @ NUL # r @ [NUL]"
      using assms(2) r by (subst s) (simp add: list_update_append min_def)
    then show ?thesis
      using False assms(2) cstr_at_append [OF nul, of "take a s" a "r @ [NUL]"] by simp
  qed
qed

lemma next_token_q_cut:
  assumes "NUL \<notin> set s" "next_token_quoted (s @ [NUL]) (Some 0) d
      = (if b = 0 then Some (s @ [NUL], None, None)
         else if (s @ [NUL]) ! (a + b) = NUL then Some (s @ [NUL], None, Some a)
         else Some ((s @ [NUL])[a + b := NUL], Some (a + b + 1), Some a))"
    and "0 < b" "a + b \<le> length s"
  shows "\<exists>st'. next_token_q d (s @ [NUL], Some 0) = Some (st', Some (take b (drop a s)))"
proof -
  have "(s @ [NUL]) ! (a + b) = NUL \<longleftrightarrow> a + b = length s"
    using assms(1,4) by (auto simp: nth_append) (metis nth_mem)
  then show ?thesis
    using cut_token [OF assms(1,4)] assms(2,3) by (auto simp: next_token_q_def)
qed

lemma strcspn_piece:
  "rest = [] \<or> hd rest \<in> set d \<Longrightarrow> strcspn (w @ rest) d = length (takeWhile (\<lambda>c. c \<notin> set d) w)"
  by (induction w) (cases rest, auto simp: strcspn_def)

text \<open>
  C32: A quoted argument \<open>q body q\<close> that follows \<open>pre\<close>, a run of white space, is one token, with its
  quotes, when the run is shorter than the argument's first piece up to a white space; otherwise
  the quote is overlooked and the token is that piece only.
\<close>

theorem quoted_argument:
  assumes "q \<in> quotes" "q \<notin> set body" "NUL \<notin> set (body @ rest)" "set pre \<subseteq> set WS"
    and "rest = [] \<or> hd rest \<in> set WS"
  defines "arg \<equiv> q # body @ [q]"
  defines "piece \<equiv> takeWhile (\<lambda>c. c \<notin> set WS) arg"
  shows "\<exists>st'. next_token_q WS (pre @ arg @ rest @ [NUL], Some 0)
    = Some (st', Some (if length pre < length piece then arg else piece))"
proof -
  let ?s = "pre @ arg @ rest"
  have ws: "q \<notin> set WS" "NUL \<notin> set WS" "q \<noteq> NUL" using assms(1) by (auto simp: quotes_def WS_def)
  have nul: "NUL \<notin> set ?s" using assms(3,4) ws by (auto simp: arg_def)
  have start: "strspn ?s WS = length pre"
    using assms(4) ws by (simp add: strspn_append arg_def) (simp add: strspn_def)
  have first: "strcspn (drop (length pre) ?s) WS = length piece"
    using assms(5) by (simp add: piece_def strcspn_piece)
  have quote: "strcspn ?s [CHR 0x27, CHR 0x22] = length pre"
    using assms(1,4) unfolding arg_def append_Cons
    by (intro strcspn_word) (auto simp: WS_def quotes_def)
  have sq: "?s ! length pre = q" by (simp add: arg_def)
  have qend: "strcspn (drop (length pre + 1) ?s) [q] = length body"
    using assms(2) strcspn_word [of body "[q]" "q # rest"] by (simp add: arg_def)
  have tend: "strcspn (drop (length body + (length pre + 1)) ?s) WS = 1"
    using ws assms(5) strcspn_word [of "[q]" WS rest] by (cases rest) (auto simp: arg_def)
  define b where "b = (if length pre < length piece then length arg else length piece)"
  have "piece \<noteq> []" using ws by (simp add: piece_def arg_def)
  moreover have le: "length piece \<le> length arg" by (simp add: piece_def length_takeWhile_le)
  ultimately have b: "0 < b" "length pre + b \<le> length ?s" by (auto simp: b_def arg_def)
  have bval: "(if length pre < length piece
      then 1 + (length body + (length pre + 1)) - length pre else length piece) = b"
    by (simp add: b_def arg_def)
  have c: "cstr_at (?s @ [NUL]) 0 = Some ?s" using cstr_at_append [of ?s "[]" 0 "[]"] nul by simp
  have "next_token_quoted (?s @ [NUL]) (Some 0) WS
      = (if b = 0 then Some (?s @ [NUL], None, None)
         else if (?s @ [NUL]) ! (length pre + b) = NUL then Some (?s @ [NUL], None, Some (length pre))
         else Some ((?s @ [NUL])[length pre + b := NUL], Some (length pre + b + 1), Some (length pre)))"
    unfolding next_token_quoted_def option.case c Option.bind.bind_lunit Let_def start first quote sq qend tend bval
    by (simp only: add_0)
  from next_token_q_cut [OF nul this b] have
    "\<exists>st'. next_token_q WS (?s @ [NUL], Some 0) = Some (st', Some (take b (drop (length pre) ?s)))" .
  moreover have "take b (drop (length pre) ?s) = (if length pre < length piece then arg else piece)"
  proof (cases "length pre < length piece")
    case False
    have "take (length piece) arg = piece" unfolding piece_def by (rule takeWhile_eq_take [symmetric])
    with False le show ?thesis by (simp add: b_def)
  qed (simp add: b_def)
  ultimately show ?thesis by simp
qed

lemma quoted_argument_witness:
  "(\<exists>st'. next_token_q WS ('' '' @ (CHR 0x27 # ''a b'' @ [CHR 0x27]) @ [] @ [NUL], Some 0)
      = Some (st', Some (CHR 0x27 # ''a b'' @ [CHR 0x27])))
    \<and> (\<exists>st'. next_token_q WS (''   '' @ (CHR 0x27 # ''a b'' @ [CHR 0x27]) @ [] @ [NUL], Some 0)
      = Some (st', Some (CHR 0x27 # ''a'')))"
  using quoted_argument [of "CHR 0x27" "''a b''" "[]" "'' ''"]
    quoted_argument [of "CHR 0x27" "''a b''" "[]" "''   ''"]
  by (simp add: quotes_def WS_def)

end
