(* ===== verification/Shell_Pipe.thy ===== *)
theory Shell_Pipe
  imports Shell
begin

text \<open>
  From the tokens of a line to the processes: the parser of \<open>exec\<close> against a grammar of
  pipelines, and the processes that \<open>execute_pipeline\<close> makes of them.
\<close>

section \<open>The grammar\<close>

text \<open>A pipeline is a list of commands, each a list of words, and perhaps an output file.\<close>

fun pipeline_toks :: "string list list \<Rightarrow> string option \<Rightarrow> string list" where
  "pipeline_toks [] outf = []"
| "pipeline_toks [s] None = s"
| "pipeline_toks [s] (Some f) = s @ [''>'', f]"
| "pipeline_toks (s # t # ss) outf = s @ ''|'' # pipeline_toks (t # ss) outf"

text \<open>The commands that the parser makes of it; the file's name becomes one of its own.\<close>

fun pipeline_cmds :: "string list list \<Rightarrow> string option \<Rightarrow> command_line list" where
  "pipeline_cmds [] outf = []"
| "pipeline_cmds [s] None = [\<lparr>tokens = Some s, stdout_pipe = False, stdout_file = None\<rparr>]"
| "pipeline_cmds [s] (Some f) =
     [\<lparr>tokens = Some s, stdout_pipe = False, stdout_file = Some f\<rparr>,
      \<lparr>tokens = Some [f], stdout_pipe = False, stdout_file = None\<rparr>]"
| "pipeline_cmds (s # t # ss) outf =
     \<lparr>tokens = Some s, stdout_pipe = True, stdout_file = None\<rparr> # pipeline_cmds (t # ss) outf"

text \<open>
  The processes: each reads the pipe that the one before it writes. One whose program cannot be
  executed, or whose output cannot be turned to the file, returns into the main loop.
\<close>

definition started :: "os \<Rightarrow> string list \<Rightarrow> source \<Rightarrow> sink \<Rightarrow> proc" where
  "started os argv src snk = (if exec_ok os (hd argv) then Runs argv src snk else Returns src snk)"

fun chain :: "os \<Rightarrow> nat \<Rightarrow> source \<Rightarrow> string list list \<Rightarrow> string option \<Rightarrow> proc list" where
  "chain os n src [] outf = []"
| "chain os n src [s] outf = [case outf of None \<Rightarrow> started os s src Stdout
     | Some f \<Rightarrow> if dup2_ok os then started os s src (To_file f) else Returns src Stdout]"
| "chain os n src (s # t # ss) outf =
     started os s src (To_pipe n) # chain os (n + 1) (From_pipe n) (t # ss) outf"

definition plain :: "string \<Rightarrow> bool" where
  "plain t \<longleftrightarrow> \<not> starts t CHR ''|'' \<and> \<not> starts t CHR ''>''"

definition good_seg :: "string list \<Rightarrow> bool" where
  "good_seg s \<longleftrightarrow> s \<noteq> [] \<and> length s < 625 \<and> (\<forall>t \<in> set s. plain t)"

section \<open>The parser\<close>

lemma plain_not: "plain t \<Longrightarrow> t \<noteq> ''|'' \<and> t \<noteq> ''>''"
  by (auto simp: plain_def starts_def)

lemma parse_loop_step:
  "plain t \<Longrightarrow> parse_loop seen (Some t # Some u # r) st = parse_loop (seen @ [t]) (Some u # r) st"
  by (subst parse_loop.simps) (simp add: plain_def Let_def del: parse_loop.simps)

lemma parse_loop_bar:
  "parse_loop seen (Some ''|'' # Some u # r) st = do {
     st1 \<leftarrow> add_pipe (seen @ [''|'']) st;
     parse_loop (seen @ [''|'']) (Some u # r) st1
   }"
  by (subst parse_loop.simps) (simp add: starts_def Let_def del: parse_loop.simps)

text \<open>Plain tokens with something behind them only move on.\<close>

lemma parse_loop_plain:
  "\<lbrakk>\<forall>t \<in> set ts. plain t; r \<noteq> []; hd r \<noteq> None\<rbrakk> \<Longrightarrow>
    parse_loop seen (map Some ts @ r) st = parse_loop (seen @ ts) r st"
proof (induction ts arbitrary: seen)
  case (Cons t ts)
  obtain u r' where r: "r = Some u # r'" using Cons.prems(2,3) by (cases r) auto
  have "\<exists>u r'. map Some ts @ r = Some u # r'" using r by (cases ts) auto
  then obtain u' r'' where "map Some ts @ r = Some u' # r''" by blast
  then have "parse_loop seen (map Some (t # ts) @ r) st = parse_loop (seen @ [t]) (map Some ts @ r) st"
    using Cons.prems(1) parse_loop_step [of t seen u' r'' st] by simp
  also have "\<dots> = parse_loop ((seen @ [t]) @ ts) r st" using Cons.prems by (intro Cons.IH) auto
  finally show ?case by simp
qed simp

lemma takeWhile_sep:
  "\<lbrakk>\<forall>t \<in> set s. plain t; x = ''|'' \<or> x = ''>''\<rbrakk> \<Longrightarrow> takeWhile (\<lambda>t. t \<noteq> x) (s @ [x]) = s"
  using plain_not by (auto simp: takeWhile_append takeWhile_eq_all_conv)

lemma parse_pipeline:
  assumes "ss \<noteq> []" "\<forall>s \<in> set ss. good_seg s" "\<forall>f. outf = Some f \<longrightarrow> plain f"
    and "seg_start st = length seen"
  shows "\<exists>st'. parse_loop seen (map Some (pipeline_toks ss outf) @ None # r) st = Some st'
    \<and> cmds st' = cmds st @ pipeline_cmds ss outf"
  using assms
proof (induction ss outf arbitrary: seen st rule: pipeline_cmds.induct)
  case (2 s)
  define t ts where "t = List.last s" and "ts = butlast s"
  have s: "s = ts @ [t]" using "2.prems"(2) by (simp add: good_seg_def t_def ts_def)
  have pl: "\<forall>t \<in> set ts. plain t" "plain t" "length ts < 624"
    using "2.prems"(2) s by (auto simp: good_seg_def)
  have "parse_loop seen (map Some s @ None # r) st = parse_loop (seen @ ts) (Some t # None # r) st"
    using parse_loop_plain [OF pl(1), of "Some t # None # r" seen st] by (simp add: s)
  then show ?case
    using pl "2.prems"(4) by (simp add: s plain_def Let_def add_last_def copy_seg_def)
next
  case (3 s f)
  have pl: "\<forall>t \<in> set s. plain t" "length s < 625" "plain f"
    using "3.prems"(2,3) by (auto simp: good_seg_def)
  have g: "starts ''>'' CHR ''>''" "\<not> starts ''>'' CHR ''|''" by (simp_all add: starts_def)
  have "parse_loop seen (map Some (s @ [''>'', f]) @ None # r) st
      = parse_loop (seen @ s) (Some ''>'' # Some f # None # r) st"
    using parse_loop_plain [OF pl(1), of "Some ''>'' # Some f # None # r" seen st] by simp
  then show ?case
    using pl "3.prems"(4)
    by (simp add: g plain_def Let_def add_last_def add_redirect_def copy_seg_def takeWhile_sep
        cell_def nth_append seg_start_def)
next
  case (4 s s' ss outf)
  have pl: "\<forall>t \<in> set s. plain t" "length s < 625"
    using "4.prems"(2) by (auto simp: good_seg_def)
  define toks where "toks = pipeline_toks (s' # ss) outf"
  have "s' \<noteq> []" using "4.prems"(2) by (simp add: good_seg_def)
  then obtain u us where u: "toks = u # us" unfolding toks_def by (cases ss; cases outf; cases s') auto
  define st1 where "st1 = \<lparr>cmds = cmds st @ [\<lparr>tokens = Some s, stdout_pipe = True, stdout_file = None\<rparr>],
    last = length (seen @ s), has_pipe = True\<rparr>"
  have "parse_loop seen (map Some (s @ ''|'' # toks) @ None # r) st
      = parse_loop (seen @ s) (Some ''|'' # map Some toks @ None # r) st"
    using parse_loop_plain [OF pl(1), of "Some ''|'' # map Some toks @ None # r" seen st] by simp
  also have "\<dots> = parse_loop (seen @ s @ [''|'']) (map Some toks @ None # r) st1"
    using pl "4.prems"(4) parse_loop_bar [of "seen @ s" u "map Some us @ None # r" st]
    by (simp add: u add_pipe_def copy_seg_def takeWhile_sep st1_def del: parse_loop.simps)
  finally have p: "parse_loop seen (map Some (s @ ''|'' # toks) @ None # r) st
      = parse_loop (seen @ s @ [''|'']) (map Some toks @ None # r) st1" .
  have "seg_start st1 = length (seen @ s @ [''|''])" by (simp add: st1_def seg_start_def)
  then obtain st' where "parse_loop (seen @ s @ [''|'']) (map Some toks @ None # r) st1 = Some st'"
    "cmds st' = cmds st1 @ pipeline_cmds (s' # ss) outf"
    unfolding toks_def using "4.IH" [of st1 "seen @ s @ [''|'']"] "4.prems"(2,3) by auto
  with p show ?case by (simp add: toks_def st1_def)
qed simp

lemma parse_cmds_pipeline:
  "\<lbrakk>ss \<noteq> []; \<forall>s \<in> set ss. good_seg s; \<forall>f. outf = Some f \<longrightarrow> plain f\<rbrakk> \<Longrightarrow>
    parse_cmds (map Some (pipeline_toks ss outf) @ None # r) = Some (pipeline_cmds ss outf)"
  using parse_pipeline [of ss outf "\<lparr>cmds = [], last = 0, has_pipe = False\<rparr>" "[]" r]
  by (auto simp: parse_cmds_def seg_start_def)

section \<open>The processes\<close>

lemma execute_pipeline_chain:
  "\<lbrakk>ss \<noteq> []; \<forall>s \<in> set ss. good_seg s; \<forall>i. pipe_ok os i \<and> fork_ok os i;
    \<forall>f. outf = Some f \<longrightarrow> open_ok os f\<rbrakk> \<Longrightarrow>
    execute_pipeline os n src (pipeline_cmds ss outf) = Some (chain os n src ss outf)"
  by (induction ss outf arbitrary: n src rule: pipeline_cmds.induct)
    (auto simp: started_def good_seg_def Let_def)

section \<open>\<open>exec\<close>\<close>

lemma substitute_plain:
  "\<lbrakk>toks \<noteq> []; \<forall>t \<in> set (take 2 toks). \<not> starts t CHR ''$''\<rbrakk> \<Longrightarrow>
    substitute (map Some toks @ None # r) sh = Some (map Some toks @ None # r, sh)"
  by (cases toks; cases "tl toks") (auto simp: substitute_def cell_def)

lemma pipeline_toks_ne: "\<lbrakk>ss \<noteq> []; \<forall>s \<in> set ss. good_seg s\<rbrakk> \<Longrightarrow> pipeline_toks ss outf \<noteq> []"
  by (induction ss outf rule: pipeline_toks.induct) (auto simp: good_seg_def)

lemma pipeline_cmds_ne: "ss \<noteq> [] \<Longrightarrow> pipeline_cmds ss outf \<noteq> []"
  by (induction ss outf rule: pipeline_cmds.induct) auto

text \<open>
  On the tokens of a pipeline \<open>exec\<close> starts one process per command. In the foreground the shell
  waits; in the background the line becomes the next job, when the table of ten has a free place
  and the line fits.
\<close>

lemma exec_pipeline:
  assumes "ss \<noteq> []" "\<forall>s \<in> set ss. good_seg s" "\<forall>f. outf = Some f \<longrightarrow> plain f \<and> open_ok os f"
    and "\<forall>t \<in> set (take 2 (pipeline_toks ss outf)). \<not> starts t CHR ''$''"
    and "\<forall>i. pipe_ok os i \<and> fork_ok os i" "fork_pid os \<noteq> -1" "0 \<le> count sh"
  shows "exec os (map Some (pipeline_toks ss outf) @ None # r) bg line sh =
    (let sh' = act (Launch (chain os 0 Stdin ss outf)) sh in
     if \<not> bg then Some (act (Wait (fork_pid os)) sh')
     else if count sh < 10 \<and> length line < 5000
     then Some (sh'\<lparr>num_jobs := (num_jobs sh)[nat (count sh) := fork_pid os],
       bg_cmds := (bg_cmds sh)[nat (count sh) := line], count := count sh + 1\<rparr>)
     else None)"
  using parse_cmds_pipeline [of ss outf r] execute_pipeline_chain [of ss os outf 0 Stdin]
    substitute_plain [OF pipeline_toks_ne [of ss outf], of r sh] pipeline_cmds_ne [of ss outf] assms
  by (simp add: exec_def Let_def act_def strcpy_into_def)

end
