(* ===== verification/Shell_Jobs.thy ===== *)
theory Shell_Jobs
  imports Shell
begin

text \<open>
  The table of background jobs: the two arrays and the counter hold a list of process ids and
  lines; the signal handler has to take the terminated process out of it.
\<close>

section \<open>The abstract table\<close>

definition jobs_of :: "shell \<Rightarrow> (int \<times> string) list" where
  "jobs_of sh = zip (take (nat (count sh)) (num_jobs sh)) (take (nat (count sh)) (bg_cmds sh))"

text \<open>Ten places; process ids are positive and distinct; the unused places hold zeros.\<close>

definition job_ok :: "shell \<Rightarrow> bool" where
  "job_ok sh \<longleftrightarrow> 0 \<le> count sh \<and> count sh \<le> 10 \<and> length (num_jobs sh) = 10 \<and> length (bg_cmds sh) = 10
     \<and> distinct (take (nat (count sh)) (num_jobs sh)) \<and> (\<forall>p \<in> set (take (nat (count sh)) (num_jobs sh)). 0 < p)
     \<and> (\<forall>i < 10. nat (count sh) \<le> i \<longrightarrow> num_jobs sh ! i = 0 \<and> bg_cmds sh ! i = [])"

definition shift1 :: "nat \<Rightarrow> nat \<Rightarrow> 'a list \<Rightarrow> 'a list" where
  "shift1 i n xs = map (\<lambda>k. if i \<le> k \<and> k < n then xs ! (k + 1) else xs ! k) [0..<length xs]"

lemma shift1_step:
  "\<lbrakk>i < n; n < length xs\<rbrakk> \<Longrightarrow> shift1 (Suc i) n (xs[i := xs ! Suc i]) = shift1 i n xs"
  by (rule nth_equalityI) (auto simp: shift1_def nth_list_update)

lemma shift1_id: "n \<le> i \<Longrightarrow> shift1 i n xs = xs"
  by (rule nth_equalityI) (auto simp: shift1_def)

lemma shift_jobs_shift1:
  "\<lbrakk>count sh = int n; n < 10; i \<le> n; length (num_jobs sh) = 10; length (bg_cmds sh) = 10\<rbrakk> \<Longrightarrow>
    shift_jobs i sh = Some (sh\<lparr>num_jobs := shift1 i n (num_jobs sh), bg_cmds := shift1 i n (bg_cmds sh)\<rparr>)"
proof (induction i sh rule: shift_jobs.induct)
  case (1 i sh)
  show ?case
  proof (cases "i < n")
    case True
    then show ?thesis
      using "1.prems" "1.IH" by (subst shift_jobs.simps) (simp add: shift1_step)
  next
    case False
    then show ?thesis using "1.prems" by (subst shift_jobs.simps) (simp add: shift1_id)
  qed
qed

lemma shift1_take:
  "\<lbrakk>i < n; n < length xs\<rbrakk> \<Longrightarrow> take (n - Suc 0) (shift1 i n xs) = take i xs @ drop (Suc i) (take n xs)"
  by (rule nth_equalityI) (auto simp: shift1_def nth_append)

lemma shift1_beyond: "\<lbrakk>n \<le> k + 1; k < length xs; n < length xs\<rbrakk> \<Longrightarrow>
    shift1 i n xs ! k = (if i \<le> k \<and> k + 1 = n then xs ! n else xs ! k)"
  by (auto simp: shift1_def)

lemma filter_other: "pid \<notin> set ps \<Longrightarrow> filter (\<lambda>(p, _). p \<noteq> pid) (zip ps ls) = zip ps ls"
  by (auto simp: filter_id_conv dest: set_zip_leftD)

lemma filter_zip_mid:
  "\<lbrakk>distinct (as @ p # bs); length cs = length as\<rbrakk> \<Longrightarrow>
    filter (\<lambda>(x, _). x \<noteq> p) (zip (as @ p # bs) (cs @ q # ds)) = zip (as @ bs) (cs @ ds)"
  by (simp add: filter_other)

lemma filter_zip_at:
  assumes "distinct ps" "length ls = length ps" "i < length ps"
  shows "filter (\<lambda>(p, _). p \<noteq> ps ! i) (zip ps ls)
    = zip (take i ps @ drop (Suc i) ps) (take i ls @ drop (Suc i) ls)"
proof -
  have ps: "ps = take i ps @ ps ! i # drop (Suc i) ps" and ls: "ls = take i ls @ ls ! i # drop (Suc i) ls"
    using assms(2,3) by (simp_all add: id_take_nth_drop)
  have "distinct (take i ps @ ps ! i # drop (Suc i) ps)" using assms(1) ps by simp
  from filter_zip_mid [OF this, of "take i ls" "ls ! i" "drop (Suc i) ls"] show ?thesis
    using assms(2,3) ps ls by simp
qed

section \<open>A new job\<close>

lemma take_snoc: "\<lbrakk>n < length xs\<rbrakk> \<Longrightarrow> take (Suc n) (xs[n := x]) = take n xs @ [x]"
  by (simp add: take_Suc_conv_app_nth)

lemma job_added:
  fixes line :: string
  assumes ok: "job_ok sh" and n: "count sh < 10" and p: "0 < pid" "pid \<notin> fst ` set (jobs_of sh)"
  defines "sh' \<equiv> sh\<lparr>num_jobs := (num_jobs sh)[nat (count sh) := pid],
    bg_cmds := (bg_cmds sh)[nat (count sh) := line], count := count sh + 1\<rparr>"
  shows "job_ok sh' \<and> jobs_of sh' = jobs_of sh @ [(pid, line)]"
proof -
  define n where "n = nat (count sh)"
  have c: "count sh = int n" "n < 10" "length (num_jobs sh) = 10" "length (bg_cmds sh) = 10"
    using ok n by (auto simp: job_ok_def n_def)
  have z: "num_jobs sh ! i = 0 \<and> bg_cmds sh ! i = []" if "i < 10" "n \<le> i" for i
    using ok that by (simp add: job_ok_def n_def)
  have d: "distinct (take n (num_jobs sh))" "\<forall>p \<in> set (take n (num_jobs sh)). 0 < p"
    using ok by (simp_all add: job_ok_def n_def)
  have "fst ` set (jobs_of sh) = set (take n (num_jobs sh))"
    using c by (simp add: jobs_of_def flip: set_map)
  with p(2) have "pid \<notin> set (take n (num_jobs sh))" by simp
  then show ?thesis
    using c d p(1) z
    by (simp add: job_ok_def jobs_of_def sh'_def take_snoc nat_add_distrib nth_list_update)
qed

section \<open>The handler\<close>

lemma find_first:
  "\<lbrakk>xs ! i = p; i < n; \<forall>j < i. xs ! j \<noteq> p\<rbrakk> \<Longrightarrow> find (\<lambda>k. xs ! k = p) [0..<n] = Some i"
  by (auto simp: find_Some_iff intro!: exI [of _ i])

lemma sigchld_hit:
  assumes ok: "job_ok sh" and n: "count sh < 10" and i: "i < nat (count sh)" "num_jobs sh ! i = pid"
  shows "\<exists>sh'. sigchld_handler pid sh = Some sh' \<and> job_ok sh'
    \<and> jobs_of sh' = filter (\<lambda>(p, _). p \<noteq> pid) (jobs_of sh)"
proof -
  define n where "n = nat (count sh)"
  define sh' where "sh' = sh\<lparr>num_jobs := shift1 i n (num_jobs sh), bg_cmds := shift1 i n (bg_cmds sh),
    count := int n - 1\<rparr>"
  let ?ps = "take n (num_jobs sh)" and ?ls = "take n (bg_cmds sh)"
  have n': "count sh = int n" "n < 10" "i < n" "length (num_jobs sh) = 10" "length (bg_cmds sh) = 10"
    "distinct ?ps" "\<forall>p \<in> set ?ps. 0 < p"
    using ok n i(1) by (auto simp: job_ok_def n_def)
  have z: "num_jobs sh ! k = 0 \<and> bg_cmds sh ! k = []" if "n \<le> k" "k < 10" for k
    using ok that by (simp add: job_ok_def n_def)
  have pid: "pid = ?ps ! i" "0 < pid" using i n' by (auto simp: all_set_conv_all_nth)
  have "num_jobs sh ! j \<noteq> pid" if "j < i" for j
    using that n'(3,4,6) pid(1) nth_eq_iff_index_eq [of ?ps j i] by (simp add: n'(2))
  then have "find (\<lambda>k. num_jobs sh ! k = pid) [0..<9] = Some i"
    using i(2) n'(2,3) by (intro find_first) auto
  moreover have "pid \<noteq> num_jobs sh ! 9" using z [of 9] pid(2) n'(2) by simp
  ultimately have "sigchld_handler pid sh = Some sh'"
    using pid(2) n' by (simp add: sigchld_handler_def shift_jobs_shift1 [of _ n] sh'_def)
  moreover have tk: "take (n - Suc 0) (shift1 i n xs) = take i (take n xs) @ drop (Suc i) (take n xs)"
    if "length xs = 10" for xs :: "'b list"
    using shift1_take [of i n xs] n'(2,3) that by (simp add: min_def)
  have "jobs_of sh' = filter (\<lambda>(p, _). p \<noteq> pid) (jobs_of sh)"
    using n' filter_zip_at [of ?ps ?ls i]
    by (simp add: jobs_of_def sh'_def tk nat_diff_distrib pid(1) flip: n_def)
  moreover have "job_ok sh'"
  proof -
    have "distinct (take i ?ps @ drop (Suc i) ?ps)"
      using n'(6) by (metis Suc_eq_plus1 distinct_append distinct_drop distinct_take in_set_dropD
        set_take_disj_set_drop_if_distinct Int_commute le_add1 )
    moreover have "\<forall>p \<in> set (take i ?ps @ drop (Suc i) ?ps). 0 < p"
      using n'(7) by (metis UnE in_set_dropD in_set_takeD set_append)
    ultimately show ?thesis
      using n' z tk [of "num_jobs sh"]
      by (auto simp: job_ok_def sh'_def shift1_def nat_diff_distrib dest: in_set_takeD in_set_dropD)
  qed
  ultimately show ?thesis by blast
qed

lemma sigchld_miss:
  assumes ok: "job_ok sh" and n: "count sh < 10" and p: "0 < pid"
    and out: "pid \<notin> set (take (nat (count sh)) (num_jobs sh))"
  shows "sigchld_handler pid sh = Some sh"
proof -
  have "num_jobs sh ! k \<noteq> pid" if "k < 10" for k
  proof (cases "k < nat (count sh)")
    case True
    then have "num_jobs sh ! k = take (nat (count sh)) (num_jobs sh) ! k" by simp
    also have "\<dots> \<in> set (take (nat (count sh)) (num_jobs sh))"
      using True ok that by (intro nth_mem) (auto simp: job_ok_def)
    finally show ?thesis using out by auto
  next
    case False
    then show ?thesis using ok p that by (simp add: job_ok_def)
  qed
  moreover from this have "find (\<lambda>i. num_jobs sh ! i = pid) [0..<9] = None"
    by (auto simp: find_None_iff)
  moreover have "pid \<noteq> num_jobs sh ! 9" using calculation(1) [of 9] by simp
  ultimately show ?thesis using p by (simp add: sigchld_handler_def)
qed

text \<open>
  When the table is not full, the signal handler takes exactly the job of the terminated
  process out of it and keeps the order of the others; a process that is no job changes nothing.
  The table stays well-formed.
\<close>

lemma sigchld_reaps:
  assumes "job_ok sh" "count sh < 10" "0 < pid"
  shows "\<exists>sh'. sigchld_handler pid sh = Some sh' \<and> job_ok sh'
    \<and> jobs_of sh' = filter (\<lambda>(p, _). p \<noteq> pid) (jobs_of sh)"
proof (cases "pid \<in> set (take (nat (count sh)) (num_jobs sh))")
  case True
  then obtain i where "i < nat (count sh)" "num_jobs sh ! i = pid"
    by (auto simp: in_set_conv_nth)
  with sigchld_hit assms(1,2) show ?thesis by blast
next
  case False
  then have "filter (\<lambda>(p, _). p \<noteq> pid) (jobs_of sh) = jobs_of sh"
    unfolding jobs_of_def by (rule filter_other)
  with sigchld_miss [OF assms False] assms(1) show ?thesis by simp
qed

text \<open>A table with the jobs \<open>js\<close>.\<close>

definition with_jobs :: "(int \<times> string) list \<Rightarrow> shell" where
  "with_jobs js = (shell_init Map.empty)\<lparr>count := int (length js),
     num_jobs := map fst js @ replicate (10 - length js) 0,
     bg_cmds := map snd js @ replicate (10 - length js) []\<rparr>"

lemma shift_jobs_full: "\<lbrakk>count sh = 10; i \<le> 9\<rbrakk> \<Longrightarrow> shift_jobs i sh = None"
  by (induction i sh rule: shift_jobs.induct) (subst shift_jobs.simps, auto)

text \<open>
  The handler on the borders of the table. With ten jobs the tenth is removed correctly, but
  the removal of any other reads behind the arrays. When \<open>waitpid\<close> reports no process at all,
  its result 0 is taken for the empty tenth place and the last job is lost; with no job the
  counter becomes negative.
\<close>

theorem sigchld_borders:
  assumes ok: "job_ok sh"
  shows "(count sh = 10 \<longrightarrow> pid \<in> set (take 9 (num_jobs sh)) \<longrightarrow> sigchld_handler pid sh = None)
    \<and> (count sh = 10 \<longrightarrow> (\<exists>sh'. sigchld_handler (num_jobs sh ! 9) sh = Some sh'
          \<and> jobs_of sh' = butlast (jobs_of sh)))
    \<and> (count sh < 10 \<longrightarrow> (\<exists>sh'. sigchld_handler 0 sh = Some sh' \<and> count sh' = count sh - 1
          \<and> jobs_of sh' = butlast (jobs_of sh)))"
proof (intro conjI impI)
  assume c: "count sh = 10" and p: "pid \<in> set (take 9 (num_jobs sh))"
  then obtain i where i: "i < 9" "num_jobs sh ! i = pid" by (auto simp: in_set_conv_nth)
  have d: "distinct (num_jobs sh)" "length (num_jobs sh) = 10" "\<forall>p \<in> set (num_jobs sh). 0 < p"
    using ok c by (auto simp: job_ok_def)
  then have "pid \<noteq> num_jobs sh ! 9" "\<forall>j < i. num_jobs sh ! j \<noteq> pid" "0 < pid"
    using i nth_eq_iff_index_eq [of "num_jobs sh"] by (force simp: all_set_conv_all_nth)+
  moreover from this i have "find (\<lambda>k. num_jobs sh ! k = pid) [0..<9] = Some i"
    by (intro find_first) auto
  ultimately show "sigchld_handler pid sh = None"
    using shift_jobs_full [of sh i] i c by (simp add: sigchld_handler_def)
next
  assume c: "count sh = 10"
  then have "0 < num_jobs sh ! 9" using ok by (auto simp: job_ok_def all_set_conv_all_nth)
  then have "0 < num_jobs sh ! 9" "num_jobs sh ! 9 \<noteq> -1" by simp_all
  then have "sigchld_handler (num_jobs sh ! 9) sh = Some (sh\<lparr>count := count sh - 1,
      bg_cmds := (bg_cmds sh)[9 := []], num_jobs := (num_jobs sh)[9 := 0]\<rparr>)"
    by (simp add: sigchld_handler_def)
  then show "\<exists>sh'. sigchld_handler (num_jobs sh ! 9) sh = Some sh' \<and> jobs_of sh' = butlast (jobs_of sh)"
    using ok c by (simp add: jobs_of_def job_ok_def butlast_conv_take take_zip)
next
  assume c: "count sh < 10"
  then have "num_jobs sh ! 9 = 0" using ok by (simp add: job_ok_def)
  then show "\<exists>sh'. sigchld_handler 0 sh = Some sh' \<and> count sh' = count sh - 1 \<and> jobs_of sh' = butlast (jobs_of sh)"
    using ok c by (auto simp: sigchld_handler_def jobs_of_def job_ok_def butlast_conv_take take_zip nat_diff_distrib')
qed

text \<open>On a full table the handler, when it stays inside the arrays, does what it should.\<close>

lemma sigchld_full:
  assumes ok: "job_ok sh" and c: "count sh = 10" and p: "0 < pid" and h: "sigchld_handler pid sh = Some sh'"
  shows "job_ok sh' \<and> jobs_of sh' = filter (\<lambda>(p, _). p \<noteq> pid) (jobs_of sh)"
proof -
  have l: "length (num_jobs sh) = 10" "length (bg_cmds sh) = 10" "distinct (num_jobs sh)"
    "\<forall>p \<in> set (num_jobs sh). 0 < p" and j: "jobs_of sh = zip (num_jobs sh) (bg_cmds sh)"
    using ok c by (auto simp: job_ok_def jobs_of_def)
  have out: "pid \<notin> set (take 9 (num_jobs sh))" using sigchld_borders [OF ok, of pid] c h by auto
  show ?thesis
  proof (cases "pid = num_jobs sh ! 9")
    case True
    with h p have sh': "sh' = sh\<lparr>count := 9, bg_cmds := (bg_cmds sh)[9 := []], num_jobs := (num_jobs sh)[9 := 0]\<rparr>"
      by (simp add: sigchld_handler_def c)
    have "jobs_of sh' = filter (\<lambda>(p, _). p \<noteq> pid) (jobs_of sh)"
      using filter_zip_at [OF l(3), of "bg_cmds sh" 9] l by (simp add: True sh' jobs_of_def c)
    moreover have "job_ok sh'"
      using l by (auto simp: sh' job_ok_def nth_list_update dest: in_set_takeD)
    ultimately show ?thesis by simp
  next
    case False
    have "num_jobs sh ! k \<noteq> pid" if "k < 9" for k
      using out that l by (auto simp: in_set_conv_nth)
    then have "find (\<lambda>i. num_jobs sh ! i = pid) [0..<9] = None" by (auto simp: find_None_iff)
    with False h p have "sh' = sh" by (simp add: sigchld_handler_def)
    moreover have "num_jobs sh = take 9 (num_jobs sh) @ [num_jobs sh ! 9]"
      using l by (simp add: list_eq_iff_nth_eq nth_append less_Suc_eq numeral_eq_Suc)
    with out False have "pid \<notin> set (num_jobs sh)" by (metis UnE empty_iff empty_set insert_iff list.simps(15) set_append)
    ultimately show ?thesis using ok by (simp add: j filter_other)
  qed
qed

lemma sigchld_borders_witness:
  "sigchld_handler 3 (with_jobs (map (\<lambda>n. (n, ''x'')) [1..10])) = None
    \<and> (\<exists>sh'. sigchld_handler 0 (with_jobs []) = Some sh' \<and> count sh' = -1)"
proof -
  have "job_ok (with_jobs (map (\<lambda>n. (n, ''x'')) [1..10]))" "job_ok (with_jobs [])"
    by (simp_all add: job_ok_def with_jobs_def comp_def All_less_Suc numeral_nat)
  from sigchld_borders [OF this(1), of 3] sigchld_borders [OF this(2), of 0] show ?thesis
    by (auto simp: with_jobs_def take_map numeral_nat upto_rec1)
qed

end
