(* ===== verification/Shell_Main.thy ===== *)
theory Shell_Main
  imports Shell_Tokens Shell_Pipe Shell_Jobs
begin

text \<open>
  The main loop of the shell: the numbers of the commands, the history substitution and what a
  whole line does, from its characters to the processes.
\<close>

section \<open>The numbers of the commands\<close>

text \<open>The prompt's number is the number of commands recorded; the ring holds the last hundred.\<close>

definition numbered :: "int \<Rightarrow> shell \<Rightarrow> bool" where
  "numbered d sh \<longleftrightarrow> (\<exists>cs. holds (hist sh) cs \<and> num_cmds sh = int (length cs) + d)"

lemma numbered_add:
  "\<lbrakk>add_history c (hist sh) = Some h; numbered d sh\<rbrakk> \<Longrightarrow> numbered (d - 1) (sh\<lparr>hist := h\<rparr>)"
proof -
  assume a: "add_history c (hist sh) = Some h" and n: "numbered d sh"
  then obtain cs where cs: "holds (hist sh) cs" "num_cmds sh = int (length cs) + d"
    by (auto simp: numbered_def)
  from a have "length c < 100000" by (auto simp: add_history_def Let_def split: bind_splits)
  from add_history_holds [OF cs(1) this] a have "holds h (cs @ [c])" by auto
  with cs(2) show ?thesis by (auto simp: numbered_def intro!: exI [of _ "cs @ [c]"])
qed

lemma numbered_cong: "\<lbrakk>num_cmds sh' = num_cmds sh; hist sh' = hist sh\<rbrakk> \<Longrightarrow> numbered d sh' = numbered d sh"
  by (simp add: numbered_def)

lemma numbered_inc: "numbered d sh \<Longrightarrow> numbered (d + 1) (sh\<lparr>num_cmds := num_cmds sh + 1\<rparr>)"
  by (auto simp: numbered_def)

lemma tokenizer_numbered: "\<lbrakk>tokenizer a s sh = Some (a', sh'); numbered d sh\<rbrakk> \<Longrightarrow> numbered d sh'"
proof -
  assume t: "tokenizer a s sh = Some (a', sh')" and n: "numbered d sh"
  show ?thesis
  proof (cases "starts s CHR ''#''")
    case False
    with t have "num_cmds sh' = num_cmds sh" "hist sh' = hist sh"
      by (auto simp: tokenizer_def split: bind_splits)
    with n show ?thesis by (simp add: numbered_def)
  next
    case True
    with t obtain h toks where h: "add_history s (hist sh) = Some h"
      and sh': "sh' = sh\<lparr>num_cmds := num_cmds sh + 1, hist := h, num_tokens := toks\<rparr>"
      by (auto simp: tokenizer_def split: bind_splits)
    have "numbered d ((sh\<lparr>num_cmds := num_cmds sh + 1\<rparr>)\<lparr>hist := h\<rparr>)"
      using numbered_add [OF _ numbered_inc [OF n], of s h] h by simp
    then show ?thesis by (simp add: numbered_def sh')
  qed
qed

text \<open>
  Most steps of a line touch neither the numbers and the history nor the table of jobs.
\<close>

definition account :: "shell \<Rightarrow> string \<times> string \<times> string" where
  "account sh = (hostname sh, username sh, nameDir sh)"

text \<open>The pipelines started so far.\<close>

definition pipelines :: "shell \<Rightarrow> proc list list" where
  "pipelines sh = concat (map (\<lambda>a. case a of Launch procs \<Rightarrow> [procs] | _ \<Rightarrow> []) (out sh))"

definition frame :: "shell \<Rightarrow> shell \<Rightarrow> bool" where
  "frame sh sh' \<longleftrightarrow> num_cmds sh' = num_cmds sh \<and> hist sh' = hist sh
     \<and> count sh' = count sh \<and> num_jobs sh' = num_jobs sh \<and> bg_cmds sh' = bg_cmds sh
     \<and> account sh' = account sh \<and> pipelines sh' = pipelines sh"

lemma frame_refl [simp]: "frame sh sh"
  by (simp add: frame_def)

lemma frame_trans: "\<lbrakk>frame a b; frame b c\<rbrakk> \<Longrightarrow> frame a c"
  by (simp add: frame_def)

lemma pipelines_act [simp]:
  "pipelines (act (Launch procs) sh) = pipelines sh @ [procs]"
  "(\<And>procs. a \<noteq> Launch procs) \<Longrightarrow> pipelines (act a sh) = pipelines sh"
  by (auto simp: pipelines_def act_def split: action.splits)

lemma frame_act [simp]: "(\<And>procs. a \<noteq> Launch procs) \<Longrightarrow> frame sh (act a sh') = frame sh sh'"
  by (simp add: frame_def) (simp add: act_def account_def)

lemma frame_numbered: "frame sh sh' \<Longrightarrow> numbered d sh' = numbered d sh"
  by (simp add: frame_def numbered_def)

lemma substitute_frame: "substitute a sh = Some (a', sh') \<Longrightarrow> frame sh sh'"
  by (auto simp: substitute_def split: bind_splits option.splits if_splits)

lemma run_cd_frame: "run_cd os a sh = Some sh' \<Longrightarrow> frame sh sh'"
  by (auto simp: run_cd_def split: bind_splits option.splits if_splits)

lemma run_setenv_frame: "run_setenv a sh = Some sh' \<Longrightarrow> frame sh sh'"
  by (auto simp: run_setenv_def frame_def act_def account_def pipelines_def split: bind_splits option.splits if_splits)

lemma run_num_jobs_frame: "frame sh (run_num_jobs sh)"
  by (simp add: run_num_jobs_def)

lemma exec_frame:
  "exec os a bg line sh = Some sh' \<Longrightarrow> num_cmds sh' = num_cmds sh \<and> hist sh' = hist sh \<and> account sh' = account sh"
  by (auto simp: exec_def act_def Let_def frame_def account_def dest!: substitute_frame split: bind_splits if_splits)

lemma substitute_history_numbered:
  "\<lbrakk>substitute_history t a sh = Some (a', sh'); numbered d sh\<rbrakk> \<Longrightarrow> numbered (d - 1) sh'"
  by (auto simp: substitute_history_def split: bind_splits dest!: tokenizer_numbered intro: numbered_add)

text \<open>The shell that a pass of the loop leaves.\<close>

fun after :: "outcome \<Rightarrow> shell" where
  "after (Exit sh) = sh"
| "after (Continue sh) = sh"

text \<open>A command ends the shell, or is built in, or goes to \<open>exec\<close>.\<close>

lemma run_command_cases:
  assumes "run_command os a bg line sh = Some r"
  obtains (exit) "r = Exit (act (Printed [NL]) sh)"
  | (builtin) sh4 where "r = Continue sh4" "frame sh sh4"
  | (external) sh4 a2 sh5 where "r = Continue sh5" "frame sh sh4" "exec os a2 bg line sh4 = Some sh5"
proof -
  from assms obtain cmd where cmd: "cell a 0 = Some (Some cmd)"
    by (auto simp: run_command_def split: bind_splits)
  define sh1 where "sh1 = (if cmd = ''history'' then act (History (print_history (hist sh))) sh else sh)"
  have 1: "frame sh sh1" by (simp add: sh1_def)
  show ?thesis
  proof (cases "cmd = ''exit''")
    case True
    with assms cmd exit show ?thesis by (auto simp: run_command_def)
  next
    case False
    with assms cmd obtain sh2 sh3 sh4 sh5 a2 where
      2: "(if cmd = ''cd'' then run_cd os a sh1 else Some sh1) = Some sh2"
      and 3: "sh3 = (if cmd = ''num_jobs'' then run_num_jobs sh2 else sh2)"
      and 4: "(if cmd = ''setenv'' then run_setenv a sh3 else Some sh3) = Some sh4"
      and 5: "(if cmd = ''history'' \<or> cmd = ''cd'' \<or> cmd = ''num_jobs'' then Some sh4
          else exec os a2 bg line sh4) = Some sh5"
      and r: "r = Continue sh5"
      unfolding run_command_def sh1_def Let_def by (auto split: bind_splits)
    have "frame sh sh2" using 1 2 run_cd_frame [of os a sh1 sh2] by (auto split: if_splits intro: frame_trans)
    then have "frame sh sh3" using 3 run_num_jobs_frame [of sh2] by (auto intro: frame_trans)
    then have "frame sh sh4" using 4 run_setenv_frame [of a sh3 sh4] by (auto split: if_splits intro: frame_trans)
    with 5 r builtin external show ?thesis by (auto split: if_splits)
  qed
qed

lemma run_command_frame:
  "run_command os a bg line sh = Some r \<Longrightarrow>
    num_cmds (after r) = num_cmds sh \<and> hist (after r) = hist sh \<and> account (after r) = account sh"
  by (erule run_command_cases) (auto simp: frame_def act_def account_def dest!: exec_frame)

lemma record_line_numbered:
  "\<lbrakk>record_line t line a sh = Some (a', sh'); numbered d sh\<rbrakk> \<Longrightarrow> numbered (d - 1) sh'"
  by (auto simp: record_line_def substitute_history_numbered split: if_splits bind_splits
      intro: numbered_add)

lemma shell_line_numbered:
  assumes "shell_line os line sh = Some r" "numbered 0 sh"
  shows "numbered 0 (after r)"
proof -
  from assms(1) obtain a sh1 where tok: "tokenizer [] line sh = Some (a, sh1)"
    by (auto simp: shell_line_def split: bind_splits)
  with assms(2) have n1: "numbered 0 sh1" by (blast intro: tokenizer_numbered)
  show ?thesis
  proof (cases "cell a 0 = Some None")
    case True
    with assms(1) tok n1 show ?thesis by (auto simp: shell_line_def)
  next
    case False
    define sh2 where "sh2 = sh1\<lparr>num_cmds := num_cmds sh1 + 1\<rparr>"
    have n2: "numbered 1 sh2" using numbered_inc [OF n1] by (simp add: sh2_def)
    from assms(1) tok False obtain t a1 a2 sh3 bg where
      sub: "record_line t line a1 sh2 = Some (a2, sh3)"
      and run: "run_command os a2 bg line sh3 = Some r"
      unfolding shell_line_def sh2_def Let_def by (auto split: bind_splits)
    have "numbered 0 sh3" using record_line_numbered [OF sub n2] by simp
    with run_command_frame [OF run] show ?thesis by (simp add: numbered_def)
  qed
qed

section \<open>The history substitution\<close>

text \<open>A command from the history is run again when it fits the buffer of 8 bytes.\<close>

definition rerun :: "tok_array \<Rightarrow> string \<Rightarrow> shell \<Rightarrow> (tok_array \<times> shell) option" where
  "rerun a c sh =
     (if length c < 8
      then do {
        (a1, sh1) \<leftarrow> tokenizer a c sh;
        h \<leftarrow> add_history c (hist sh1);
        Some (a1, sh1\<lparr>hist := h\<rparr>)
      }
      else None)"

lemma strcpy_into_8: "(strcpy_into 8 c \<bind> f) = (if length c < 8 then f c else None)"
  by (simp add: strcpy_into_def)

text \<open>
  C30: The history designators, when the commands so far are \<open>cs\<close>: \<open>!!\<close> runs the last one again,
  \<open>!n\<close> the one with number \<open>n\<close> among the last hundred, \<open>!p\<close> the most recent of them that starts
  with \<open>p\<close>; each works for commands of fewer than 8 characters only and writes past the buffer
  for longer ones, and a prefix that does not occur reads a buffer that was never written.
\<close>

theorem history_designators:
  assumes h: "holds (hist sh) cs" and n: "num_cmds sh = int (length cs) + 1"
  shows "(cs \<noteq> [] \<longrightarrow> substitute_history (''!!'' @ x) a sh = rerun a (List.last cs) sh)
    \<and> (length cs - 100 \<le> k \<and> k < length cs \<and> k < 2147483648 \<longrightarrow>
        substitute_history (''!'' @ show_nat k) a sh = rerun a (cs ! k) sh)
    \<and> (p \<noteq> [] \<and> hd p \<noteq> CHR ''!'' \<and> \<not> isdigit (hd p) \<longrightarrow>
        substitute_history (''!'' @ p) a sh =
          (case find (\<lambda>m. has_prefix (cs ! m) p) (rev [length cs - 100..<length cs]) of
             Some m \<Rightarrow> rerun a (cs ! m) sh | None \<Rightarrow> None))"
proof (intro conjI impI)
  assume "cs \<noteq> []"
  then have "get_cmd (num_cmds sh - 2) (hist sh) = Some (List.last cs)"
    using get_cmd_holds [OF h, of "length cs - 1"] n by (cases cs) (simp_all add: last_conv_nth)
  then show "substitute_history (''!!'' @ x) a sh = rerun a (List.last cs) sh"
    by (simp add: substitute_history_def starts_def strcpy_into_8 rerun_def)
next
  assume k: "length cs - 100 \<le> k \<and> k < length cs \<and> k < 2147483648"
  obtain d ds where d: "show_nat k = d # ds" by (cases "show_nat k") auto
  then have "isdigit d" using show_nat_digits [of k] by simp
  moreover from this have "d \<noteq> CHR ''!''" by (auto simp: isdigit_def)
  moreover have "atoi_int (d # ds) = Some (int k)" using k d by (metis atoi_int_show_nat)
  ultimately show "substitute_history (''!'' @ show_nat k) a sh = rerun a (cs ! k) sh"
    using k get_cmd_holds [OF h, of k]
    by (simp add: d substitute_history_def starts_def strcpy_into_8 rerun_def)
next
  assume p: "p \<noteq> [] \<and> hd p \<noteq> CHR ''!'' \<and> \<not> isdigit (hd p)"
  then obtain c r where c: "p = c # r" "c \<noteq> CHR ''!''" "\<not> isdigit c" by (cases p) auto
  have "find_cmd p (hist sh) = (case find (\<lambda>m. has_prefix (cs ! m) p) (rev [length cs - 100..<length cs]) of
      Some m \<Rightarrow> map_option Some (strcpy_into 9 (cs ! m)) | None \<Rightarrow> Some None)"
    using find_cmd_loop_holds [OF h, of "length cs" p] h by (simp add: find_cmd_def holds_def)
  then show "substitute_history (''!'' @ p) a sh =
      (case find (\<lambda>m. has_prefix (cs ! m) p) (rev [length cs - 100..<length cs]) of
         Some m \<Rightarrow> rerun a (cs ! m) sh | None \<Rightarrow> None)"
    using c by (auto simp: substitute_history_def starts_def strcpy_into_8 rerun_def
        strcpy_into_def split: option.split)
qed

section \<open>A whole line\<close>

definition builtins :: "string list" where
  "builtins = [''exit'', ''history'', ''cd'', ''num_jobs'', ''setenv'']"

lemma strip_quote_none:
  "\<lbrakk>cell a 1 = Some x; \<forall>t. x = Some t \<longrightarrow> \<not> starts t q\<rbrakk> \<Longrightarrow> strip_quote q a = Some a"
  by (cases x) (auto simp: strip_quote_def)

lemma run_command_external:
  assumes "cell a 0 = Some (Some cmd)" "cmd \<notin> set builtins"
    and "cell a 1 = Some x" "\<forall>t. x = Some t \<longrightarrow> set t \<inter> quotes = {}"
  shows "run_command os a bg line sh = map_option Continue (exec os a bg line sh)"
proof -
  have "\<not> starts t q" if "x = Some t" "q \<in> quotes" for t q
    using assms(4) that by (cases t) (auto simp: starts_def)
  then have "strip_quote CHR 0x22 a = Some a" "strip_quote CHR 0x27 a = Some a"
    using assms(3) by (auto intro!: strip_quote_none simp: quotes_def)
  moreover have "cmd \<noteq> ''exit''" "cmd \<noteq> ''history''" "cmd \<noteq> ''cd''" "cmd \<noteq> ''num_jobs''" "cmd \<noteq> ''setenv''"
    using assms(2) by (auto simp: builtins_def)
  ultimately show ?thesis
    using assms(1) by (cases "exec os a bg line sh") (simp_all add: run_command_def Let_def)
qed

text \<open>Lines without quotes, comments and history designators.\<close>

definition simple_line :: "string \<Rightarrow> bool" where
  "simple_line line \<longleftrightarrow> NUL \<notin> set line \<and> set line \<inter> quotes = {} \<and> \<not> starts line CHR ''#''
     \<and> length line < 5000 \<and> length (words_of WS line) < 5000 \<and> words_of WS line \<noteq> []
     \<and> (\<forall>t \<in> set (words_of WS line). \<not> starts t CHR ''#'')
     \<and> \<not> starts (hd (words_of WS line)) CHR ''!''"

lemma simple_tokens:
  assumes "simple_line line"
  shows "tokenizer [] line sh = Some (map Some (words_of WS line) @ [None], sh\<lparr>num_tokens := length (words_of WS line)\<rparr>)"
proof -
  have e: "takeWhile (\<lambda>t. \<not> starts t CHR ''#'') (words_of WS line) = words_of WS line"
    unfolding takeWhile_eq_all_conv using assms by (simp add: simple_line_def)
  have "NUL \<notin> set line" "set line \<inter> quotes = {}" "\<not> starts line CHR ''#''" "length (words_of WS line) < 5000"
    using assms by (simp_all add: simple_line_def)
  from tokenizer_words [OF this, of "[]" sh, unfolded e] show ?thesis by (simp add: Let_def)
qed

lemma simple_recorded:
  assumes s: "simple_line line" and w: "words_of WS line = toks @ (if bg then [''&''] else [])"
    and t: "toks \<noteq> []" "\<not> bg \<longrightarrow> List.last toks \<noteq> ''&''"
    and h: "holds (hist sh) cs"
  defines "arr \<equiv> map Some toks @ None # (if bg then [None] else [])"
  shows "\<exists>h'. holds h' (cs @ [line]) \<and> shell_line os line sh = run_command os arr bg line
    (sh\<lparr>num_tokens := length (words_of WS line), num_cmds := num_cmds sh + 1, hist := h'\<rparr>)"
proof -
  have "length line < 100000" using s by (simp add: simple_line_def)
  from add_history_holds [OF h this] obtain h' where h': "add_history line (hist sh) = Some h'"
    "holds h' (cs @ [line])" by blast
  obtain u us where u: "toks = u # us" using t(1) by (cases toks) auto
  have nb: "\<not> starts u CHR ''!''" using s w u by (simp add: simple_line_def)
  define a where "a = map Some (words_of WS line) @ [None]"
  define m where "m = length (words_of WS line)"
  have c0: "cell a 0 = Some (Some u)" by (simp add: a_def w u cell_def)
  have lt: "cell a (m - 1) = Some (Some (if bg then ''&'' else List.last toks))"
    using t(1) by (simp add: a_def m_def w cell_def nth_append last_conv_nth)
  have arr: "(if bg then a[m - 1 := None] else a) = arr"
    using t(1) by (simp add: arr_def a_def m_def w list_update_append)
  have "cell arr 0 = Some (Some u)" by (simp add: arr_def u cell_def)
  then have "shell_line os line sh = run_command os arr bg line
    (sh\<lparr>num_tokens := m, num_cmds := num_cmds sh + 1, hist := h'\<rparr>)"
    using simple_tokens [OF s, of sh] c0 lt arr t(2) nb h'(1)
    by (cases bg) (simp_all add: shell_line_def record_line_def flip: a_def m_def)
  with h'(2) show ?thesis by (auto simp: m_def)
qed

lemma words_no_quotes: "\<lbrakk>simple_line line; t \<in> set (words_of WS line)\<rbrakk> \<Longrightarrow> set t \<inter> quotes = {}"
  using words_of_wf [of t WS line] by (auto simp: simple_line_def)

text \<open>
  C3: What the shell does with a line that is a pipeline of external commands, with or without
  an output file and a final \<open>&\<close>: the line is recorded and counted, one process per command is
  started with each reading the pipe that its predecessor writes (one whose program cannot be
  executed or whose output cannot be redirected returns into the main loop), and then the shell waits for
  the first process or, with \<open>&\<close>, enters it with its line as the last of the background jobs.
\<close>

theorem shell_line_runs_pipeline:
  assumes s: "simple_line line"
    and w: "words_of WS line = pipeline_toks ss outf @ (if bg then [''&''] else [])"
    and g: "ss \<noteq> []" "\<forall>s \<in> set ss. good_seg s" "\<forall>f. outf = Some f \<longrightarrow> plain f \<and> open_ok os f"
    and v: "\<forall>t \<in> set (take 2 (pipeline_toks ss outf)). \<not> starts t CHR ''$''"
    and b: "hd (pipeline_toks ss outf) \<notin> set builtins" "\<not> bg \<longrightarrow> List.last (pipeline_toks ss outf) \<noteq> ''&''"
    and o: "\<forall>i. pipe_ok os i \<and> fork_ok os i" "0 < fork_pid os"
    and j: "job_ok sh" "bg \<longrightarrow> count sh < 10 \<and> fork_pid os \<notin> fst ` set (jobs_of sh)"
    and h: "holds (hist sh) cs"
  shows "\<exists>sh'. shell_line os line sh = Some (Continue sh') \<and> holds (hist sh') (cs @ [line])
    \<and> num_cmds sh' = num_cmds sh + 1
    \<and> out sh' = out sh @ Launch (chain os 0 Stdin ss outf) # (if bg then [] else [Wait (fork_pid os)])
    \<and> jobs_of sh' = jobs_of sh @ (if bg then [(fork_pid os, line)] else []) \<and> job_ok sh'"
proof -
  define toks where "toks = pipeline_toks ss outf"
  define arr where "arr = map Some toks @ None # (if bg then [None] else [])"
  have t: "toks \<noteq> []" using pipeline_toks_ne g(1,2) by (simp add: toks_def)
  obtain h' where h': "holds h' (cs @ [line])" and run: "shell_line os line sh = run_command os arr bg line
      (sh\<lparr>num_tokens := length (words_of WS line), num_cmds := num_cmds sh + 1, hist := h'\<rparr>)"
    using simple_recorded [OF s w [folded toks_def] t _ h, of os] b(2) unfolding arr_def toks_def by blast
  define sh1 where "sh1 = sh\<lparr>num_tokens := length (words_of WS line), num_cmds := num_cmds sh + 1, hist := h'\<rparr>"
  have c0: "cell arr 0 = Some (Some (hd toks))" using t by (cases toks) (simp_all add: arr_def cell_def)
  obtain x where c1: "cell arr 1 = Some x" "\<forall>t. x = Some t \<longrightarrow> t \<in> set toks"
    using t by (cases toks; cases "tl toks") (auto simp: arr_def cell_def)
  have "\<forall>t. x = Some t \<longrightarrow> set t \<inter> quotes = {}" using c1(2) w words_no_quotes [OF s] by (auto simp: toks_def)
  then have "shell_line os line sh = map_option Continue (exec os arr bg line sh1)"
    using run_command_external [OF c0 _ c1(1)] run b(1) by (simp add: sh1_def toks_def)
  moreover have "exec os arr bg line sh1 = (let sh' = act (Launch (chain os 0 Stdin ss outf)) sh1 in
     if \<not> bg then Some (act (Wait (fork_pid os)) sh')
     else if count sh1 < 10 \<and> length line < 5000
     then Some (sh'\<lparr>num_jobs := (num_jobs sh1)[nat (count sh1) := fork_pid os],
       bg_cmds := (bg_cmds sh1)[nat (count sh1) := line], count := count sh1 + 1\<rparr>)
     else None)"
    unfolding arr_def toks_def using g v o j(1)
    by (intro exec_pipeline) (auto simp: sh1_def job_ok_def)
  moreover have "length line < 5000" using s by (simp add: simple_line_def)
  moreover have "\<lbrakk>bg\<rbrakk> \<Longrightarrow> job_ok (sh\<lparr>num_jobs := (num_jobs sh)[nat (count sh) := fork_pid os],
       bg_cmds := (bg_cmds sh)[nat (count sh) := line], count := count sh + 1\<rparr>)
     \<and> jobs_of (sh\<lparr>num_jobs := (num_jobs sh)[nat (count sh) := fork_pid os],
       bg_cmds := (bg_cmds sh)[nat (count sh) := line], count := count sh + 1\<rparr>) = jobs_of sh @ [(fork_pid os, line)]"
    using j o(2) by (intro job_added) auto
  ultimately show ?thesis
    using h' j by (cases bg) (auto simp: sh1_def act_def Let_def job_ok_def jobs_of_def)
qed

text \<open>An operating system where everything works except one program.\<close>

definition good_os :: os where
  "good_os = \<lparr>exec_ok = (\<lambda>p. p \<noteq> ''nosuch''), open_ok = (\<lambda>_. True), dup2_ok = True, pipe_ok = (\<lambda>_. True),
     fork_ok = (\<lambda>_. True), fork_pid = 42, in_wait = [], chdir_ok = (\<lambda>_. True)\<rparr>"

definition demo_line :: string where
  "demo_line = ''cat in | nosuch | wc > f &'' @ [CHR 0x0A]"

lemma demo_words: "words_of WS demo_line = [''cat'', ''in'', ''|'', ''nosuch'', ''|'', ''wc'', ''>'', ''f'', ''&'']"
  by (simp add: demo_line_def WS_def words_of.simps)

lemma demo_simple: "simple_line demo_line"
  unfolding simple_line_def demo_words by (simp add: starts_def demo_line_def quotes_def)

lemma job_ok_init: "job_ok (shell_init env) \<and> jobs_of (shell_init env) = [] \<and> count (shell_init env) = 0"
  by (simp add: job_ok_def jobs_of_def shell_init_def)

lemma shell_line_runs_pipeline_witness:
  "\<exists>sh'. shell_line good_os demo_line (shell_init Map.empty) = Some (Continue sh')
    \<and> out sh' = [Launch [Runs [''cat'', ''in''] Stdin (To_pipe 0), Returns (From_pipe 0) (To_pipe 1),
         Runs [''wc''] (From_pipe 1) (To_file ''f'')]]
    \<and> jobs_of sh' = [(42, demo_line)] \<and> holds (hist sh') [demo_line]"
proof -
  have "hist (shell_init Map.empty) = hist_init" "out (shell_init Map.empty) = []"
    by (simp_all add: shell_init_def)
  with shell_line_runs_pipeline [of demo_line "[[''cat'', ''in''], [''nosuch''], [''wc'']]" "Some ''f''" True
      good_os "shell_init Map.empty" "[]"] demo_simple demo_words job_ok_init [of Map.empty] holds_init
  show ?thesis
    by (auto simp: good_seg_def plain_def starts_def good_os_def started_def builtins_def)
qed

lemma history_designators_witness:
  "\<exists>h. add_all [''ls'', ''a-long-command'', ''pwd''] hist_init = Some h
    \<and> (let sh = (shell_init Map.empty)\<lparr>hist := h, num_cmds := 4\<rparr> in
         substitute_history ''!!'' [] sh = rerun [] ''pwd'' sh
       \<and> substitute_history ''!0'' [] sh = rerun [] ''ls'' sh
       \<and> substitute_history ''!a-'' [] sh = None)"
proof -
  let ?cs = "[''ls'', ''a-long-command'', ''pwd'']"
  obtain h where h: "add_all ?cs hist_init = Some h" "holds h ?cs"
    using add_all_holds [OF holds_init, of ?cs] by auto
  have z: "show_nat 0 = ''0''" by (simp add: show_nat.simps digit_def)
  from h(2) history_designators [of "(shell_init Map.empty)\<lparr>hist := h, num_cmds := 4\<rparr>" ?cs "[]" "[]" 0 "''a-''"]
  have "let sh = (shell_init Map.empty)\<lparr>hist := h, num_cmds := 4\<rparr> in
         substitute_history ''!!'' [] sh = rerun [] ''pwd'' sh
       \<and> substitute_history ''!0'' [] sh = rerun [] ''ls'' sh
       \<and> substitute_history ''!a-'' [] sh = None"
    by (simp add: z isdigit_def has_prefix_def rerun_def Let_def)
  with h(1) show ?thesis by blast
qed

text \<open>
  A line with nothing but an ampersand dereferences NULL: the only token is taken off the
  array before the first one is looked at. An empty line does nothing.
\<close>

theorem lone_ampersand:
  assumes "NUL \<notin> set line" "set line \<inter> quotes = {}" "\<not> starts line CHR ''#''"
  shows "(words_of WS line = [''&''] \<longrightarrow> shell_line os line sh = None)
    \<and> (words_of WS line = [] \<longrightarrow> shell_line os line sh = Some (Continue (sh\<lparr>num_tokens := 0\<rparr>)))"
proof (intro conjI impI)
  assume w: "words_of WS line = [''&'']"
  then have "tokenizer [] line sh = Some ([Some ''&'', None], sh\<lparr>num_tokens := 1\<rparr>)"
    using tokenizer_words [OF assms, of "[]" sh] by (simp add: starts_def Let_def)
  then show "shell_line os line sh = None" by (simp add: shell_line_def cell_def)
next
  assume w: "words_of WS line = []"
  then have "tokenizer [] line sh = Some ([None], sh\<lparr>num_tokens := 0\<rparr>)"
    using tokenizer_words [OF assms, of "[]" sh] by (simp add: Let_def)
  then show "shell_line os line sh = Some (Continue (sh\<lparr>num_tokens := 0\<rparr>))"
    by (simp add: shell_line_def cell_def)
qed

lemma lone_ampersand_witness:
  "shell_line good_os (''&'' @ [CHR 0x0A]) (shell_init Map.empty) = None"
proof -
  have "words_of WS (''&'' @ [CHR 0x0A]) = [''&'']" by (simp add: WS_def words_of.simps)
  with lone_ampersand [of "''&'' @ [CHR 0x0A]" good_os "shell_init Map.empty"] show ?thesis by (simp add: quotes_def starts_def)
qed

end
