(* ===== verification/Shell_Session.thy ===== *)
theory Shell_Session
  imports Shell_Main
begin

text \<open>
  A session of the shell: the loop of \<open>main\<close> over the lines that come, the children that end in
  between and the interrupts, with the prompt. The numbers of the prompt and the table of
  background jobs are followed through every interleaving of these.
\<close>

section \<open>The numbers through a session\<close>

lemma shift_jobs_kept:
  "shift_jobs i sh = Some sh' \<Longrightarrow> num_cmds sh' = num_cmds sh \<and> hist sh' = hist sh
    \<and> account sh' = account sh"
proof (induction i sh rule: shift_jobs.induct)
  case (1 i sh)
  from "1.prems" show ?case by (subst (asm) shift_jobs.simps) (auto split: if_splits dest: "1.IH" simp: account_def)
qed

lemma sigchld_kept:
  "sigchld_handler pid sh = Some sh' \<Longrightarrow> num_cmds sh' = num_cmds sh \<and> hist sh' = hist sh \<and> account sh' = account sh"
  by (auto simp: sigchld_handler_def act_def Let_def account_def split: if_splits option.splits bind_splits
      dest!: shift_jobs_kept)

lemma deliver_kept:
  "deliver pids sh = Some sh' \<Longrightarrow> num_cmds sh' = num_cmds sh \<and> hist sh' = hist sh \<and> account sh' = account sh"
proof (induction pids arbitrary: sh)
  case (Cons pid pids)
  then obtain s where "sigchld_handler pid sh = Some s" "deliver pids s = Some sh'" by (auto split: bind_splits)
  with Cons.IH [of s] sigchld_kept [of pid sh s] show ?case by simp
qed simp

lemma prompted_frame: "prompted tty sh = Some sh' \<Longrightarrow> frame sh sh'"
  by (auto simp: prompted_def print_prompt_def split: option.splits bind_splits if_splits)

lemma prompted_numbered: "\<lbrakk>prompted tty sh = Some sh'; numbered d sh\<rbrakk> \<Longrightarrow> numbered d sh'"
  using frame_numbered prompted_frame by blast

lemma get_info_ok:
  "get_info host user sh = Some sh' \<Longrightarrow> num_cmds sh' = num_cmds sh \<and> hist sh' = hist sh
    \<and> jobs_of sh' = jobs_of sh \<and> job_ok sh' = job_ok sh
    \<and> (\<exists>u. user = Some u \<and> account sh' = (case host of Some h \<Rightarrow> h | None \<Rightarrow> ''Unknown'', u, ''/home/'' @ u))"
  by (auto simp: get_info_def Let_def strcpy_into_def account_def jobs_of_def job_ok_def split: bind_splits if_splits)

text \<open>The account is read once, before the loop.\<close>

lemma tokenizer_account: "tokenizer a s sh = Some (a', sh') \<Longrightarrow> account sh' = account sh"
  by (auto simp: tokenizer_def account_def split: bind_splits if_splits)

lemma account_hist [simp]: "account (sh\<lparr>hist := h\<rparr>) = account sh" "account (sh\<lparr>num_cmds := n\<rparr>) = account sh"
  by (simp_all add: account_def)

lemma record_line_account: "record_line t l a sh = Some (a', sh') \<Longrightarrow> account sh' = account sh"
  by (auto simp: record_line_def substitute_history_def split: bind_splits if_splits dest!: tokenizer_account)

lemma shell_line_account: "shell_line os l sh = Some r \<Longrightarrow> account (after r) = account sh"
  by (auto simp: shell_line_def Let_def split: bind_splits if_splits
      dest!: tokenizer_account record_line_account run_command_frame)

lemma shell_loop_account: "shell_loop tty ins sh = Some sh' \<Longrightarrow> account sh' = account sh"
proof (induction tty ins sh arbitrary: sh' rule: shell_loop.induct)
  case (2 tty os l ins sh)
  then obtain r where r: "shell_line os l sh = Some r" by (auto split: bind_splits)
  show ?case
  proof (cases r)
    case (Continue s)
    with "2.prems" r obtain s1 s2 where s1: "deliver (in_wait os) s = Some s1" "prompted tty s1 = Some s2"
      "shell_loop tty ins s2 = Some sh'" by (auto split: bind_splits)
    with "2.IH" [OF r Continue s1] shell_line_account [OF r] deliver_kept [OF s1(1)] prompted_frame [OF s1(2)] Continue
    show ?thesis by (simp add: frame_def)
  qed (use r "2.prems" shell_line_account [OF r] in simp)
next
  case (3 tty pid ins sh)
  then show ?case by (auto split: bind_splits dest!: sigchld_kept)
qed (simp_all add: sigint_handler_def)

lemma shell_loop_numbered:
  "\<lbrakk>shell_loop tty ins sh = Some sh'; numbered 0 sh\<rbrakk> \<Longrightarrow> numbered 0 sh'"
proof (induction tty ins sh arbitrary: sh' rule: shell_loop.induct)
  case (2 tty os l ins sh)
  then obtain r where r: "shell_line os l sh = Some r" by (auto split: bind_splits)
  have n: "numbered 0 (after r)" by (rule shell_line_numbered [OF r "2.prems"(2)])
  show ?case
  proof (cases r)
    case (Continue s)
    with "2.prems"(1) r obtain s1 s2 where s1: "deliver (in_wait os) s = Some s1" "prompted tty s1 = Some s2"
      "shell_loop tty ins s2 = Some sh'" by (auto split: bind_splits)
    have "numbered 0 s1" using n deliver_kept [OF s1(1)] Continue by (simp add: numbered_def)
    with s1(2) have "numbered 0 s2" by (auto dest: prompted_numbered)
    with "2.IH" [OF r Continue s1] show ?thesis .
  qed (use n r "2.prems"(1) in simp)
next
  case (3 tty pid ins sh)
  then obtain s where s: "sigchld_handler pid sh = Some s" "shell_loop tty ins s = Some sh'"
    by (auto split: bind_splits)
  with "3.prems"(2) sigchld_kept [OF s(1)] have "numbered 0 s" by (simp add: numbered_def)
  with "3.IH" [OF s] show ?case .
qed (simp_all add: sigint_handler_def)

section \<open>The table of jobs through a session\<close>

definition ends_amp :: "string \<Rightarrow> bool" where
  "ends_amp l \<longleftrightarrow> (case tokenizer_loop (l @ [NUL], Some 0) [] of
     Some toks \<Rightarrow> toks \<noteq> [] \<and> List.last toks = ''&'' | None \<Rightarrow> False)"

text \<open>
  What the table is supposed to be, from what happened: the \<open>k\<close>th input, when it is a line that ends
  in an ampersand and that launched processes, enters the first of them with the line; the end of a
  process, while the shell is in \<open>getline\<close> or while a line runs, takes it out; nothing else
  changes the table.
\<close>

fun table_of :: "(nat \<Rightarrow> bool) \<Rightarrow> nat \<Rightarrow> input list \<Rightarrow> (int \<times> string) list \<Rightarrow> (int \<times> string) list" where
  "table_of launched k [] js = js"
| "table_of launched k (Line os l # ins) js = table_of launched (k + 1) ins
     (filter (\<lambda>(p, _). p \<notin> set (in_wait os))
       (if launched k \<and> ends_amp l then js @ [(fork_pid os, l)] else js))"
| "table_of launched k (Child pid # ins) js = table_of launched (k + 1) ins (filter (\<lambda>(p, _). p \<noteq> pid) js)"
| "table_of launched k (Interrupt # ins) js = table_of launched (k + 1) ins js"

text \<open>Whether the \<open>k\<close>th input of a session started a pipeline.\<close>

definition launched_by :: "(input list \<Rightarrow> shell option) \<Rightarrow> input list \<Rightarrow> nat \<Rightarrow> bool" where
  "launched_by session ins k \<longleftrightarrow> (\<exists>s1 s2. session (take k ins) = Some s1 \<and> session (take (k + 1) ins) = Some s2
     \<and> pipelines s2 \<noteq> pipelines s1)"

text \<open>
  What the kernel promises: a new process has a positive number that is not the number of a
  job whose end was not reported yet. The handler finds a process that ended, or none at all
  (-1); that it finds only running ones (0) is left out.
\<close>

fun pids_ok :: "int set \<Rightarrow> input list \<Rightarrow> bool" where
  "pids_ok P [] = True"
| "pids_ok P (Line os l # ins) =
     (0 \<notin> set (in_wait os) \<and> (fork_pid os = -1 \<or> 0 < fork_pid os \<and> fork_pid os \<notin> P)
      \<and> pids_ok ((if ends_amp l then insert (fork_pid os) P else P) - set (in_wait os)) ins)"
| "pids_ok P (Child pid # ins) = (pid \<noteq> 0 \<and> pids_ok (P - {pid}) ins)"
| "pids_ok P (Interrupt # ins) = pids_ok P ins"

lemma frame_jobs: "frame sh sh' \<Longrightarrow> jobs_of sh' = jobs_of sh \<and> job_ok sh' = job_ok sh \<and> pipelines sh' = pipelines sh"
  by (simp add: frame_def jobs_of_def job_ok_def)

lemma tokenizer_jobs:
  "tokenizer a s sh = Some (a', sh') \<Longrightarrow> jobs_of sh' = jobs_of sh \<and> job_ok sh' = job_ok sh \<and> pipelines sh' = pipelines sh"
  by (auto simp: tokenizer_def jobs_of_def job_ok_def pipelines_def split: bind_splits if_splits)

lemma jobs_hist [simp]:
  "jobs_of (sh\<lparr>hist := h\<rparr>) = jobs_of sh" "job_ok (sh\<lparr>hist := h\<rparr>) = job_ok sh" "pipelines (sh\<lparr>hist := h\<rparr>) = pipelines sh"
  by (simp_all add: jobs_of_def job_ok_def pipelines_def)

lemma record_line_jobs:
  "record_line t l a sh = Some (a', sh') \<Longrightarrow> jobs_of sh' = jobs_of sh \<and> job_ok sh' = job_ok sh \<and> pipelines sh' = pipelines sh"
  by (auto simp: record_line_def substitute_history_def split: bind_splits if_splits dest!: tokenizer_jobs)

text \<open>A command enters one job exactly when it started a pipeline in the background.\<close>

definition enters :: "int \<Rightarrow> string \<Rightarrow> bool \<Rightarrow> shell \<Rightarrow> shell \<Rightarrow> bool" where
  "enters pid l bg sh sh' \<longleftrightarrow> job_ok sh' \<and>
     (if pipelines sh' \<noteq> pipelines sh \<and> bg then pid \<noteq> -1 \<and> jobs_of sh' = jobs_of sh @ [(pid, l)]
      else jobs_of sh' = jobs_of sh)"

lemma enters_none: "\<lbrakk>job_ok sh; frame sh sh'\<rbrakk> \<Longrightarrow> enters pid l bg sh sh'"
  by (simp add: enters_def frame_jobs)

lemma exec_jobs:
  assumes e: "exec os a bg l sh = Some sh'" and ok: "job_ok sh"
    and p: "fork_pid os \<noteq> -1 \<longrightarrow> 0 < fork_pid os \<and> fork_pid os \<notin> fst ` set (jobs_of sh)"
  shows "enters (fork_pid os) l bg sh sh'"
proof -
  from e obtain a1 sh1 cs where 1: "substitute a sh = Some (a1, sh1)" "parse_cmds a1 = Some cs"
    by (auto simp: exec_def split: bind_splits)
  have f: "frame sh sh1" by (rule substitute_frame [OF 1(1)])
  consider "cs = [] \<or> fork_pid os = -1" | "cs \<noteq> []" "fork_pid os \<noteq> -1" "\<not> bg" | "cs \<noteq> []" "fork_pid os \<noteq> -1" bg by blast
  then show ?thesis
  proof cases
    case 1
    with e \<open>substitute a sh = _\<close> \<open>parse_cmds a1 = _\<close> f have "frame sh sh'"
      by (auto simp: exec_def Let_def split: if_splits bind_splits)
    with ok show ?thesis by (rule enters_none)
  next
    case 2
    with e 1 obtain procs where "sh' = act (Wait (fork_pid os)) (act (Launch procs) sh1)"
      by (auto simp: exec_def Let_def split: if_splits bind_splits)
    then have "jobs_of sh' = jobs_of sh1" "job_ok sh' = job_ok sh1" by (simp_all add: act_def jobs_of_def job_ok_def)
    with f 2(3) ok show ?thesis by (simp add: enters_def frame_jobs)
  next
    case 3
    with e 1 obtain procs where c: "0 \<le> count sh1" "count sh1 < 10" "length l < 5000"
      and sh': "sh' = (act (Launch procs) sh1)\<lparr>num_jobs := (num_jobs sh1)[nat (count sh1) := fork_pid os],
        bg_cmds := (bg_cmds sh1)[nat (count sh1) := l], count := count sh1 + 1\<rparr>"
      by (auto simp: exec_def Let_def strcpy_into_def act_def split: if_splits bind_splits)
    define sh2 where "sh2 = act (Launch procs) sh1"
    have ok2: "job_ok sh2" "jobs_of sh2 = jobs_of sh" "count sh2 = count sh1"
      using ok frame_jobs [OF f] by (auto simp: sh2_def act_def job_ok_def jobs_of_def)
    have "pipelines sh' = pipelines sh @ [procs]"
      using frame_jobs [OF f] by (simp add: sh' pipelines_def act_def)
    with job_added [of sh2 "fork_pid os" l] ok2 c p 3 show ?thesis
      by (simp add: enters_def sh' sh2_def act_def)
  qed
qed

lemma run_command_jobs:
  assumes r: "run_command os a bg l sh = Some r" and ok: "job_ok sh"
    and p: "fork_pid os \<noteq> -1 \<longrightarrow> 0 < fork_pid os \<and> fork_pid os \<notin> fst ` set (jobs_of sh)"
  shows "enters (fork_pid os) l bg sh (after r)"
  using r
proof (cases rule: run_command_cases)
  case (external sh4 a2 sh5)
  with frame_jobs [of sh sh4] exec_jobs [OF external(3)] ok p show ?thesis by (simp add: enters_def)
qed (use ok in \<open>simp_all add: enters_none\<close>)

lemma tokenizer_background:
  assumes t: "tokenizer a l sh = Some (a', sh')" and c: "cell a' 0 \<noteq> Some None"
    and b: "cell a' (num_tokens sh' - 1) = Some lt"
  shows "(lt = Some ''&'') = ends_amp l"
proof -
  from t obtain toks where toks: "tokenizer_loop (l @ [NUL], Some 0) [] = Some toks"
    and a': "a' = map Some toks @ [None] @ drop (length toks + 1) a" and n: "num_tokens sh' = length toks"
    by (auto simp: tokenizer_def split: bind_splits)
  from c a' have ne: "toks \<noteq> []" by (auto simp: cell_def)
  then have "lt = Some (List.last toks)"
    using b by (cases toks rule: rev_cases) (auto simp: cell_def a' n nth_append split: if_splits)
  with ne toks show ?thesis by (simp add: ends_amp_def)
qed

lemma shell_line_jobs:
  assumes l: "shell_line os l sh = Some r" and ok: "job_ok sh"
    and p: "fork_pid os \<noteq> -1 \<longrightarrow> 0 < fork_pid os \<and> fork_pid os \<notin> fst ` set (jobs_of sh)"
  shows "enters (fork_pid os) l (ends_amp l) sh (after r)"
proof -
  from l obtain a sh1 where tok: "tokenizer [] l sh = Some (a, sh1)"
    by (auto simp: shell_line_def split: bind_splits)
  have j1: "jobs_of sh1 = jobs_of sh" "job_ok sh1" "pipelines sh1 = pipelines sh" using tokenizer_jobs [OF tok] ok by simp_all
  show ?thesis
  proof (cases "cell a 0 = Some None")
    case True
    with l tok j1 show ?thesis by (auto simp: shell_line_def enters_def)
  next
    case False
    define sh2 where "sh2 = sh1\<lparr>num_cmds := num_cmds sh1 + 1\<rparr>"
    have j2: "jobs_of sh2 = jobs_of sh" "job_ok sh2" "pipelines sh2 = pipelines sh"
      using j1 by (simp_all add: sh2_def jobs_of_def job_ok_def pipelines_def)
    from l tok False obtain lt t a1 a2 sh3 where
      lt: "cell a (num_tokens sh1 - 1) = Some lt"
      and sub: "record_line t l a1 sh2 = Some (a2, sh3)"
      and run: "run_command os a2 (lt = Some ''&'') l sh3 = Some r"
      unfolding shell_line_def sh2_def Let_def by (auto split: bind_splits)
    have "jobs_of sh3 = jobs_of sh" "job_ok sh3" "pipelines sh3 = pipelines sh"
      using record_line_jobs [OF sub] j2 by simp_all
    with run_command_jobs [OF run] p tokenizer_background [OF tok False lt] show ?thesis
      by (simp add: enters_def)
  qed
qed

text \<open>The handler, also on a full table, as long as it stays inside the arrays.\<close>

lemma sigchld_jobs:
  assumes h: "sigchld_handler pid sh = Some sh'" and ok: "job_ok sh" and p: "0 < pid"
  shows "job_ok sh' \<and> jobs_of sh' = filter (\<lambda>(p, _). p \<noteq> pid) (jobs_of sh)"
proof (cases "count sh < 10")
  case True
  with sigchld_reaps [OF ok True p] h show ?thesis by auto
next
  case False
  with ok have "count sh = 10" by (simp add: job_ok_def)
  with sigchld_full [OF ok this p] h show ?thesis by auto
qed

text \<open>A handler that finds no child at all says so, and does nothing.\<close>

lemma sigchld_negative:
  assumes "job_ok sh" "pid < 0"
  shows "sigchld_handler pid sh = Some (if pid = -1 then act (Error ''background'') sh else sh)"
proof -
  have n: "num_jobs sh ! k \<noteq> pid" if "k < 10" for k
  proof (cases "nat (count sh) \<le> k")
    case True
    with assms that show ?thesis by (simp add: job_ok_def)
  next
    case False
    then have "num_jobs sh ! k \<in> set (take (nat (count sh)) (num_jobs sh))"
      using assms(1) by (auto simp: in_set_conv_nth job_ok_def intro!: exI [of _ k])
    with assms(1) have "0 < num_jobs sh ! k" by (auto simp: job_ok_def)
    with assms(2) show ?thesis by simp
  qed
  then have "find (\<lambda>i. num_jobs sh ! i = pid) [0..<9] = None" by (auto simp: find_None_iff)
  moreover have "pid \<noteq> num_jobs sh ! 9" using n [of 9] by simp
  ultimately show ?thesis by (auto simp: sigchld_handler_def act_def)
qed

lemma sigchld_none:
  "\<lbrakk>sigchld_handler pid sh = Some sh'; job_ok sh; pid < 0\<rbrakk> \<Longrightarrow> job_ok sh' \<and> jobs_of sh' = jobs_of sh"
  using sigchld_negative [of sh pid] by (auto simp: job_ok_def jobs_of_def act_def split: if_splits)

lemma sigchld_defined:
  "\<lbrakk>job_ok sh; count sh < 10; pid \<noteq> 0\<rbrakk> \<Longrightarrow> \<exists>sh'. sigchld_handler pid sh = Some sh'"
  using sigchld_reaps [of sh pid] sigchld_negative [of sh pid] by (cases "0 < pid") auto

text \<open>Negative numbers are no jobs, so for them the filter keeps the table.\<close>

lemma job_pids: "\<lbrakk>job_ok sh; (p, l) \<in> set (jobs_of sh)\<rbrakk> \<Longrightarrow> 0 < p"
  by (auto simp: jobs_of_def job_ok_def dest: set_zip_leftD)

lemma sigchld_table:
  assumes h: "sigchld_handler pid sh = Some sh'" and ok: "job_ok sh" and p: "pid \<noteq> 0"
  shows "job_ok sh' \<and> jobs_of sh' = filter (\<lambda>(p, _). p \<noteq> pid) (jobs_of sh)"
proof (cases "0 < pid")
  case True
  then show ?thesis by (rule sigchld_jobs [OF h ok])
next
  case False
  then have "filter (\<lambda>(p, _). p \<noteq> pid) (jobs_of sh) = jobs_of sh"
    using job_pids [OF ok] by (auto simp: filter_id_conv)
  with sigchld_none [OF h ok] False p show ?thesis by simp
qed

lemma sigchld_pipelines: "sigchld_handler pid sh = Some sh' \<Longrightarrow> pipelines sh' = pipelines sh"
proof -
  have shift: "shift_jobs i s = Some s' \<Longrightarrow> pipelines s' = pipelines s" for i s s'
  proof (induction i s rule: shift_jobs.induct)
    case (1 i s)
    from "1.prems" show ?case by (subst (asm) shift_jobs.simps) (auto split: if_splits dest: "1.IH" simp: pipelines_def)
  qed
  assume "sigchld_handler pid sh = Some sh'"
  then show ?thesis
    by (auto simp: sigchld_handler_def Let_def pipelines_def act_def split: if_splits option.splits bind_splits
        dest!: shift [unfolded pipelines_def])
qed

lemma deliver_table:
  "\<lbrakk>deliver pids sh = Some sh'; job_ok sh; 0 \<notin> set pids\<rbrakk> \<Longrightarrow>
   job_ok sh' \<and> jobs_of sh' = filter (\<lambda>(p, _). p \<notin> set pids) (jobs_of sh) \<and> pipelines sh' = pipelines sh"
proof (induction pids arbitrary: sh)
  case Nil
  then show ?case by simp
next
  case (Cons pid pids)
  then obtain s where s: "sigchld_handler pid sh = Some s" "deliver pids s = Some sh'" by (auto split: bind_splits)
  have t: "job_ok s" "jobs_of s = filter (\<lambda>(p, _). p \<noteq> pid) (jobs_of sh)"
    using sigchld_table [OF s(1)] Cons.prems by simp_all
  have "filter (\<lambda>(p, _). p \<notin> set pids) (filter (\<lambda>(p, _). p \<noteq> pid) js) = filter (\<lambda>(p, _). p \<notin> set (pid # pids)) js"
    for js :: "(int \<times> string) list" by (induction js) auto
  with Cons.IH [OF s(2)] t Cons.prems(3) sigchld_pipelines [OF s(1)] show ?case by simp
qed

lemma shell_line_exit:
  "shell_line os l sh = Some (Exit s) \<Longrightarrow> List.last (out s) = Printed [NL]"
  by (auto simp: shell_line_def act_def Let_def split: bind_splits if_splits elim!: run_command_cases)

lemma shell_line_exit_quiet:
  "shell_line os l sh = Some (Exit s) \<Longrightarrow> pipelines s = pipelines sh"
  by (auto simp: shell_line_def Let_def pipelines_def split: bind_splits if_splits elim!: run_command_cases
      dest!: tokenizer_jobs record_line_jobs) (simp_all add: act_def)

text \<open>
  A session \<open>S\<close> that is in the state \<open>sh\<close> behind the inputs \<open>before\<close> and goes on from there.
\<close>

definition at_state :: "(action list \<Rightarrow> string option) option \<Rightarrow> (input list \<Rightarrow> shell option) \<Rightarrow> input list \<Rightarrow> shell \<Rightarrow> bool" where
  "at_state tty S before sh \<longleftrightarrow> (\<forall>xs. S (before @ xs) = shell_loop tty xs sh)"

lemma at_state_step:
  "\<lbrakk>at_state tty S before sh; \<And>xs. shell_loop tty (i # xs) sh = shell_loop tty xs sh'\<rbrakk> \<Longrightarrow>
   at_state tty S (before @ [i]) sh'"
  by (simp add: at_state_def)

lemma at_state_launched:
  assumes "at_state tty S before sh" "shell_loop tty [i] sh = Some sh'"
  shows "launched_by S (before @ i # seen) (length before) \<longleftrightarrow> pipelines sh' \<noteq> pipelines sh"
  using assms(1) [unfolded at_state_def, rule_format, of "[]"] assms(1) [unfolded at_state_def, rule_format, of "[i]"] assms(2)
  by (auto simp: launched_by_def)

text \<open>
  The part of the inputs that the loop reads, and the last clause when it stopped before the end:
  the shell was left with \<open>exit\<close>.
\<close>

lemma shell_loop_jobs:
  "\<lbrakk>shell_loop tty ins sh = Some sh'; job_ok sh; at_state tty S before sh;
     pids_ok P ins; fst ` set (jobs_of sh) \<subseteq> P\<rbrakk> \<Longrightarrow>
   \<exists>seen rest. ins = seen @ rest \<and> job_ok sh'
     \<and> jobs_of sh' = table_of (launched_by S (before @ seen)) (length before) seen (jobs_of sh)
     \<and> (rest = [] \<or> List.last (out sh') = Printed [NL])"
proof (induction tty ins sh arbitrary: sh' before P rule: shell_loop.induct)
  case (1 tty sh)
  then show ?case by simp
next
  case (2 tty os l ins sh)
  then obtain r where r: "shell_line os l sh = Some r" by (auto split: bind_splits)
  have e: "enters (fork_pid os) l (ends_amp l) sh (after r)"
    using "2.prems" by (intro shell_line_jobs [OF r]) auto
  show ?case
  proof (cases r)
    case (Exit s)
    with "2.prems"(1) r have s: "sh' = s" by simp
    have p: "pipelines s = pipelines sh" by (rule shell_line_exit_quiet [OF r [unfolded Exit]])
    with e s p Exit shell_line_exit [OF r [unfolded Exit]] show ?thesis
      by (intro exI [of _ "[]"] exI [of _ "Line os l # ins"]) (simp add: enters_def)
  next
    case (Continue s)
    with "2.prems"(1) r obtain s1 s2 where s1: "deliver (in_wait os) s = Some s1" "prompted tty s1 = Some s2"
      "shell_loop tty ins s2 = Some sh'" by (auto split: bind_splits)
    have ok: "job_ok s" "0 \<notin> set (in_wait os)" using e Continue "2.prems"(4) by (simp_all add: enters_def)
    note d = deliver_table [OF s1(1) ok] frame_jobs [OF prompted_frame [OF s1(2)]]
    let ?new = "if pipelines s2 \<noteq> pipelines sh \<and> ends_amp l then jobs_of sh @ [(fork_pid os, l)] else jobs_of sh"
    have j: "job_ok s2" "jobs_of s2 = filter (\<lambda>(p, _). p \<notin> set (in_wait os)) ?new"
      using d e Continue by (simp_all add: enters_def)
    have step: "shell_loop tty (Line os l # xs) sh = shell_loop tty xs s2" for xs using r Continue s1(1,2) by simp
    have at: "at_state tty S (before @ [Line os l]) s2" using "2.prems"(3) step by (rule at_state_step)
    have l: "launched_by S (before @ Line os l # seen) (length before) \<longleftrightarrow> pipelines s2 \<noteq> pipelines sh" for seen
      using step [of "[]"] by (intro at_state_launched [OF "2.prems"(3)]) simp
    let ?P = "(if ends_amp l then insert (fork_pid os) P else P) - set (in_wait os)"
    have "fst ` set (jobs_of s2) \<subseteq> ?P" using "2.prems"(5) unfolding j(2) by (auto split: if_splits)
    moreover have "pids_ok ?P ins" using "2.prems"(4) by simp
    ultimately obtain seen rest where "ins = seen @ rest" "job_ok sh'"
      "jobs_of sh' = table_of (launched_by S (before @ Line os l # seen)) (length before + 1) seen (jobs_of s2)"
      "rest = [] \<or> List.last (out sh') = Printed [NL]"
      using "2.IH" [OF r Continue s1 j(1) at, of ?P] by auto
    then show ?thesis by (intro exI [of _ "Line os l # seen"] exI [of _ rest]) (simp add: l j(2))
  qed
next
  case (3 tty pid ins sh)
  then obtain s where s: "sigchld_handler pid sh = Some s" "shell_loop tty ins s = Some sh'"
    by (auto split: bind_splits)
  have j: "job_ok s" "jobs_of s = filter (\<lambda>(p, _). p \<noteq> pid) (jobs_of sh)"
    using sigchld_table [OF s(1)] "3.prems" by simp_all
  have "fst ` set (jobs_of s) \<subseteq> P - {pid}" using "3.prems"(5) by (fastforce simp: j)
  moreover have step: "shell_loop tty (Child pid # xs) sh = shell_loop tty xs s" for xs using s(1) by simp
  have "at_state tty S (before @ [Child pid]) s" using "3.prems"(3) step by (rule at_state_step)
  ultimately obtain seen rest where "ins = seen @ rest" "job_ok sh'"
    "jobs_of sh' = table_of (launched_by S (before @ Child pid # seen)) (length before + 1) seen (jobs_of s)"
    "rest = [] \<or> List.last (out sh') = Printed [NL]"
    using "3.IH" [OF s j(1), of "before @ [Child pid]" "P - {pid}"] "3.prems"(4) by auto
  then show ?case by (intro exI [of _ "Child pid # seen"] exI [of _ rest]) (simp add: j(2))
next
  case (4 tty ins sh)
  have "at_state tty S (before @ [Interrupt]) sh"
    using "4.prems"(3) by (intro at_state_step) (simp_all add: sigint_handler_def)
  with 4 obtain seen rest where "ins = seen @ rest" "job_ok sh'"
    "jobs_of sh' = table_of (launched_by S (before @ Interrupt # seen)) (length before + 1) seen (jobs_of sh)"
    "rest = [] \<or> List.last (out sh') = Printed [NL]"
    using "4.IH" [of sh' "before @ [Interrupt]" P] by (auto simp: sigint_handler_def)
  then show ?case by (intro exI [of _ "Interrupt # seen"] exI [of _ rest]) simp
qed

section \<open>Sessions\<close>

lemma shell_main_loop:
  assumes "shell_main tty host user env ins = Some sh"
  obtains sh1 u where "shell_loop tty ins sh1 = Some sh" "numbered 0 sh1" "job_ok sh1" "jobs_of sh1 = []"
    "user = Some u" "account sh1 = (case host of Some h \<Rightarrow> h | None \<Rightarrow> ''Unknown'', u, ''/home/'' @ u)"
    "at_state tty (shell_main tty host user env) [] sh1"
proof -
  from assms obtain sh0 sh1 where 1: "get_info host user (shell_init env) = Some sh0"
    "prompted tty sh0 = Some sh1" "shell_loop tty ins sh1 = Some sh"
    by (auto simp: shell_main_def split: bind_splits)
  have "numbered 0 (shell_init env)" using holds_init by (auto simp: numbered_def shell_init_def)
  with get_info_ok [OF 1(1)] job_ok_init [of env] have "numbered 0 sh0" "job_ok sh0" "jobs_of sh0 = []"
    by (simp_all add: numbered_def)
  moreover have "at_state tty (shell_main tty host user env) [] sh1" using 1 by (simp add: at_state_def shell_main_def)
  ultimately show ?thesis using 1 get_info_ok [OF 1(1)] prompted_frame [OF 1(2)]
    by (auto intro!: that simp: frame_numbered frame_jobs) (simp add: frame_def)
qed

text \<open>
  C15: The number in the prompt is the number of commands recorded, and the ring holds the last
  hundred of them, after every session that the shell gets through, whatever lines, ends of
  children and interrupts came in whatever order: history numbers and prompt numbers are the
  same. The prompt below the home directory names the user, the host and the directory.
\<close>

theorem prompt_numbers_history:
  assumes "shell_main tty host user env ins = Some sh"
  shows "\<exists>cs u. holds (hist sh) cs \<and> num_cmds sh = int (length cs) \<and> user = Some u
    \<and> (\<forall>dir. print_prompt (Some (''/home/'' @ u @ dir)) sh = Some (act (Printed (''--['' @ show_nat (length cs)
          @ ''|'' @ u @ ''@'' @ (case host of Some h \<Rightarrow> h | None \<Rightarrow> ''Unknown'') @ '':~'' @ dir @ '']--$ '')) sh))"
proof -
  from assms obtain sh1 u where 1: "shell_loop tty ins sh1 = Some sh" "numbered 0 sh1"
    and u: "user = Some u" "account sh1 = (case host of Some h \<Rightarrow> h | None \<Rightarrow> ''Unknown'', u, ''/home/'' @ u)"
    by (rule shell_main_loop)
  from shell_loop_numbered [OF 1] obtain cs where "holds (hist sh) cs" "num_cmds sh = int (length cs)"
    by (auto simp: numbered_def)
  with u shell_loop_account [OF 1(1)] show ?thesis
    by (auto simp: account_def print_prompt_def has_prefix_def intro!: exI [of _ cs])
qed

text \<open>A session at a terminal in the directory \<open>/home/me/src\<close>.\<close>

lemma simple_exit: "simple_line ''exit''" "words_of WS ''exit'' = [''exit'']"
proof -
  show w: "words_of WS ''exit'' = [''exit'']" by (simp add: WS_def words_of.simps)
  show "simple_line ''exit''" by (simp add: simple_line_def starts_def quotes_def w)
qed

lemma prompt_numbers_history_witness:
  "\<exists>sh cs u. shell_main (Some (\<lambda>_. Some ''/home/me/src'')) None (Some ''me'') Map.empty [Interrupt, Line good_os ''exit'']
      = Some sh \<and> holds (hist sh) cs \<and> num_cmds sh = int (length cs) \<and> Some ''me'' = Some u
    \<and> (\<forall>dir. print_prompt (Some (''/home/'' @ u @ dir)) sh = Some (act (Printed (''--['' @ show_nat (length cs)
          @ ''|'' @ u @ ''@'' @ ''Unknown'' @ '':~'' @ dir @ '']--$ '')) sh))"
proof -
  obtain sh0 where 0: "get_info None (Some ''me'') (shell_init Map.empty) = Some sh0" "nameDir sh0 = ''/home/me''"
    "hist sh0 = hist_init"
    by (simp add: get_info_def strcpy_into_def shell_init_def)
  obtain sh1 where 1: "prompted (Some (\<lambda>_. Some ''/home/me/src'')) sh0 = Some sh1"
    by (simp add: prompted_def print_prompt_def has_prefix_def 0)
  have h: "hist sh1 = hist_init" using prompted_frame [OF 1] 0 by (simp add: frame_def)
  obtain sh where "shell_line good_os ''exit'' sh1 = Some (Exit sh)"
    using simple_recorded [OF simple_exit(1), of "[''exit'']" False sh1 "[]" good_os] simple_exit(2) holds_init
    by (auto simp: h run_command_def cell_def)
  with 0 1 have "shell_main (Some (\<lambda>_. Some ''/home/me/src'')) None (Some ''me'') Map.empty
      [Interrupt, Line good_os ''exit''] = Some sh"
    by (simp add: shell_main_def sigint_handler_def)
  from this prompt_numbers_history [OF this] show ?thesis by auto
qed

text \<open>
  C12: The table of background jobs through a whole session, with lines, ends of children and
  interrupts in any order, and with ends of children while a line runs. When the kernel's process
  numbers are fresh and the handler never finds only running children, the table is well-formed and
  is exactly what the events make of it: each input that starts a pipeline with an ampersand
  at its end adds the line with the process forked for it at the end of the list, each process that
  the handler is told about is taken out, and nothing else happens to the list. In every state that is reached
  with a free place the handler takes exactly the ended process out; but when it finds only running
  children (the result 0), as when a command in the foreground has been waited for beside a running job, it takes the
  last job out, which still runs.
\<close>

theorem session_jobs:
  assumes "shell_main tty host user env ins = Some sh" "pids_ok {} ins"
  shows "job_ok sh
    \<and> (\<exists>seen rest. ins = seen @ rest \<and> (rest = [] \<or> List.last (out sh) = Printed [NL])
        \<and> jobs_of sh = table_of (launched_by (shell_main tty host user env) seen) 0 seen [])
    \<and> (\<forall>pid. pid \<noteq> 0 \<longrightarrow> count sh < 10 \<longrightarrow> (\<exists>sh'. sigchld_handler pid sh = Some sh' \<and> job_ok sh'
        \<and> jobs_of sh' = filter (\<lambda>(p, _). p \<noteq> pid) (jobs_of sh)))
    \<and> (count sh < 10 \<longrightarrow> (\<exists>sh'. sigchld_handler 0 sh = Some sh' \<and> count sh' = count sh - 1
        \<and> jobs_of sh' = butlast (jobs_of sh)))"
proof -
  from assms(1) obtain sh1 where 1: "shell_loop tty ins sh1 = Some sh" "job_ok sh1" "jobs_of sh1 = []"
    "at_state tty (shell_main tty host user env) [] sh1"
    by (rule shell_main_loop)
  obtain seen rest where 2: "ins = seen @ rest" "job_ok sh" "rest = [] \<or> List.last (out sh) = Printed [NL]"
    "jobs_of sh = table_of (launched_by (shell_main tty host user env) seen) 0 seen []"
    using shell_loop_jobs [OF 1(1,2,4), of "{}"] assms(2) 1(3) by auto
  moreover have "\<exists>sh'. sigchld_handler pid sh = Some sh' \<and> job_ok sh' \<and> jobs_of sh' = filter (\<lambda>(p, _). p \<noteq> pid) (jobs_of sh)"
    if "pid \<noteq> 0" "count sh < 10" for pid
    using sigchld_defined [OF 2(2) that(2,1)] sigchld_table [OF _ 2(2) that(1)] by blast
  ultimately show ?thesis using sigchld_borders [OF 2(2)] by blast
qed

lemma simple_bg: "simple_line ''a &''" "words_of WS ''a &'' = [''a'', ''&'']"
proof -
  show w: "words_of WS ''a &'' = [''a'', ''&'']" by (simp add: WS_def words_of.simps)
  show "simple_line ''a &''" by (simp add: simple_line_def starts_def quotes_def w)
qed

lemma session_jobs_witness:
  "\<exists>sh. shell_main None None (Some ''me'') Map.empty [Line good_os ''a &'', Child 7] = Some sh
    \<and> jobs_of sh = [(42, ''a &'')] \<and> job_ok sh
    \<and> (\<exists>sh'. sigchld_handler 42 sh = Some sh' \<and> jobs_of sh' = [])
    \<and> (\<exists>sh'. sigchld_handler 0 sh = Some sh' \<and> jobs_of sh' = [])"
proof -
  obtain sh0 where 0: "get_info None (Some ''me'') (shell_init Map.empty) = Some sh0"
    "hist sh0 = hist_init" "count sh0 = 0" "num_jobs sh0 = replicate 10 0" "bg_cmds sh0 = replicate 10 []"
    by (simp add: get_info_def strcpy_into_def shell_init_def)
  obtain sh1 where "shell_line good_os ''a &'' sh0 = Some (Continue sh1)"
     "count sh1 = 1" "num_jobs sh1 = 42 # replicate 9 0" "bg_cmds sh1 = ''a &'' # replicate 9 []"
    using simple_recorded [OF simple_bg(1), of "[''a'']" True sh0 "[]" good_os] simple_bg(2) holds_init
    by (auto simp: 0 run_command_def cell_def starts_def strip_quote_def exec_def substitute_def parse_cmds_def
      add_last_def copy_seg_def seg_start_def good_os_def strcpy_into_def act_def Let_def eval_nat_numeral)
  then have sh1: "shell_loop None [Line good_os ''a &'', Child 7] sh0 = Some sh1" "jobs_of sh1 = [(42, ''a &'')]"
    "count sh1 = 1"
    by (simp_all add: prompted_def sigchld_handler_def find_None_iff All_less_Suc numeral_nat jobs_of_def good_os_def)
  with 0 have m: "shell_main None None (Some ''me'') Map.empty [Line good_os ''a &'', Child 7] = Some sh1"
    by (simp add: shell_main_def prompted_def)
  have p: "pids_ok {} [Line good_os ''a &'', Child 7]" by (simp add: good_os_def)
  note s = session_jobs [OF m p]
  obtain sh' where "sigchld_handler 42 sh1 = Some sh'" "jobs_of sh' = []"
    using s [THEN conjunct2, THEN conjunct2, THEN conjunct1, rule_format, of 42] sh1(2,3) by auto
  moreover obtain sh'' where "sigchld_handler 0 sh1 = Some sh''" "jobs_of sh'' = []"
    using s [THEN conjunct2, THEN conjunct2, THEN conjunct2] sh1(2,3) by auto
  ultimately show ?thesis using m sh1 conjunct1 [OF s] by blast
qed

end
