(* ===== verification/Timestamp.thy ===== *)
theory Timestamp
  imports C_Prelude
begin

text \<open>
  The time stamp of the web server's responses, \<open>generate_timestamp\<close> of Project4/www.c: the
  calendar of \<open>gmtime\<close>, the conversions of \<open>strftime\<close> that the format names, and a decoder
  that gets the second back from the text. The time is a parameter, in seconds since 1970.
\<close>

section \<open>The calendar\<close>

text \<open>The members of \<open>struct tm\<close> that the format prints; \<open>tm_mon\<close> from 0, \<open>tm_year\<close> from 1900.\<close>

record tm =
  tm_sec :: nat
  tm_min :: nat
  tm_hour :: nat
  tm_mday :: nat
  tm_mon :: nat
  tm_year :: nat
  tm_wday :: nat

definition leap :: "nat \<Rightarrow> bool" where
  "leap y \<longleftrightarrow> 4 dvd y \<and> (\<not> 100 dvd y \<or> 400 dvd y)"

definition days_in_year :: "nat \<Rightarrow> nat" where
  "days_in_year y = (if leap y then 366 else 365)"

definition month_days :: "nat \<Rightarrow> nat list" where
  "month_days y = [31, if leap y then 29 else 28, 31, 30, 31, 30, 31, 31, 30, 31, 30, 31]"

text \<open>The year of a day, and the day in it, by taking away the years from \<open>y\<close> on.\<close>

function year_of :: "nat \<Rightarrow> nat \<Rightarrow> nat \<times> nat" where
  "year_of y d = (if d < days_in_year y then (y, d) else year_of (Suc y) (d - days_in_year y))"
  by pat_completeness auto

termination
  by (relation "measure snd") (auto simp: days_in_year_def)

declare year_of.simps [simp del]

fun month_of :: "nat list \<Rightarrow> nat \<Rightarrow> nat \<times> nat" where
  "month_of [] d = (0, d)"
| "month_of (n # ns) d = (if d < n then (0, d) else map_prod Suc id (month_of ns (d - n)))"

definition gmtime :: "nat \<Rightarrow> tm" where
  "gmtime now =
     (let days = now div 86400; s = now mod 86400; (y, yd) = year_of 1970 days; (m, d) = month_of (month_days y) yd in
      \<lparr>tm_sec = s mod 60, tm_min = s div 60 mod 60, tm_hour = s div 3600, tm_mday = d + 1, tm_mon = m,
       tm_year = y - 1900, tm_wday = (days + 4) mod 7\<rparr>)"

section \<open>The text\<close>

definition two_digits :: "nat \<Rightarrow> string" where
  "two_digits n = [digit (n div 10), digit (n mod 10)]"

definition day_names :: "string list" where
  "day_names = [''Sun'', ''Mon'', ''Tue'', ''Wed'', ''Thu'', ''Fri'', ''Sat'']"

definition month_names :: "string list" where
  "month_names = [''Jan'', ''Feb'', ''Mar'', ''Apr'', ''May'', ''Jun'', ''Jul'', ''Aug'', ''Sep'', ''Oct'', ''Nov'', ''Dec'']"

text \<open>\<open>strftime\<close> with the format \<open>%a, %d %b %Y %H:%M:%S %Z\<close>; the zone of \<open>gmtime\<close> is GMT.\<close>

definition stamp_text :: "tm \<Rightarrow> string" where
  "stamp_text t = day_names ! tm_wday t @ '', '' @ two_digits (tm_mday t) @ '' '' @ month_names ! tm_mon t @ '' ''
     @ show_nat (tm_year t + 1900) @ '' '' @ two_digits (tm_hour t) @ '':'' @ two_digits (tm_min t) @ '':''
     @ two_digits (tm_sec t) @ '' GMT''"

text \<open>
  The buffer after the call. \<open>gmtime\<close> returns \<open>NULL\<close>, which the code dereferences, when the year does
  not fit the \<open>int\<close> of \<open>tm_year\<close>; where the text and its NUL do not fit, what the buffer holds is
  undefined.
\<close>

definition generate_timestamp :: "nat \<Rightarrow> nat \<Rightarrow> string option" where
  "generate_timestamp now len =
     (let t = gmtime now; s = stamp_text t in
      if int (tm_year t) > INT_MAX then None else if length s + 1 \<le> len then Some s else None)"

section \<open>The calendar is the proleptic Gregorian one\<close>

text \<open>The days before the first of January of a year, by the formula.\<close>

definition leaps :: "nat \<Rightarrow> int" where
  "leaps y = int y div 4 - int y div 100 + int y div 400"

definition days_before :: "nat \<Rightarrow> int" where
  "days_before y = 365 * (int y - 1970) + leaps (y - 1) - leaps 1969"

lemma div_Suc_int: "0 < k \<Longrightarrow> int (Suc y) div int k = int y div int k + (if k dvd Suc y then 1 else 0)"
proof -
  assume k: "0 < k"
  have "Suc y div k = y div k + (if k dvd Suc y then 1 else 0)"
    using k by (simp add: div_Suc dvd_eq_mod_eq_0)
  then show ?thesis unfolding of_nat_div [symmetric] by simp
qed

lemma leaps_Suc: "leaps (Suc y) = leaps y + (if leap (Suc y) then 1 else 0)"
proof -
  have "(400::nat) = 4 * 100" "(100::nat) = 25 * 4" by simp_all
  then have d: "400 dvd Suc y \<longrightarrow> 100 dvd Suc y" "100 dvd Suc y \<longrightarrow> 4 dvd Suc y"
    by (metis dvd_trans dvd_triv_right)+
  have e: "int (Suc y) div 4 = int y div 4 + (if 4 dvd Suc y then 1 else 0)"
    "int (Suc y) div 100 = int y div 100 + (if 100 dvd Suc y then 1 else 0)"
    "int (Suc y) div 400 = int y div 400 + (if 400 dvd Suc y then 1 else 0)"
    using div_Suc_int [of 4 y] div_Suc_int [of 100 y] div_Suc_int [of 400 y] by (simp_all only: of_nat_numeral zero_less_numeral simp_thms True_implies_equals)
  show ?thesis
    unfolding leaps_def leap_def e using d
    by (cases "4 dvd Suc y"; cases "100 dvd Suc y"; cases "400 dvd Suc y") (simp_all only: if_True if_False simp_thms)
qed

lemma days_before_Suc: "1 \<le> y \<Longrightarrow> days_before (Suc y) = days_before y + int (days_in_year y)"
  using leaps_Suc [of "y - 1"] by (simp add: days_before_def days_in_year_def)

lemma days_before_mono: "1 \<le> y \<Longrightarrow> y \<le> z \<Longrightarrow> days_before y \<le> days_before z"
proof (induction z)
  case (Suc z)
  then show ?case by (cases "y = Suc z") (auto simp: days_before_Suc)
qed simp

lemma year_of_spec:
  "\<lbrakk>year_of y d = (y', d'); 1 \<le> y\<rbrakk> \<Longrightarrow> y \<le> y' \<and> d' < days_in_year y' \<and> days_before y' + int d' = days_before y + int d"
proof (induction y d rule: year_of.induct)
  case (1 y d)
  show ?case
  proof (cases "d < days_in_year y")
    case True
    then show ?thesis using 1(2) by (subst (asm) year_of.simps) simp
  next
    case False
    then have "year_of (Suc y) (d - days_in_year y) = (y', d')" using 1(2) by (subst (asm) year_of.simps) simp
    from 1(1) [OF False this] 1(3) False show ?thesis by (simp add: days_before_Suc of_nat_diff)
  qed
qed

lemma month_of_spec:
  "\<lbrakk>month_of ns d = (m, d'); d < sum_list ns\<rbrakk> \<Longrightarrow>
    m < length ns \<and> d' < ns ! m \<and> sum_list (take m ns) + d' = d"
proof (induction ns d arbitrary: m rule: month_of.induct)
  case (2 n ns d)
  show ?case
  proof (cases "d < n")
    case False
    then obtain k where k: "month_of ns (d - n) = (k, d')" "m = Suc k"
      using 2(2) by (cases "month_of ns (d - n)") auto
    have "d - n < sum_list ns" using 2(3) False by simp
    with 2(1) [OF False k(1)] k(2) False show ?thesis by auto
  qed (use 2 in auto)
qed simp

lemma month_days_sum: "length (month_days y) = 12 \<and> sum_list (month_days y) = days_in_year y"
  by (simp add: month_days_def days_in_year_def)

text \<open>The inverse of \<open>gmtime\<close>, by the formula.\<close>

definition timegm :: "tm \<Rightarrow> int" where
  "timegm t = (let y = tm_year t + 1900 in
     86400 * (days_before y + int (sum_list (take (tm_mon t) (month_days y))) + int (tm_mday t) - 1)
     + 3600 * int (tm_hour t) + 60 * int (tm_min t) + int (tm_sec t))"

definition tm_ok :: "tm \<Rightarrow> bool" where
  "tm_ok t \<longleftrightarrow> tm_sec t < 60 \<and> tm_min t < 60 \<and> tm_hour t < 24 \<and> tm_mon t < 12 \<and> 70 \<le> tm_year t
     \<and> 1 \<le> tm_mday t \<and> tm_mday t \<le> month_days (tm_year t + 1900) ! tm_mon t \<and> tm_wday t < 7"

lemma seconds_int:
  "\<lbrakk>86400 * a + s = n; 3600 * b + 60 * c + e = s\<rbrakk> \<Longrightarrow> 86400 * int a + 3600 * int b + 60 * int c + int e = int n"
  by simp

lemma gmtime_spec: "tm_ok (gmtime now) \<and> timegm (gmtime now) = int now"
proof -
  obtain y yd where y: "year_of 1970 (now div 86400) = (y, yd)" by force
  obtain m d where m: "month_of (month_days y) yd = (m, d)" by force
  have ys: "1970 \<le> y" "yd < days_in_year y" "days_before y + int yd = int (now div 86400)"
    using year_of_spec [OF y] by (simp_all add: days_before_def)
  have ms: "m < 12" "d < month_days y ! m" "sum_list (take m (month_days y)) + d = yd"
    using month_of_spec [OF m] ys(2) month_days_sum [of y] by auto
  have h: "s div 3600 < 24 \<and> 3600 * (s div 3600) + 60 * (s div 60 mod 60) + s mod 60 = s" if "s < 86400" for s :: nat
  proof -
    have "s div 3600 = s div 60 div 60" by (simp add: div_mult2_eq [symmetric])
    moreover have "60 * (s div 60) + s mod 60 = s" "60 * (s div 60 div 60) + s div 60 mod 60 = s div 60" by (rule mult_div_mod_eq)+
    moreover have "s div 3600 < 24" using that by (simp add: less_mult_imp_div_less)
    ultimately show ?thesis by linarith
  qed
  note hs = h [of "now mod 86400", simplified]
  have g: "gmtime now = \<lparr>tm_sec = now mod 86400 mod 60, tm_min = now mod 86400 div 60 mod 60, tm_hour = now mod 86400 div 3600,
      tm_mday = d + 1, tm_mon = m, tm_year = y - 1900, tm_wday = (now div 86400 + 4) mod 7\<rparr>"
    by (simp add: gmtime_def Let_def y m)
  have "tm_ok (gmtime now)" using ys(1) ms(1,2) hs by (simp add: g tm_ok_def)
  moreover have "86400 * (now div 86400) + now mod 86400 = now" by (rule mult_div_mod_eq)
  then have "86400 * int (now div 86400) + 3600 * int (now mod 86400 div 3600) + 60 * int (now mod 86400 div 60 mod 60)
      + int (now mod 86400 mod 60) = int now"
    by (rule seconds_int) (use hs in blast)
  then have "timegm (gmtime now) = int now"
    using ys(1,3) ms(3) unfolding g timegm_def Let_def tm.simps by simp
  ultimately show ?thesis by blast
qed

text \<open>The day of the week of a date, by the formula with a number for each month.\<close>

definition month_keys :: "nat list" where
  "month_keys = [0, 3, 2, 5, 0, 3, 5, 1, 4, 6, 2, 4]"

definition weekday :: "tm \<Rightarrow> nat" where
  "weekday t =
     (let y = (if tm_mon t < 2 then tm_year t + 1899 else tm_year t + 1900) in
      (y + y div 4 - y div 100 + y div 400 + month_keys ! tm_mon t + tm_mday t) mod 7)"

text \<open>The days before a month, in terms of its key.\<close>

lemma days_before_month:
  assumes "m < 12"
  shows "\<exists>q. int (sum_list (take m (month_days y))) =
    int (month_keys ! m) + (if m < 2 then 0 else 1 + (if leap y then 1 else 0)) + 7 * q"
proof -
  have "list_all (\<lambda>m. int (sum_list (take m (month_days y))) =
      int (month_keys ! m) + (if m < 2 then 0 else 1 + (if leap y then 1 else 0)) + 7 * [0, 4, 8, 12, 17, 21, 25, 30, 34, 38, 43, 47] ! m) [0..<12]"
    by (simp add: month_days_def month_keys_def upt_rec)
  then show ?thesis using assms unfolding list_all_iff by auto
qed

lemma weekday_int:
  "int ((z + z div 4 - z div 100 + z div 400 + a + b) mod 7) = (int z + leaps z + int a + int b) mod 7"
proof -
  have "z div 100 \<le> z div 4" by (rule div_le_mono2) simp_all
  then have "int (z + z div 4 - z div 100 + z div 400 + a + b) = int z + leaps z + int a + int b"
    by (simp add: leaps_def of_nat_diff of_nat_div)
  then show ?thesis by (simp only: of_nat_mod of_nat_numeral)
qed

lemma leaps_1969: "leaps 1969 = 477"
  by (simp add: leaps_def)

lemma gmtime_weekday: "tm_wday (gmtime now) = weekday (gmtime now)"
proof -
  obtain y yd where y: "year_of 1970 (now div 86400) = (y, yd)" by force
  obtain m d where m: "month_of (month_days y) yd = (m, d)" by force
  have ys: "1970 \<le> y" "yd < days_in_year y" "days_before y + int yd = int (now div 86400)"
    using year_of_spec [OF y] by (simp_all add: days_before_def)
  have ms: "m < 12" "int (sum_list (take m (month_days y))) + int d = int yd"
    using month_of_spec [OF m] ys(2) month_days_sum [of y] by auto
  obtain q where q: "int (sum_list (take m (month_days y))) =
      int (month_keys ! m) + (if m < 2 then 0 else 1 + (if leap y then 1 else 0)) + 7 * q"
    using days_before_month [OF ms(1)] by blast
  let ?z = "if m < 2 then y - 1 else y"
  have z: "int ?z = int y + (if m < 2 then 0 else 1) - 1"
    "leaps ?z = leaps (y - 1) + (if m < 2 then 0 else 1 + (if leap y then 1 else 0)) - (if m < 2 then 0 else 1)"
    using ys(1) leaps_Suc [of "y - 1"] by auto
  have "int (weekday (gmtime now)) = (int ?z + leaps ?z + int (month_keys ! m) + int (d + 1)) mod 7"
    using ys(1) unfolding weekday_int [symmetric] by (simp add: gmtime_def Let_def y m weekday_def)
  moreover have "int (now div 86400 + 4) = int ?z + leaps ?z + int (month_keys ! m) + int (d + 1) + 7 * (52 * int y - 102789 + q)"
    using ys(1,3) ms(2) q z by (simp add: days_before_def leaps_1969 split del: if_split)
  then have "int ((now div 86400 + 4) mod 7) = (int ?z + leaps ?z + int (month_keys ! m) + int (d + 1)) mod 7"
    by (simp only: of_nat_mod of_nat_numeral mod_mult_self2)
  moreover have "tm_wday (gmtime now) = (now div 86400 + 4) mod 7"
    by (simp add: gmtime_def Let_def y m)
  ultimately show ?thesis by linarith
qed

section \<open>The text and its decoder\<close>

definition num_at :: "nat \<Rightarrow> nat \<Rightarrow> string \<Rightarrow> nat" where
  "num_at i n s = nat (atoi (take n (drop i s)))"

text \<open>
  The second that a time stamp names: the date and the time are read from their columns, and the
  day of the week has to be the one of the date.
\<close>

definition stamp_time :: "string \<Rightarrow> nat option" where
  "stamp_time s =
     (case filter (\<lambda>m. month_names ! m = take 3 (drop 8 s)) [0..<12] of
        [] \<Rightarrow> None
      | m # _ \<Rightarrow>
         (let t = \<lparr>tm_sec = num_at 23 2 s, tm_min = num_at 20 2 s, tm_hour = num_at 17 2 s, tm_mday = num_at 5 2 s,
            tm_mon = m, tm_year = num_at 12 4 s - 1900, tm_wday = 0\<rparr> in
          if length s = 29 \<and> take 5 s = day_names ! weekday t @ '', '' \<and> drop 25 s = '' GMT'' then Some (nat (timegm t))
          else None))"

lemma two_digits: "length (two_digits n) = 2" "n < 100 \<Longrightarrow> nat (atoi (two_digits n)) = n"
proof -
  show "length (two_digits n) = 2" by (simp add: two_digits_def)
  assume "n < 100"
  then have d: "isdigit (digit (n div 10))" "digit_val (digit (n div 10)) = int (n div 10)"
    "isdigit (digit (n mod 10))" "digit_val (digit (n mod 10)) = int (n mod 10)"
    using digit_char [of "n div 10"] digit_char [of "n mod 10"] by auto
  have "10 * (n div 10) + n mod 10 = n" by simp
  then have "10 * int (n div 10) + int (n mod 10) = int n" by linarith
  then show "nat (atoi (two_digits n)) = n"
    using d isdigit_not_space [OF d(1)] by (simp add: two_digits_def atoi_def digits_val_def)
qed

lemma show_nat_four: "\<lbrakk>1000 \<le> n; n < 10000\<rbrakk> \<Longrightarrow> length (show_nat n) = 4"
  by (subst show_nat.simps, subst show_nat.simps, subst show_nat.simps, subst show_nat.simps)
    (simp add: div_mult2_eq [symmetric], auto simp: div_less_iff_less_mult)

lemma all_days: "\<forall>n \<in> set day_names. length n = 3"
  by (simp add: day_names_def)

lemma all_months: "\<forall>n \<in> set month_names. length n = 3"
  by (simp add: month_names_def)

lemma month_names_at: "m < 12 \<Longrightarrow> filter (\<lambda>k. month_names ! k = month_names ! m) [0..<12] = [m]"
proof -
  assume "m < 12"
  have "list_all (\<lambda>m. filter (\<lambda>k. month_names ! k = month_names ! m) [0..<12] = [m]) [0..<12]"
    by (simp add: month_names_def upt_rec)
  then show ?thesis using \<open>m < 12\<close> unfolding list_all_iff by simp
qed

text \<open>The columns of a text of seven parts.\<close>

lemma stamp_text_columns:
  assumes t: "tm_ok t" "tm_year t < 8100"
  shows "length (stamp_text t) = 29 \<and> take 5 (stamp_text t) = day_names ! tm_wday t @ '', '' \<and> drop 25 (stamp_text t) = '' GMT''
    \<and> take 3 (drop 8 (stamp_text t)) = month_names ! tm_mon t \<and> num_at 5 2 (stamp_text t) = tm_mday t
    \<and> num_at 12 4 (stamp_text t) = tm_year t + 1900 \<and> num_at 17 2 (stamp_text t) = tm_hour t
    \<and> num_at 20 2 (stamp_text t) = tm_min t \<and> num_at 23 2 (stamp_text t) = tm_sec t"
proof -
  have "day_names ! tm_wday t \<in> set day_names" "month_names ! tm_mon t \<in> set month_names"
    using t by (simp_all add: tm_ok_def day_names_def month_names_def nth_mem del: list.set)
  then have l: "length (day_names ! tm_wday t) = 3" "length (month_names ! tm_mon t) = 3"
    using all_days all_months by blast+
  have y: "length (show_nat (tm_year t + 1900)) = 4" using t by (intro show_nat_four) (auto simp: tm_ok_def)
  have "month_days (tm_year t + 1900) ! tm_mon t \<le> 31"
    using t by (auto simp: tm_ok_def month_days_def nth_Cons split: nat.split)
  then have "tm_mday t < 100" "tm_hour t < 100" "tm_min t < 100" "tm_sec t < 100" using t by (auto simp: tm_ok_def)
  then show ?thesis using l y
    by (simp add: stamp_text_def num_at_def two_digits)
qed

lemma year_below: "now < 253402300800 \<Longrightarrow> tm_year (gmtime now) < 8100"
proof (rule ccontr)
  assume now: "now < 253402300800" and n: "\<not> tm_year (gmtime now) < 8100"
  have g: "tm_ok (gmtime now)" "timegm (gmtime now) = int now" using gmtime_spec by auto
  have "days_before 10000 \<le> days_before (tm_year (gmtime now) + 1900)"
    by (rule days_before_mono) (use n in auto)
  moreover have "days_before 10000 = 2932897" by (simp add: days_before_def leaps_def)
  moreover have "1 \<le> int (tm_mday (gmtime now))" using g(1) by (simp add: tm_ok_def)
  moreover have "0 \<le> int n" for n by simp
  ultimately have "86400 * 2932897 \<le> timegm (gmtime now)" 
    unfolding timegm_def Let_def by (smt (verit) of_nat_0_le_iff)
  then show False using g(2) now by simp
qed

definition before_10000 :: "nat \<Rightarrow> bool" where
  "before_10000 now \<longleftrightarrow> now < 253402300800"

lemma generate_timestamp_eq:
  assumes "before_10000 now" "30 \<le> len"
  shows "generate_timestamp now len = Some (stamp_text (gmtime now))" "length (stamp_text (gmtime now)) = 29"
proof -
  have y: "tm_year (gmtime now) < 8100" using year_below assms(1) by (simp add: before_10000_def)
  then show "length (stamp_text (gmtime now)) = 29" using stamp_text_columns gmtime_spec by blast
  then show "generate_timestamp now len = Some (stamp_text (gmtime now))"
    using y assms(2) by (simp add: generate_timestamp_def INT_MAX_def Let_def)
qed

lemma stamp_time_text:
  assumes "before_10000 now"
  shows "stamp_time (stamp_text (gmtime now)) = Some now"
proof -
  let ?t = "gmtime now"
  have g: "tm_ok ?t" "timegm ?t = int now" using gmtime_spec by auto
  have y: "tm_year ?t < 8100" using year_below assms by (simp add: before_10000_def)
  note c = stamp_text_columns [OF g(1) y]
  let ?u = "?t\<lparr>tm_wday := 0\<rparr>"
  have u: "\<lparr>tm_sec = tm_sec ?t, tm_min = tm_min ?t, tm_hour = tm_hour ?t, tm_mday = tm_mday ?t, tm_mon = tm_mon ?t,
      tm_year = tm_year ?t, tm_wday = 0\<rparr> = ?u" by simp
  have "weekday ?u = tm_wday ?t" "timegm ?u = int now"
    using gmtime_weekday [of now] g(2) by (simp_all add: weekday_def timegm_def)
  moreover have "filter (\<lambda>m. month_names ! m = month_names ! tm_mon ?t) [0..<12] = [tm_mon ?t]"
    using g(1) by (intro month_names_at) (simp add: tm_ok_def)
  ultimately show ?thesis using c unfolding stamp_time_def by (simp add: u del: upt_Suc)
qed

text \<open>
  C33: The time stamp of any second before the year 10000 fits a buffer of 30 bytes, and so the 128
  bytes that the server has for it; the second can be read back from it, and the day of the
  week in it is the one of its date.
\<close>

theorem timestamp_roundtrip:
  assumes "before_10000 now" "30 \<le> len"
  shows "\<exists>s. generate_timestamp now len = Some s \<and> length s = 29 \<and> stamp_time s = Some now"
  using generate_timestamp_eq [OF assms] stamp_time_text [OF assms(1)] by simp

lemma timestamp_roundtrip_witness:
  "generate_timestamp 784111777 128 = Some ''Sun, 06 Nov 1994 08:49:37 GMT''
    \<and> stamp_time ''Sun, 06 Nov 1994 08:49:37 GMT'' = Some 784111777"
proof -
  have "year_of 1970 9075 = (1994, 309)"
    by (simp add: year_of.simps days_in_year_def leap_def)
  then have "generate_timestamp 784111777 128 = Some ''Sun, 06 Nov 1994 08:49:37 GMT''"
    by (simp add: generate_timestamp_def gmtime_def Let_def month_days_def leap_def stamp_text_def
      day_names_def month_names_def two_digits_def digit_def show_nat.simps INT_MAX_def)
  then show ?thesis using timestamp_roundtrip [of 784111777 128] by (simp add: before_10000_def)
qed

end
