(* ===== verification/Www.thy ===== *)
theory Www
  imports Tokens Timestamp
begin

text \<open>
  The web server, Project4/www.c: reading the lines of a request, the two kinds of response, and
  the loop of the child process that serves a connection. A connection is the bytes that the
  client sends, whether the read behind them fails or is the end of the file, and what the
  server writes. The file system and the result of \<open>time\<close> are parameters; \<open>write\<close> and
  \<open>sendfile\<close> are taken to send all that they are given (the code does not look at their
  results). The log lines are not modelled; \<open>main\<close> is in Www_Main.
\<close>

section \<open>The code\<close>

record conn =
  input :: string
  failing :: bool
  sent :: "string list"

record fs =
  stat_of :: "string \<Rightarrow> (bool \<times> nat) option"
  contents :: "string \<Rightarrow> string option"

definition CRLF :: string where
  "CRLF = [CR, NL]"

text \<open>The size of the buffers of \<open>handle_request\<close>.\<close>

definition BUF_SZ :: nat where
  "BUF_SZ = 8192"

text \<open>
  \<open>read_line\<close> from the position \<open>pos\<close> (\<open>total\<close> in the code) on. The buffer is looked at before the result of
  \<open>read\<close>, so the end of the input behind an old newline counts as a line.
\<close>

function read_line_loop :: "conn \<Rightarrow> buffer \<Rightarrow> nat \<Rightarrow> nat \<Rightarrow> (int \<times> buffer \<times> conn) option" where
  "read_line_loop cn buf len pos =
     (if pos < len
      then if \<not> pos < length buf then None
           else (case input cn of
               c # cs \<Rightarrow>
                 let buf' = buf[pos := c]; cn' = cn\<lparr>input := cs\<rparr> in
                 if c = NL then Some (int pos, buf', cn')
                 else read_line_loop cn' buf' len (pos + 1)
             | [] \<Rightarrow>
                 if buf ! pos = NL then Some (int pos, buf, cn)
                 else if failing cn then Some (-1, buf, cn)
                 else Some (0, buf, cn))
      else Some (int pos, buf, cn))"
  by pat_completeness auto

termination
  by (relation "measure (\<lambda>(cn, _, len, pos). len - pos)") auto

declare read_line_loop.simps [simp del]

definition read_line :: "conn \<Rightarrow> buffer \<Rightarrow> nat \<Rightarrow> (int \<times> buffer \<times> conn) option" where
  "read_line cn buf len = read_line_loop cn buf len 0"

definition send :: "string \<Rightarrow> conn \<Rightarrow> conn" where
  "send s cn = cn\<lparr>sent := sent cn @ [s]\<rparr>"

definition not_found :: "nat \<Rightarrow> conn \<Rightarrow> conn option" where
  "not_found now cn = do {
     ts \<leftarrow> generate_timestamp now 128;
     let error = ''404 Not Found'';
     Some (send (''HTTP/1.1 404 Not Found'' @ CRLF @ ''Date: '' @ ts @ CRLF @ ''Content-Length: ''
       @ show_nat (length error) @ CRLF @ CRLF @ error) cn)
   }"

definition WSP :: string where
  "WSP = [CHR '' '', CHR 0x09, CHR 0x0D, CHR 0x0A]"

text \<open>The loop over the lines of the request: a return value, or the path.\<close>

partial_function (option) request_loop :: "conn \<Rightarrow> string \<Rightarrow> ((int + string) \<times> conn) option" where
  "request_loop cn path = do {
     (read_sz, header, cn1) \<leftarrow> read_line cn (replicate BUF_SZ NUL) BUF_SZ;
     if read_sz = -1 \<or> read_sz = 0 then Some (Inl read_sz, cn1)
     else do {
       (st1, curr_tok) \<leftarrow> next_token_str WSP (header, Some 0);
       if curr_tok = Some ''GET'' then do {
         (st2, curr_tok) \<leftarrow> next_token_str WSP st1;
         uri \<leftarrow> curr_tok;
         uri \<leftarrow> strcpy_into (BUF_SZ - 1) uri;
         request_loop cn1 (CHR ''.'' # uri)
       }
       else if curr_tok = None then Some (Inr path, cn1)
       else request_loop cn1 path
     }
   }"

text \<open>The 200 response for a file of \<open>sz\<close> bytes: the header, then what \<open>sendfile\<close> sends.\<close>

definition send_file :: "fs \<Rightarrow> nat \<Rightarrow> string \<Rightarrow> nat \<Rightarrow> conn \<Rightarrow> conn option" where
  "send_file f now path sz cn = do {
     date \<leftarrow> generate_timestamp now 128;
     let cn1 = send (''HTTP/1.1 200 OK'' @ CRLF @ ''Date: '' @ date @ CRLF @ ''Content-Length: ''
          @ show_nat sz @ CRLF @ CRLF) cn;
     Some (case contents f path of Some c \<Rightarrow> send (take sz c) cn1 | None \<Rightarrow> cn1)
   }"

definition handle_request :: "fs \<Rightarrow> nat \<Rightarrow> conn \<Rightarrow> (int \<times> conn) option" where
  "handle_request f now cn = do {
     (r, cn1) \<leftarrow> request_loop cn [];
     case r of
       Inl read_sz \<Rightarrow> Some (read_sz, cn1)
     | Inr path \<Rightarrow>
         (case stat_of f path of
            None \<Rightarrow> do { cn2 \<leftarrow> not_found now cn1; Some (0, cn2) }
          | Some (is_dir, sz) \<Rightarrow>
              if is_dir then do {
                path \<leftarrow> strcpy_into BUF_SZ (path @ ''/index.html'');
                case stat_of f path of
                  None \<Rightarrow> do { cn2 \<leftarrow> not_found now cn1; Some (0, cn2) }
                | Some (_, sz) \<Rightarrow> do { cn2 \<leftarrow> send_file f now path sz cn1; Some (0, cn2) }
              }
              else do { cn2 \<leftarrow> send_file f now path sz cn1; Some (0, cn2) })
   }"

text \<open>
  The loop of the child process over a connection. It ends with its first request, so one time
  is enough.
\<close>

partial_function (option) serve :: "fs \<Rightarrow> nat \<Rightarrow> conn \<Rightarrow> conn option" where
  "serve f now cn = do {
     (ret, cn1) \<leftarrow> handle_request f now cn;
     if ret = -1 \<or> ret = 0 then Some cn1 else serve f now cn1
   }"

section \<open>Reading a line\<close>

lemma read_line_loop_char:
  "\<lbrakk>input cn = c # cs; c \<noteq> NL; length pre < len\<rbrakk> \<Longrightarrow>
    read_line_loop cn (pre @ replicate (Suc k) NUL) len (length pre)
      = read_line_loop (cn\<lparr>input := cs\<rparr>) ((pre @ [c]) @ replicate k NUL) len (length (pre @ [c]))"
  by (subst read_line_loop.simps) (simp add: Let_def)

lemma read_line_loop_line:
  "\<lbrakk>input cn = l @ NL # r; NL \<notin> set l; length l < k; length pre + k = len\<rbrakk> \<Longrightarrow>
    read_line_loop cn (pre @ replicate k NUL) len (length pre)
      = Some (int (length pre + length l), pre @ l @ NL # replicate (k - length l - 1) NUL, cn\<lparr>input := r\<rparr>)"
proof (induction l arbitrary: cn pre k)
  case Nil
  then obtain k' where "k = Suc k'" by (cases k) auto
  with Nil show ?case by (subst read_line_loop.simps) (simp add: Let_def)
next
  case (Cons c l)
  then obtain k' where k: "k = Suc k'" by (cases k) auto
  have "read_line_loop cn (pre @ replicate k NUL) len (length pre)
      = read_line_loop (cn\<lparr>input := l @ NL # r\<rparr>) ((pre @ [c]) @ replicate k' NUL) len (length (pre @ [c]))"
    unfolding k by (rule read_line_loop_char) (use Cons.prems k in auto)
  then show ?case
    using Cons.IH [of "cn\<lparr>input := l @ NL # r\<rparr>" k' "pre @ [c]"] Cons.prems k by simp
qed

lemma read_line_line:
  assumes "input cn = l @ NL # r" "NL \<notin> set l" "length l < n"
  shows "read_line cn (replicate n NUL) n
    = Some (int (length l), l @ NL # replicate (n - length l - 1) NUL, cn\<lparr>input := r\<rparr>)"
  using read_line_loop_line [OF assms(1,2,3), of "[]" n] by (simp add: read_line_def)

text \<open>Without a newline in reach the result is 0 or -1, or the full buffer.\<close>

lemma read_line_loop_none:
  "\<lbrakk>NL \<notin> set (input cn); length (input cn) < k; length pre + k = len\<rbrakk> \<Longrightarrow>
    \<exists>buf. read_line_loop cn (pre @ replicate k NUL) len (length pre)
      = Some (if failing cn then -1 else 0, buf, cn\<lparr>input := []\<rparr>)"
proof (induction "input cn" arbitrary: cn pre k)
  case Nil
  then obtain k' where "k = Suc k'" by (cases k) auto
  with Nil show ?case by (subst read_line_loop.simps) (simp add: nth_append)
next
  case (Cons c cs)
  then obtain k' where k: "k = Suc k'" by (cases k) auto
  have "read_line_loop cn (pre @ replicate k NUL) len (length pre)
      = read_line_loop (cn\<lparr>input := cs\<rparr>) ((pre @ [c]) @ replicate k' NUL) len (length (pre @ [c]))"
    unfolding k by (rule read_line_loop_char) (use Cons.prems Cons.hyps(2) [symmetric] k in auto)
  then show ?case
    using Cons.hyps(1) [of "cn\<lparr>input := cs\<rparr>" k' "pre @ [c]"] Cons.prems Cons.hyps(2) [symmetric] k by simp
qed

lemma read_line_loop_full:
  "\<lbrakk>input cn = l @ r; NL \<notin> set l; length pre + length l = len\<rbrakk> \<Longrightarrow>
    read_line_loop cn (pre @ replicate (length l) NUL) len (length pre)
      = Some (int len, pre @ l, cn\<lparr>input := r\<rparr>)"
proof (induction l arbitrary: cn pre)
  case Nil
  then show ?case by (subst read_line_loop.simps) simp
next
  case (Cons c l)
  have "read_line_loop cn (pre @ replicate (length (c # l)) NUL) len (length pre)
      = read_line_loop (cn\<lparr>input := l @ r\<rparr>) ((pre @ [c]) @ replicate (length l) NUL) len (length (pre @ [c]))"
    unfolding list.size(4) add_Suc_right add_0_right
    by (rule read_line_loop_char) (use Cons.prems in auto)
  then show ?case using Cons.IH [of "cn\<lparr>input := l @ r\<rparr>" "pre @ [c]"] Cons.prems by simp
qed

lemma read_line_full:
  "\<lbrakk>input cn = l @ r; NL \<notin> set l; length l = n\<rbrakk> \<Longrightarrow>
    read_line cn (replicate n NUL) n = Some (int n, l, cn\<lparr>input := r\<rparr>)"
  using read_line_loop_full [of cn l r "[]" n] by (auto simp: read_line_def)

section \<open>The lines of a request\<close>

lemma words_of_snoc_delim: "c \<in> set d \<Longrightarrow> words_of d (s @ [c]) = words_of d s"
proof (induction "length s" arbitrary: s rule: less_induct)
  case less
  obtain ds w r where s: "s = ds @ w @ r" and ds: "set ds \<subseteq> set d" and w: "set w \<inter> set d = {}"
    and wr: "w = [] \<longrightarrow> r = []" and r: "r = [] \<or> (\<exists>c r'. r = c # r' \<and> c \<in> set d)"
    by (rule split_word [of s d])
  consider "w = []" | "w \<noteq> []" "r = []" | c' r' where "w \<noteq> []" "r = c' # r'" "c' \<in> set d" using r by blast
  then show ?case
  proof cases
    case 1
    then show ?thesis using s wr ds less.prems words_of_skip [of "ds @ [c]" d "[]"] words_of_skip [of ds d "[]"]
      by simp
  next
    case 2
    then show ?thesis using s ds w less.prems by (simp add: words_of_skip)
  next
    case 3
    then have "words_of d (r' @ [c]) = words_of d r'" using less s by simp
    then show ?thesis using 3 s ds w by (simp add: words_of_skip)
  qed
qed

lemma words_of_length: "t \<in> set (words_of d s) \<Longrightarrow> length t \<le> length s"
proof (induction "length s" arbitrary: s rule: less_induct)
  case less
  obtain ds w r where s: "s = ds @ w @ r" and ds: "set ds \<subseteq> set d" and w: "set w \<inter> set d = {}"
    and wr: "w = [] \<longrightarrow> r = []" and r: "r = [] \<or> (\<exists>c r'. r = c # r' \<and> c \<in> set d)"
    by (rule split_word [of s d])
  show ?case
  proof (cases "w = []")
    case True
    then show ?thesis using less.prems s wr ds words_of_skip [of ds d "[]"] by simp
  next
    case False
    then have "words_of d s = w # words_of d r" using s ds w r by (simp add: words_of_skip words_of_at_word)
    then show ?thesis using less.prems less.hyps [of r] s False by fastforce
  qed
qed

text \<open>The tokens of a line that is in the buffer.\<close>

lemma tokens_of_line:
  assumes "NUL \<notin> set l"
  shows "tok_wf (l @ NUL # post, Some 0) \<and> tok_rest d (l @ NUL # post, Some 0) = words_of d l"
  using cstr_at_append [OF assms, of "[]" 0 post] by (simp add: tok_wf_def tok_rest_def)

text \<open>What one line does to the loop.\<close>

definition line_ok :: "string \<Rightarrow> bool" where
  "line_ok l \<longleftrightarrow> l \<noteq> [] \<and> NL \<notin> set l \<and> NUL \<notin> set l \<and> length l + 1 < BUF_SZ"

lemma strcpy_into_bind: "length u < n \<Longrightarrow> (strcpy_into n u \<bind> g) = g u"
  by (simp add: strcpy_into_def)

lemma request_loop_line:
  assumes i: "input cn = l @ NL # r" and l: "line_ok l"
  shows "request_loop cn path = (case words_of WSP l of
      [] \<Rightarrow> Some (Inr path, cn\<lparr>input := r\<rparr>)
    | w # ws \<Rightarrow> if w = ''GET'' then (case ws of [] \<Rightarrow> None | u # _ \<Rightarrow> request_loop (cn\<lparr>input := r\<rparr>) (CHR ''.'' # u))
               else request_loop (cn\<lparr>input := r\<rparr>) path)"
proof -
  obtain k where k: "BUF_SZ - length l - 1 = Suc k"
    using l by (cases "BUF_SZ - length l - 1") (auto simp: line_ok_def)
  define header where "header = l @ NL # replicate (Suc k) NUL"
  have rd: "read_line cn (replicate BUF_SZ NUL) BUF_SZ = Some (int (length l), header, cn\<lparr>input := r\<rparr>)"
    using read_line_line [OF i, of BUF_SZ] l k by (simp add: line_ok_def header_def)
  have ne: "int (length l) \<noteq> -1" "int (length l) \<noteq> 0" using l by (simp_all add: line_ok_def)
  have "header = (l @ [NL]) @ NUL # replicate k NUL" by (simp add: header_def)
  moreover have "NUL \<notin> set (l @ [NL])" using l by (simp add: line_ok_def)
  ultimately have st: "tok_wf (header, Some 0)" "tok_rest WSP (header, Some 0) = words_of WSP l"
    using tokens_of_line [of "l @ [NL]" "replicate k NUL" WSP] words_of_snoc_delim [of NL WSP l]
    by (simp_all add: WSP_def)
  show ?thesis
  proof (cases "words_of WSP l")
    case Nil
    with nt.next_Nil [OF st(1)] st(2) obtain st1 where
      "next_token_str WSP (header, Some 0) = Some (st1, None)" by metis
    then show ?thesis using rd ne Nil by (subst request_loop.simps) simp
  next
    case (Cons w ws)
    obtain st1 where
      1: "next_token_str WSP (header, Some 0) = Some (st1, Some w)" "tok_wf st1" "tok_rest WSP st1 = ws"
      using nt.next_Cons [OF st(1), of WSP w ws] st(2) Cons by metis
    show ?thesis
    proof (cases "w = ''GET''")
      case False
      then show ?thesis using rd ne 1 Cons by (subst request_loop.simps) simp
    next
      case True
      show ?thesis
      proof (cases ws)
        case Nil
        obtain st2 where "next_token_str WSP st1 = Some (st2, None)"
          using nt.next_Nil [OF 1(2), of WSP] 1(3) Nil by metis
        then show ?thesis using rd ne 1 Cons True Nil by (subst request_loop.simps) simp
      next
        case u: (Cons u us)
        obtain st2 where 2: "next_token_str WSP st1 = Some (st2, Some u)"
          using nt.next_Cons [OF 1(2), of WSP u us] 1(3) u by metis
        have "length u \<le> length l" using words_of_length [of u WSP l] Cons u by simp
        moreover have "length l + 1 < BUF_SZ" using l by (simp add: line_ok_def)
        ultimately have "length u < BUF_SZ - 1" by arith
        then show ?thesis using rd ne 1 2 Cons True u by (subst request_loop.simps) (simp add: strcpy_into_bind)
      qed
    qed
  qed
qed

section \<open>A request and its response\<close>

text \<open>The lines of a request without their ends; the path that the last GET line asks for.\<close>

definition good_line :: "string \<Rightarrow> bool" where
  "good_line l \<longleftrightarrow> NL \<notin> set l \<and> NUL \<notin> set l \<and> length l + 16 \<le> BUF_SZ \<and> words_of WSP l \<noteq> []
     \<and> (hd (words_of WSP l) = ''GET'' \<longrightarrow> tl (words_of WSP l) \<noteq> [])"

definition path_after :: "string \<Rightarrow> string \<Rightarrow> string" where
  "path_after path l =
     (if hd (words_of WSP l) = ''GET'' then CHR ''.'' # hd (tl (words_of WSP l)) else path)"

definition request_text :: "string list \<Rightarrow> string" where
  "request_text ls = concat (map (\<lambda>l. l @ CRLF) ls) @ CRLF"

lemma request_loop_lines_then:
  "\<lbrakk>\<forall>l \<in> set ls. good_line l; input cn = concat (map (\<lambda>l. l @ CRLF) ls) @ r\<rbrakk> \<Longrightarrow>
    request_loop cn path = request_loop (cn\<lparr>input := r\<rparr>) (foldl path_after path ls)"
proof (induction ls arbitrary: cn path)
  case Nil
  then have "cn\<lparr>input := r\<rparr> = cn" by (cases cn) simp
  then show ?case by simp
next
  case (Cons l ls)
  have l: "good_line l" using Cons.prems(1) by simp
  then have ok: "line_ok (l @ [CR])" by (simp add: good_line_def line_ok_def)
  have w: "words_of WSP (l @ [CR]) = words_of WSP l" by (rule words_of_snoc_delim) (simp add: WSP_def)
  define r' where "r' = concat (map (\<lambda>l. l @ CRLF) ls) @ r"
  have i: "input cn = (l @ [CR]) @ NL # r'" using Cons.prems(2) by (simp add: CRLF_def r'_def)
  obtain v vs where v: "words_of WSP l = v # vs" using l by (cases "words_of WSP l") (auto simp: good_line_def)
  have "request_loop cn path = request_loop (cn\<lparr>input := r'\<rparr>) (path_after path l)"
    using request_loop_line [OF i ok, of path] l v w by (cases vs) (auto simp: path_after_def good_line_def)
  then show ?case using Cons.IH [of "cn\<lparr>input := r'\<rparr>"] Cons.prems(1) by (simp add: r'_def)
qed

lemma request_loop_lines:
  assumes "\<forall>l \<in> set ls. good_line l" "input cn = request_text ls @ r"
  shows "request_loop cn path = Some (Inr (foldl path_after path ls), cn\<lparr>input := r\<rparr>)"
proof -
  have "line_ok [CR]" "words_of WSP [CR] = []" by (simp_all add: line_ok_def BUF_SZ_def WSP_def)
  then show ?thesis
    using request_loop_lines_then [OF assms(1), of cn "CRLF @ r" path] assms(2)
      request_loop_line [of "cn\<lparr>input := CRLF @ r\<rparr>" "[CR]" r "foldl path_after path ls"]
    by (simp add: request_text_def CRLF_def)
qed

lemma path_length:
  "\<lbrakk>\<forall>l \<in> set ls. good_line l; length p + 12 \<le> BUF_SZ\<rbrakk> \<Longrightarrow> length (foldl path_after p ls) + 12 \<le> BUF_SZ"
proof (induction ls arbitrary: p)
  case (Cons l ls)
  obtain v vs where v: "words_of WSP l = v # vs"
    using Cons.prems(1) by (cases "words_of WSP l") (auto simp: good_line_def)
  have "length u \<le> length l" if "vs = u # us" for u us
    using words_of_length [of u WSP l] v that by simp
  then have "length (path_after p l) + 12 \<le> BUF_SZ"
    using Cons.prems v by (cases vs) (auto simp: path_after_def good_line_def)
  then show ?case using Cons by simp
qed simp

text \<open>The file that a path denotes, and a whole response.\<close>

definition resolve :: "fs \<Rightarrow> string \<Rightarrow> (string \<times> nat) option" where
  "resolve f path = (case stat_of f path of
      None \<Rightarrow> None
    | Some (is_dir, sz) \<Rightarrow>
        if is_dir then map_option (\<lambda>(_, sz). (path @ ''/index.html'', sz)) (stat_of f (path @ ''/index.html''))
        else Some (path, sz))"

definition http_response :: "string \<Rightarrow> string \<Rightarrow> string \<Rightarrow> string" where
  "http_response status date body = ''HTTP/1.1 '' @ status @ CRLF @ ''Date: '' @ date @ CRLF
     @ ''Content-Length: '' @ show_nat (length body) @ CRLF @ CRLF @ body"

text \<open>What \<open>stat\<close> says is what \<open>open\<close> and \<open>sendfile\<close> find, for the files that are served.\<close>

definition fs_ok :: "fs \<Rightarrow> bool" where
  "fs_ok f \<longleftrightarrow> (\<forall>path p sz. resolve f path = Some (p, sz) \<longrightarrow> (\<exists>c. contents f p = Some c \<and> length c = sz))"

lemma http_200:
  "\<lbrakk>contents f p = Some c; length c = sz; before_10000 now\<rbrakk> \<Longrightarrow>
    \<exists>cn'. send_file f now p sz cn = Some cn' \<and> input cn' = input cn
      \<and> concat (sent cn') = concat (sent cn) @ http_response ''200 OK'' (stamp_text (gmtime now)) c"
  by (simp add: send_file_def send_def http_response_def Let_def generate_timestamp_eq)

lemma http_404:
  "before_10000 now \<Longrightarrow> \<exists>cn'. not_found now cn = Some cn' \<and> input cn' = input cn
    \<and> concat (sent cn') = concat (sent cn) @ http_response ''404 Not Found'' (stamp_text (gmtime now)) ''404 Not Found''"
  by (simp add: not_found_def send_def http_response_def Let_def generate_timestamp_eq)

text \<open>The response to the lines of a request.\<close>

definition answer :: "fs \<Rightarrow> string \<Rightarrow> string list \<Rightarrow> string" where
  "answer f date ls = (case resolve f (foldl path_after [] ls) of
      None \<Rightarrow> http_response ''404 Not Found'' date ''404 Not Found''
    | Some (p, _) \<Rightarrow> http_response ''200 OK'' date (the (contents f p)))"

lemma serve_request:
  assumes ls: "\<forall>l \<in> set ls. good_line l" and i: "input cn = request_text ls @ r" and f: "fs_ok f"
    and now: "before_10000 now"
  shows "\<exists>cn'. serve f now cn = Some cn' \<and> input cn' = r
    \<and> concat (sent cn') = concat (sent cn) @ answer f (stamp_text (gmtime now)) ls"
proof -
  define path where "path = foldl path_after [] ls"
  define cn1 where "cn1 = cn\<lparr>input := r\<rparr>"
  let ?d = "stamp_text (gmtime now)"
  have r: "request_loop cn [] = Some (Inr path, cn1)"
    using request_loop_lines [OF ls i, of "[]"] by (simp add: path_def cn1_def)
  have len: "strcpy_into BUF_SZ (path @ ''/index.html'') = Some (path @ ''/index.html'')"
    using path_length [OF ls, of "[]"] by (simp add: path_def BUF_SZ_def)
  have "\<exists>cn'. handle_request f now cn = Some (0, cn') \<and> input cn' = input cn1
      \<and> concat (sent cn') = concat (sent cn1) @ answer f ?d ls"
  proof (cases "resolve f path")
    case None
    obtain cn' where "not_found now cn1 = Some cn'" "input cn' = input cn1"
      "concat (sent cn') = concat (sent cn1) @ http_response ''404 Not Found'' ?d ''404 Not Found''"
      using http_404 [OF now, of cn1] by blast
    moreover from this(1) None have "handle_request f now cn = Some (0, cn')"
      by (auto simp: handle_request_def r len resolve_def split: option.splits if_splits)
    ultimately show ?thesis using None by (simp add: answer_def path_def)
  next
    case (Some q)
    obtain p sz where q: "q = (p, sz)" by (cases q)
    obtain c where c: "contents f p = Some c" "length c = sz" using f Some unfolding q fs_ok_def by blast
    obtain cn' where "send_file f now p sz cn1 = Some cn'" "input cn' = input cn1"
      "concat (sent cn') = concat (sent cn1) @ http_response ''200 OK'' ?d c"
      using http_200 [OF c now, of cn1] by blast
    moreover from this(1) Some have "handle_request f now cn = Some (0, cn')"
      by (auto simp: q handle_request_def r len resolve_def split: option.splits if_splits)
    ultimately show ?thesis using Some q c by (simp add: answer_def path_def)
  qed
  then obtain cn' where "handle_request f now cn = Some (0, cn')" "input cn' = r"
    "concat (sent cn') = concat (sent cn) @ answer f ?d ls" by (auto simp: cn1_def)
  then show ?thesis by (subst serve.simps) simp
qed

text \<open>
  C11: A connection whose client sends a well-formed request is answered with exactly one response
  and then closed: \<open>200 OK\<close> with the size and the bytes of the file that the last GET line names
  below the directory of the server (its \<open>index.html\<close> for a directory), and \<open>404 Not Found\<close> when
  there is none, each with the time of the response in its \<open>Date\<close> line. What the client
  sends behind the request is not read.
\<close>

theorem request_answered:
  assumes ls: "\<forall>l \<in> set ls. good_line l" and i: "input cn = request_text ls @ r" and f: "fs_ok f"
    and now: "before_10000 now"
  shows "\<exists>cn' date. serve f now cn = Some cn' \<and> input cn' = r \<and> stamp_time date = Some now
    \<and> concat (sent cn') = concat (sent cn)
    @ (case resolve f (foldl path_after [] ls) of
         None \<Rightarrow> http_response ''404 Not Found'' date ''404 Not Found''
       | Some (p, _) \<Rightarrow> http_response ''200 OK'' date (the (contents f p)))"
  using serve_request [OF assms] stamp_time_text [OF now] unfolding answer_def by blast

text \<open>A directory with one file.\<close>

definition demo_fs :: fs where
  "demo_fs = \<lparr>stat_of = (\<lambda>p. if p = ''./d'' then Some (True, 0) else if p = ''./d/index.html'' then Some (False, 5) else None),
     contents = (\<lambda>p. if p = ''./d/index.html'' then Some ''hello'' else None)\<rparr>"

lemma request_answered_witness:
  "\<exists>cn' date. serve demo_fs 784111777 \<lparr>input = request_text [''GET /d HTTP/1.1'', ''Host: me''], failing = False, sent = []\<rparr> = Some cn'
    \<and> stamp_time date = Some 784111777 \<and> concat (sent cn') = http_response ''200 OK'' date ''hello''"
proof -
  have w: "words_of WSP ''GET /d HTTP/1.1'' = [''GET'', ''/d'', ''HTTP/1.1'']" "words_of WSP ''Host: me'' = [''Host:'', ''me'']"
    by (simp_all add: WSP_def words_of.simps)
  have "fs_ok demo_fs"
    by (auto simp: fs_ok_def demo_fs_def resolve_def split: if_splits)
  moreover have "\<forall>l \<in> set [''GET /d HTTP/1.1'', ''Host: me'']. good_line l"
    by (simp add: good_line_def w BUF_SZ_def)
  ultimately show ?thesis
    using request_answered [of "[''GET /d HTTP/1.1'', ''Host: me'']" "\<lparr>input = request_text [''GET /d HTTP/1.1'', ''Host: me''], failing = False, sent = []\<rparr>" "[]" demo_fs 784111777]
    by (auto simp: path_after_def w resolve_def demo_fs_def before_10000_def)
qed

section \<open>Requests that are not well-formed\<close>

lemma request_loop_empty_line:
  "input cn = NL # r \<Longrightarrow> request_loop cn path = Some (Inl 0, cn\<lparr>input := r\<rparr>)"
  using read_line_line [of cn "[]" r BUF_SZ] by (subst request_loop.simps) (simp add: BUF_SZ_def)

text \<open>A first token and a second one that runs off the buffer.\<close>

lemma get_overrun:
  assumes "u \<noteq> []" "set u \<inter> set (NUL # WSP) = {}"
  shows "\<exists>st. next_token_str WSP (''GET '' @ u, Some 0) = Some (st, Some ''GET'') \<and> next_token_str WSP st = None"
proof -
  have all: "x \<notin> set WSP \<and> x \<noteq> NUL" if "x \<in> set u" for x using assms(2) that by auto
  have "takeWhile (\<lambda>c. c \<notin> set WSP \<and> c \<noteq> NUL) u = u" unfolding takeWhile_eq_all_conv using all by blast
  moreover have "hd u \<notin> set WSP" using all assms(1) by (cases u) auto
  ultimately have "next_token (''GET'' @ NUL # u) (Some 4) WSP = None"
    using assms(1) by (cases u) (auto simp: next_token_def strspn_at_def strcspn_at_def scan_at_def)
  moreover have "next_token (''GET '' @ u) (Some 0) WSP = Some (''GET'' @ NUL # u, Some 4, Some 0)"
    by (simp add: next_token_def strspn_at_def strcspn_at_def scan_at_def WSP_def eval_nat_numeral)
  ultimately show ?thesis
    using cstr_at_append [of "''GET''" "[]" 0 u] by (simp add: next_token_str_def)
qed

text \<open>
  C40: Behind any number of well-formed lines: an empty line that ends in a newline only, the end
  of the input and a read error close the connection without a response; a GET line without
  a path passes NULL to \<open>strcpy\<close>; a GET line whose path reaches the end of the buffer leaves it
  without a terminating NUL, and the tokenizer reads behind it.
\<close>

theorem malformed_requests:
  assumes ls: "\<forall>l \<in> set ls. good_line l"
    and i: "input cn = concat (map (\<lambda>l. l @ CRLF) ls) @ t"
  shows "(t = NL # r \<longrightarrow> serve f now cn = Some (cn\<lparr>input := r\<rparr>))
    \<and> (NL \<notin> set t \<and> length t < BUF_SZ \<longrightarrow> serve f now cn = Some (cn\<lparr>input := []\<rparr>))
    \<and> (t = l @ CRLF @ r \<and> words_of WSP l = [''GET''] \<and> line_ok (l @ [CR]) \<longrightarrow> serve f now cn = None)
    \<and> (t = ''GET '' @ u @ r \<and> length u + 4 = BUF_SZ \<and> set u \<inter> set (NUL # WSP) = {} \<longrightarrow> serve f now cn = None)"
proof (intro conjI impI)
  note loop = request_loop_lines_then [OF ls i, of "[]"]
  let ?p = "foldl path_after [] ls" and ?c = "cn\<lparr>input := t\<rparr>"
  {
    assume "t = NL # r"
    then show "serve f now cn = Some (cn\<lparr>input := r\<rparr>)"
      using loop request_loop_empty_line [of ?c r ?p] by (subst serve.simps) (simp add: handle_request_def)
  next
    assume t: "NL \<notin> set t \<and> length t < BUF_SZ"
    obtain buf where "read_line ?c (replicate BUF_SZ NUL) BUF_SZ = Some (if failing cn then -1 else 0, buf, cn\<lparr>input := []\<rparr>)"
      using read_line_loop_none [of ?c BUF_SZ "[]" BUF_SZ] t by (auto simp: read_line_def)
    then have "request_loop ?c ?p = Some (Inl (if failing cn then -1 else 0), cn\<lparr>input := []\<rparr>)"
      by (subst request_loop.simps) simp
    then show "serve f now cn = Some (cn\<lparr>input := []\<rparr>)"
      using loop by (subst serve.simps) (simp add: handle_request_def)
  next
    assume t: "t = l @ CRLF @ r \<and> words_of WSP l = [''GET''] \<and> line_ok (l @ [CR])"
    then have "words_of WSP (l @ [CR]) = [''GET'']" by (subst words_of_snoc_delim) (simp_all add: WSP_def)
    then have "request_loop ?c ?p = None"
      using request_loop_line [of ?c "l @ [CR]" r ?p] t by (simp add: CRLF_def)
    then show "serve f now cn = None" using loop by (subst serve.simps) (simp add: handle_request_def)
  next
    assume t: "t = ''GET '' @ u @ r \<and> length u + 4 = BUF_SZ \<and> set u \<inter> set (NUL # WSP) = {}"
    then have rd: "read_line ?c (replicate BUF_SZ NUL) BUF_SZ = Some (int BUF_SZ, ''GET '' @ u, cn\<lparr>input := r\<rparr>)"
      using read_line_full [of ?c "''GET '' @ u" r BUF_SZ] by (auto simp: WSP_def)
    have u: "u \<noteq> []" "set u \<inter> set (NUL # WSP) = {}" using t by (auto simp: BUF_SZ_def)
    then have "request_loop ?c ?p = None"
      using rd get_overrun [OF u] by (subst request_loop.simps) (auto simp: BUF_SZ_def)
    then show "serve f now cn = None" using loop by (subst serve.simps) (simp add: handle_request_def)
  }
qed

lemma malformed_requests_witness:
  "serve demo_fs 784111777 \<lparr>input = ''GET'' @ CRLF, failing = False, sent = []\<rparr> = None
    \<and> serve demo_fs 784111777 \<lparr>input = [NL], failing = False, sent = []\<rparr> = Some \<lparr>input = [], failing = False, sent = []\<rparr>"
proof -
  have "words_of WSP ''GET'' = [''GET'']" by (simp add: WSP_def words_of.simps)
  moreover have "line_ok (''GET'' @ [CR])" by (simp add: line_ok_def BUF_SZ_def)
  ultimately show ?thesis
    using malformed_requests [of "[]" "\<lparr>input = ''GET'' @ CRLF, failing = False, sent = []\<rparr>" "''GET'' @ CRLF" "[]" demo_fs 784111777 "''GET''"]
      malformed_requests [of "[]" "\<lparr>input = [NL], failing = False, sent = []\<rparr>" "[NL]" "[]" demo_fs 784111777 "[]"]
    by simp
qed

end
