(* ===== verification/Sockets.thy ===== *)
theory Sockets
  imports C_Prelude
begin

text \<open>
  What the two servers, Project4/www.c and LabWork/Lab11/server.c, see of the network: whether the
  calls of their set-up succeed, and the results of \<open>accept\<close>, one after the other.
\<close>

record net =
  socket_ok :: bool
  bind_ok :: bool
  listen_ok :: bool

datatype 'a arrival = Arrives 'a | Accept_fails

text \<open>The set-up: a server that gets through it listens, otherwise it returns 1.\<close>

definition listening :: "net \<Rightarrow> bool" where
  "listening nt \<longleftrightarrow> socket_ok nt \<and> bind_ok nt \<and> listen_ok nt"

end
