(* ===== verification/Www_Main.thy ===== *)
theory Www_Main
  imports Www Sockets
begin

text \<open>
  \<open>main\<close> of the web server, Project4/www.c: the set-up, and the loop that accepts connections and forks
  a process for each.
\<close>

record www_env =
  www_net :: net
  www_chdir_ok :: bool
  www_fork_ok :: "nat \<Rightarrow> bool"
  www_fs :: fs
  www_time :: "nat \<Rightarrow> nat"

text \<open>
  The loop: the status of the process, if it ends, and its children. \<open>socket_open\<close> says whether
  \<open>socket_fd\<close> is open in this process: a child closes it, serves its connection, and goes on to the
  next call of \<open>accept\<close>.
\<close>

fun accept_loop :: "www_env \<Rightarrow> bool \<Rightarrow> nat \<Rightarrow> conn arrival list \<Rightarrow> int option \<times> (int option \<times> conn) option list" where
  "accept_loop e False n r = (Some 1, [])"
| "accept_loop e True n [] = (None, [])"
| "accept_loop e True n (Accept_fails # r) = (Some 1, [])"
| "accept_loop e True n (Arrives cn # r) =
     (if \<not> www_fork_ok e n then (Some 1, [])
      else let child = do {
                 cn1 \<leftarrow> serve (www_fs e) (www_time e n) cn;
                 Some (fst (accept_loop e False (n + 1) r), cn1)
               };
               (status, children) = accept_loop e True (n + 1) r in
        (status, child # children))"

definition www_main :: "www_env \<Rightarrow> string list \<Rightarrow> conn arrival list \<Rightarrow> int option \<times> (int option \<times> conn) option list" where
  "www_main e argv arrivals =
     (if length argv \<noteq> 3 then (Some 1, [])
      else if \<not> listening (www_net e) then (Some 1, [])
      else if \<not> www_chdir_ok e then (Some 1, [])
      else accept_loop e True 0 arrivals)"

text \<open>Each failure of the set-up ends the server with the status 1, before anything is accepted.\<close>

lemma www_setup:
  "\<lbrakk>length argv \<noteq> 3 \<or> \<not> socket_ok (www_net e) \<or> \<not> bind_ok (www_net e) \<or> \<not> listen_ok (www_net e) \<or> \<not> www_chdir_ok e\<rbrakk> \<Longrightarrow>
   www_main e argv arrivals = (Some 1, [])"
  by (auto simp: www_main_def listening_def)

section \<open>The connections are independent\<close>

definition www_child :: "www_env \<Rightarrow> nat \<Rightarrow> conn \<Rightarrow> (int option \<times> conn) option" where
  "www_child e n cn = map_option (Pair (Some 1)) (serve (www_fs e) (www_time e n) cn)"

lemma accept_loop_children:
  "\<forall>k < length cns. www_fork_ok e (n + k) \<Longrightarrow> accept_loop e True n (map Arrives cns @ r) =
    (let (status, children) = accept_loop e True (n + length cns) r in
     (status, map (\<lambda>k. www_child e (n + k) (cns ! k)) [0..<length cns] @ children))"
proof (induction cns arbitrary: n)
  case (Cons cn cns)
  have "www_fork_ok e n" using Cons.prems by (metis add_0_right length_greater_0_conv list.distinct(1))
  moreover have "\<forall>k < length cns. www_fork_ok e (Suc n + k)"
    using Cons.prems by (metis Suc_mono add_Suc_shift length_Cons)
  moreover have "map (\<lambda>k. www_child e (n + k) ((cn # cns) ! k)) [0..<length (cn # cns)] =
      www_child e n cn # map (\<lambda>k. www_child e (Suc n + k) (cns ! k)) [0..<length cns]"
    by (rule nth_equalityI) (auto simp: nth_Cons split: nat.split simp del: upt_Suc)
  moreover have "(do { cn1 \<leftarrow> serve (www_fs e) (www_time e n) cn; Some (Some 1, cn1) }) = www_child e n cn"
    by (simp add: www_child_def map_option_case split: option.splits)
  ultimately show ?case using Cons.IH [of "Suc n"] by (simp add: case_prod_beta Let_def del: upt_Suc)
qed simp

definition well_formed :: "conn \<Rightarrow> string list \<Rightarrow> string \<Rightarrow> bool" where
  "well_formed cn ls r \<longleftrightarrow> (\<forall>l \<in> set ls. good_line l) \<and> input cn = request_text ls @ r"

text \<open>
  A server that has come through its set-up gives every connection a process of its own: whatever
  the clients before and after it send, a client that sends a well-formed request gets exactly
  its response, and the process that answered it ends with the status 1, because its next call of
  \<open>accept\<close> is on the socket that it has closed.
\<close>

theorem server_answers_each:
  assumes "length argv = 3" "listening (www_net e)" "www_chdir_ok e" "\<forall>k < length cns. www_fork_ok e k"
    and "k < length cns" "well_formed (cns ! k) ls r" "sent (cns ! k) = []" "fs_ok (www_fs e)" "before_10000 (www_time e k)"
  shows "(\<exists>cn' date. snd (www_main e argv (map Arrives cns @ rest)) ! k = Some (Some 1, cn') \<and> input cn' = r
      \<and> stamp_time date = Some (www_time e k) \<and> concat (sent cn') = answer (www_fs e) date ls)
    \<and> fst (www_main e argv (map Arrives cns)) = None"
proof -
  let ?d = "stamp_text (gmtime (www_time e k))"
  obtain cn' where "serve (www_fs e) (www_time e k) (cns ! k) = Some cn'" "input cn' = r"
    "concat (sent cn') = answer (www_fs e) ?d ls"
    using serve_request [of ls "cns ! k" r "www_fs e" "www_time e k"] assms(6-9)
    unfolding well_formed_def by auto
  then have "\<exists>cn' date. www_child e k (cns ! k) = Some (Some 1, cn') \<and> input cn' = r
      \<and> stamp_time date = Some (www_time e k) \<and> concat (sent cn') = answer (www_fs e) date ls"
    using stamp_time_text [OF assms(9)] by (auto simp: www_child_def)
  then show ?thesis
    using accept_loop_children [of cns e 0 rest] accept_loop_children [of cns e 0 "[]"] assms(1-5)
    by (simp add: www_main_def case_prod_beta Let_def nth_append)
qed

theorem server_answers_each_witness:
  "\<exists>cn' date. snd (www_main \<lparr>www_net = \<lparr>socket_ok = True, bind_ok = True, listen_ok = True\<rparr>, www_chdir_ok = True,
      www_fork_ok = (\<lambda>_. True), www_fs = demo_fs, www_time = (\<lambda>_. 784111777)\<rparr> [''www'', ''80'', ''d'']
      [Arrives \<lparr>input = [], failing = True, sent = []\<rparr>,
       Arrives \<lparr>input = request_text [''GET /d HTTP/1.1''], failing = False, sent = []\<rparr>]) ! 1 = Some (Some 1, cn')
    \<and> stamp_time date = Some 784111777 \<and> concat (sent cn') = http_response ''200 OK'' date ''hello''"
proof -
  let ?c = "\<lparr>input = request_text [''GET /d HTTP/1.1''], failing = False, sent = []\<rparr>"
  let ?cs = "[\<lparr>input = [], failing = True, sent = []\<rparr>, ?c]"
  let ?e = "\<lparr>www_net = \<lparr>socket_ok = True, bind_ok = True, listen_ok = True\<rparr>, www_chdir_ok = True,
      www_fork_ok = (\<lambda>_. True), www_fs = demo_fs, www_time = (\<lambda>_. 784111777)\<rparr>"
  have w: "words_of WSP ''GET /d HTTP/1.1'' = [''GET'', ''/d'', ''HTTP/1.1'']" by code_simp
  then have "well_formed (?cs ! 1) [''GET /d HTTP/1.1''] []"
    by (simp add: well_formed_def good_line_def BUF_SZ_def)
  moreover have "answer demo_fs date [''GET /d HTTP/1.1''] = http_response ''200 OK'' date ''hello''" for date
    by (simp add: answer_def path_after_def w resolve_def demo_fs_def)
  moreover have "fs_ok demo_fs"
    by (auto simp: fs_ok_def resolve_def demo_fs_def split: option.splits if_splits)
  ultimately show ?thesis
    using server_answers_each [of "[''www'', ''80'', ''d'']" ?e ?cs 1 "[''GET /d HTTP/1.1'']" "[]" "[]"]
    by (auto simp: listening_def before_10000_def)
qed

end
