(* ===== verification/Inspector.thy ===== *)
theory Inspector
  imports Complex_Main Tokens "HOL-Library.Signed_Division"
begin

text \<open>
  The system inspector, Project1/inspector.c: its options, the way it gets a field out of a file
  of /proc, and the four sections of its report.

  The files are a parameter: what the n-th \<open>open\<close> of the program finds under a name, since two
  samples of the same file differ. A \<open>read\<close> delivers the file up to its count; the array behind
  it keeps what it held, at first whatever was on the stack. Floating point numbers are rationals
  here, and a conversion of a number that does not fit \<open>int\<close> has no defined result, nor has an
  \<open>int\<close> that overflows. The report is a list of its lines with the values that are printed.
\<close>

section \<open>Numbers\<close>

text \<open>The conversion of a floating point number: towards zero.\<close>

definition trunc_int :: "rat \<Rightarrow> int option" where
  "trunc_int q = to_int (if 0 \<le> q then \<lfloor>q\<rfloor> else \<lceil>q\<rceil>)"

definition divide_float :: "rat \<Rightarrow> rat \<Rightarrow> rat option" where
  "divide_float a b = (if b = 0 then None else Some (a / b))"

definition show_int :: "int \<Rightarrow> string" where
  "show_int n = (if n < 0 then CHR ''-'' # show_nat (nat (- n)) else show_nat (nat n))"

section \<open>\<open>printUptime\<close> and \<open>printProgress\<close>\<close>

text \<open>The units that are printed, each with its number.\<close>

datatype unit_name = Years | Days | Hours | Minutes | Seconds

definition printUptime :: "int \<Rightarrow> (int \<times> unit_name) list" where
  "printUptime t =
     (if t > 86400 * 365 then
        let years = t div (60 * 60 * 24 * 365);
            t = t - years * (60 * 60 * 24 * 365);
            days = (t mod (86400 * 30)) div 86400;
            hours = (t mod 86400) div 3600;
            minutes = (t mod 3600) div 60;
            seconds = t mod 60 in
        if days = 0 \<and> hours = 0 then [(years, Years), (minutes, Minutes), (seconds, Seconds)]
        else [(years, Years), (days, Days), (hours, Hours), (minutes, Minutes), (seconds, Seconds)]
      else if t > 3600 * 24 then
        let days = (t mod (86400 * 30)) div 86400;
            hours = (t mod 86400) div 3600;
            minutes = (t mod 3600) div 60;
            seconds = t mod 60 in
        [(days, Days), (hours, Hours), (minutes, Minutes), (seconds, Seconds)]
      else if t > 3600 then
        let hours = (t mod 86400) div 3600;
            minutes = (t mod 3600) div 60;
            seconds = t mod 60 in
        [(hours, Hours), (minutes, Minutes), (seconds, Seconds)]
      else if t > 60 then
        let minutes = (t mod 3600) div 60;
            seconds = t mod 60 in
        [(minutes, Minutes), (seconds, Seconds)]
      else [(t smod 60, Seconds)])"

definition printProgress :: "int \<Rightarrow> int \<Rightarrow> string" where
  "printProgress n progressRange =
     ''['' @ map (\<lambda>i. if i < n then CHR ''#'' else CHR ''-'') [0..progressRange - 1] @ ''] ''"

section \<open>\<open>getNextTok\<close>\<close>

text \<open>
  The loop that looks for the key: at most 10001 tokens, each of which is compared with the key
  (and so must not be NULL); then \<open>k\<close> tokens are skipped.
\<close>

fun find_key :: "nat \<Rightarrow> string \<Rightarrow> string \<Rightarrow> tok_state \<Rightarrow> tok_state option" where
  "find_key 0 sep str st = Some st"
| "find_key (Suc n) sep str st = do {
     (st', curr_tok) \<leftarrow> next_token_str sep st;
     t \<leftarrow> curr_tok;
     if t = str then Some st' else find_key n sep str st'
   }"

fun skip_toks :: "nat \<Rightarrow> string \<Rightarrow> tok_state \<Rightarrow> tok_state option" where
  "skip_toks 0 sep st = Some st"
| "skip_toks (Suc k) sep st = do { (st', _) \<leftarrow> next_token_str sep st; skip_toks k sep st' }"

definition getNextTok :: "buffer \<Rightarrow> string \<Rightarrow> string \<Rightarrow> nat \<Rightarrow> (tok_state \<times> string option) option" where
  "getNextTok buff sep str nextTok =
     (if str = ''NONE'' then next_token_str sep (buff, Some 0)
      else do {
        st1 \<leftarrow> find_key 10001 sep str (buff, Some 0);
        st2 \<leftarrow> skip_toks nextTok sep st1;
        next_token_str sep st2
      })"

section \<open>The state and the environment\<close>

datatype line =
    Cwd
  | System string string "(int \<times> unit_name) list"
  | Hardware string string string
  | Cpu_usage string rat
  | Memory_usage string rat rat
  | Tasks nat string string string
  | Task_header
  | Task_row int string string string string

record insp =
  opens :: nat
  buf :: buffer
  report :: "line list"

record proc_env =
  open_file :: "nat \<Rightarrow> string \<Rightarrow> string option"
  listing :: "string \<Rightarrow> (string \<times> bool) list option"
  user_name :: "int \<Rightarrow> string option"
  cwd_ok :: bool
  stack :: buffer

text \<open>A part of \<open>main\<close>: it goes on with a value, or \<open>main\<close> returns with a code.\<close>

type_synonym 'a run = "insp \<Rightarrow> ((int + 'a) \<times> insp) option"

definition ret :: "'a \<Rightarrow> 'a run" where
  "ret x s = Some (Inr x, s)"

definition quit :: "int \<Rightarrow> 'a run" where
  "quit code s = Some (Inl code, s)"

definition undef :: "'a run" where
  "undef s = None"

definition bind_run :: "'a run \<Rightarrow> ('a \<Rightarrow> 'b run) \<Rightarrow> 'b run" where
  "bind_run m f s = do {
     (r, s1) \<leftarrow> m s;
     case r of Inl code \<Rightarrow> Some (Inl code, s1) | Inr x \<Rightarrow> f x s1
   }"

definition lift :: "'a option \<Rightarrow> 'a run" where
  "lift x = (case x of None \<Rightarrow> undef | Some y \<Rightarrow> ret y)"

definition print :: "line \<Rightarrow> unit run" where
  "print l s = Some (Inr (), s\<lparr>report := report s @ [l]\<rparr>)"

definition EXIT_FAILURE :: int where
  "EXIT_FAILURE = 1"

section \<open>A field of a file\<close>

text \<open>
  The block that the sections repeat: \<open>open\<close>, \<open>read\<close> of at most \<open>n\<close> bytes, \<open>getNextTok\<close>, and
  what is done with the token (a \<open>strcpy\<close>). The result is \<open>None\<close> when the file cannot be opened.
\<close>

definition read_into :: "string \<Rightarrow> buffer \<Rightarrow> buffer" where
  "read_into c b = c @ drop (length c) b"

definition read_field ::
  "proc_env \<Rightarrow> string \<Rightarrow> nat \<Rightarrow> string \<Rightarrow> string \<Rightarrow> nat \<Rightarrow> (string \<Rightarrow> 'a option) \<Rightarrow> 'a option run" where
  "read_field env file n sep str k copy s =
     (case open_file env (opens s) file of
        None \<Rightarrow> Some (Inr None, s\<lparr>opens := opens s + 1\<rparr>)
      | Some c \<Rightarrow> do {
          (st, tok) \<leftarrow> getNextTok (read_into (take n c) (buf s)) sep str k;
          t \<leftarrow> tok;
          v \<leftarrow> copy t;
          Some (Inr (Some v), s\<lparr>opens := opens s + 1, buf := fst st\<rparr>)
        })"

text \<open>The variants of its end: without the file \<open>main\<close> returns, or the array keeps its value.\<close>

definition need :: "'a option run \<Rightarrow> 'a run" where
  "need m = bind_run m (\<lambda>r. case r of None \<Rightarrow> quit EXIT_FAILURE | Some x \<Rightarrow> ret x)"

definition keep :: "'a \<Rightarrow> 'a option run \<Rightarrow> 'a run" where
  "keep old m = bind_run m (\<lambda>r. case r of None \<Rightarrow> ret old | Some x \<Rightarrow> ret x)"

definition SZ :: nat where
  "SZ = 100000"

text \<open>\<open>strcpy\<close> followed by \<open>atoi\<close>.\<close>

definition number_in :: "nat \<Rightarrow> string \<Rightarrow> int option" where
  "number_in cap t = do { t' \<leftarrow> strcpy_into cap t; atoi_int t' }"

section \<open>System information\<close>

definition SN :: string where
  "SN = [CHR '' '', CHR 0x0A]"

definition system_info :: "proc_env \<Rightarrow> unit run" where
  "system_info env =
     bind_run (need (read_field env ''sys/kernel/hostname'' 1000 SN ''NONE'' 0 (strcpy_into SZ))) (\<lambda>host.
     bind_run (need (read_field env ''version'' 1000 SN ''version'' 0 (strcpy_into SZ))) (\<lambda>kernel.
     bind_run (need (read_field env ''uptime'' 1000 SN ''NONE'' 0 (strcpy_into SZ))) (\<lambda>uptime.
     bind_run (lift (atoi_int uptime)) (\<lambda>t.
     print (System host kernel (printUptime t))))))"

section \<open>Hardware information\<close>

definition cpu_model :: "proc_env \<Rightarrow> string run" where
  "cpu_model env = keep [] (read_field env ''cpuinfo'' 1000 [CHR 0x09, CHR 0x0A] ''model name'' 0
     (\<lambda>tok. if length tok < 2 then None else strcpy_into SZ (drop 2 tok)))"

text \<open>
  The loop that counts the tokens that begin with \<open>c\<close>; \<open>p\<close> is what \<open>*curr\<close> reads. It counts
  from -1, and one of the tokens is the sum over all processors.
\<close>

partial_function (option) core_loop :: "tok_state \<Rightarrow> char option \<Rightarrow> int \<Rightarrow> (tok_state \<times> int) option" where
  "core_loop st p i = do {
     c \<leftarrow> p;
     if c = CHR ''c'' then do {
       (st', tok) \<leftarrow> next_token_str [CHR 0x0A] st;
       core_loop st' (map_option hd tok) (i + 1)
     }
     else Some (st, i)
   }"

definition cpu_cores :: "proc_env \<Rightarrow> string run" where
  "cpu_cores env s =
     (case open_file env (opens s) ''stat'' of
        None \<Rightarrow> Some (Inl EXIT_FAILURE, s\<lparr>opens := opens s + 1\<rparr>)
      | Some content \<Rightarrow> do {
          let b = read_into (take SZ content) (buf s);
          (st, i) \<leftarrow> core_loop (b, Some 0) (if b = [] then None else Some (hd b)) (-1);
          Some (Inr (if i = 0 then ''1'' else show_int (i - 1)), s\<lparr>opens := opens s + 1, buf := fst st\<rparr>)
        })"

definition load_average :: "proc_env \<Rightarrow> string run" where
  "load_average env = need (read_field env ''loadavg'' SZ [CHR 0x0A] ''NONE'' 0 (strcpy_into SZ))"

text \<open>One number of the line \<open>cpu\<close> of \<open>stat\<close>; the sum over the numbers \<open>i\<close> to 7.\<close>

definition cpu_time :: "proc_env \<Rightarrow> nat \<Rightarrow> int run" where
  "cpu_time env i = need (read_field env ''stat'' 1000 '' '' ''cpu'' i (number_in 1000))"

function cpu_total :: "proc_env \<Rightarrow> nat \<Rightarrow> int \<Rightarrow> int run" where
  "cpu_total env i total_time =
     (if i < 8
      then bind_run (cpu_time env i) (\<lambda>n. bind_run (lift (to_int (total_time + n))) (\<lambda>t. cpu_total env (i + 1) t))
      else ret total_time)"
  by pat_completeness auto

termination
  by (relation "measure (\<lambda>(_, i, _). 8 - i)") auto

declare cpu_total.simps [simp del]

text \<open>
  The two samples, a second apart, and the formula. A division by zero gives an infinity or no number,
  here \<open>None\<close>; it has no defined result when it is converted for the bar.
\<close>

definition cpu_usage :: "proc_env \<Rightarrow> rat option run" where
  "cpu_usage env =
     bind_run (cpu_total env 0 0) (\<lambda>prevTotal.
     bind_run (cpu_time env 3) (\<lambda>prevIdle.
     bind_run (cpu_total env 0 0) (\<lambda>currTotal.
     bind_run (cpu_time env 3) (\<lambda>currIdle.
     bind_run (lift (to_int (currIdle - prevIdle))) (\<lambda>diffIdle.
     bind_run (lift (to_int (currTotal - prevTotal))) (\<lambda>diffTotal.
     ret (map_option (\<lambda>q. 100 * q / 10) (divide_float (of_int diffTotal) (of_int diffIdle + 5)))))))))"

definition mem_field :: "proc_env \<Rightarrow> string \<Rightarrow> int run" where
  "mem_field env str = need (read_field env ''meminfo'' SZ [CHR 0x0A, CHR '' ''] str 0 (number_in SZ))"

text \<open>The used memory and its share of the total, in percent.\<close>

definition memory_usage :: "proc_env \<Rightarrow> (rat \<times> rat) run" where
  "memory_usage env =
     bind_run (mem_field env ''MemTotal:'') (\<lambda>memTotal.
     bind_run (mem_field env ''MemFree:'') (\<lambda>memFree.
     bind_run (mem_field env ''Buffers:'') (\<lambda>buffers.
     bind_run (mem_field env ''Cached:'') (\<lambda>cached.
     bind_run (mem_field env ''SwapCached:'') (\<lambda>sCached.
     bind_run (lift (to_int (memFree + buffers))) (\<lambda>a.
     bind_run (lift (to_int (a + cached))) (\<lambda>b.
     bind_run (lift (to_int (b + sCached))) (\<lambda>unused.
     let usedMemory = of_int memTotal - of_int unused in
     bind_run (lift (divide_float usedMemory (of_int memTotal))) (\<lambda>q.
     ret (usedMemory, 100 * q))))))))))"

definition hardware_print :: "string \<Rightarrow> string \<Rightarrow> string \<Rightarrow> rat option \<Rightarrow> rat \<Rightarrow> rat \<Rightarrow> unit run" where
  "hardware_print cpuname cores loadavg cpuUsage usedMemory memoryPer =
     bind_run (print (Hardware cpuname cores (take 15 loadavg))) (\<lambda>_.
     bind_run (lift cpuUsage) (\<lambda>cpuUsage.
     bind_run (lift (trunc_int (cpuUsage / 5))) (\<lambda>cpuBar.
     bind_run (print (Cpu_usage (printProgress cpuBar 20) cpuUsage)) (\<lambda>_.
     bind_run (lift (trunc_int (memoryPer / 5))) (\<lambda>memBar.
     print (Memory_usage (printProgress memBar 20) memoryPer (usedMemory / 1000000)))))))"

definition hardware_info :: "proc_env \<Rightarrow> unit run" where
  "hardware_info env =
     bind_run (cpu_model env) (\<lambda>cpuname.
     bind_run (cpu_cores env) (\<lambda>cores.
     bind_run (load_average env) (\<lambda>loadavg.
     bind_run (cpu_usage env) (\<lambda>cpuUsage.
     bind_run (memory_usage env) (\<lambda>(usedMemory, memoryPer).
     hardware_print cpuname cores loadavg cpuUsage usedMemory memoryPer)))))"

section \<open>Task information\<close>

definition is_task :: "string \<times> bool \<Rightarrow> bool" where
  "is_task entry \<longleftrightarrow> snd entry \<and> fst entry \<noteq> [] \<and> isdigit (hd (fst entry))"

definition proc_dir :: "bool \<Rightarrow> string" where
  "proc_dir alt_proc = (if alt_proc then ''.'' else ''/proc'')"

text \<open>\<open>forks\<close> has no initial value, so it must not be printed without the file.\<close>

definition task_summary_info :: "proc_env \<Rightarrow> bool \<Rightarrow> unit run" where
  "task_summary_info env alt_proc =
     bind_run (keep [] (read_field env ''stat'' SZ [CHR 0x0A, CHR '' ''] ''intr'' 0 (strcpy_into SZ))) (\<lambda>interrupts.
     bind_run (keep [] (read_field env ''stat'' SZ [CHR 0x0A, CHR '' ''] ''ctxt'' 0 (strcpy_into SZ))) (\<lambda>contexts.
     bind_run (read_field env ''stat'' SZ [CHR 0x0A, CHR '' ''] ''processes'' 0 (strcpy_into 1000)) (\<lambda>forks.
     case listing env (proc_dir alt_proc) of
       None \<Rightarrow> quit EXIT_FAILURE
     | Some entries \<Rightarrow>
         bind_run (lift forks) (\<lambda>f. print (Tasks (length (filter is_task entries)) interrupts contexts f)))))"

section \<open>Task list\<close>

text \<open>The variables of the section, which keep their values from one task to the next.\<close>

record task_vars =
  tv_tasks :: string
  tv_name :: string
  tv_state :: string
  tv_user :: string

definition SNT :: string where
  "SNT = [CHR '' '', CHR 0x0A, CHR 0x09]"

definition getUser :: "proc_env \<Rightarrow> int \<Rightarrow> string option" where
  "getUser env uid = user_name env uid"

definition state_name :: "string \<Rightarrow> string" where
  "state_name st =
     (if st = ''S'' then ''sleeping''
      else if st = ''R'' then ''running''
      else if st = ''I'' then ''idle''
      else if st = ''Z'' then ''zombie''
      else if st = ''D'' then ''disk sleep''
      else if st = ''T'' then ''tracing stop''
      else ''unknown'')"

definition task_field :: "proc_env \<Rightarrow> string \<Rightarrow> string \<Rightarrow> (string \<Rightarrow> 'a option) \<Rightarrow> 'a option run" where
  "task_field env d_name str copy = read_field env (d_name @ ''/status'') SZ SNT str 0 copy"

definition task_row :: "proc_env \<Rightarrow> string \<Rightarrow> task_vars \<Rightarrow> task_vars run" where
  "task_row env d_name v =
     bind_run (lift (strcpy_into SZ (d_name @ ''/status''))) (\<lambda>_.
     bind_run (keep (tv_tasks v) (task_field env d_name ''Threads:'' (strcpy_into 5))) (\<lambda>tasks.
     bind_run (keep (tv_name v) (task_field env d_name ''Name:'' (strcpy_into 200))) (\<lambda>name.
     bind_run (keep (tv_state v) (task_field env d_name ''State:'' (strcpy_into 13))) (\<lambda>st.
     bind_run (lift (atoi_int d_name)) (\<lambda>pid.
     bind_run (keep (tv_user v) (task_field env d_name ''Uid:''
         (\<lambda>tok. do { uid \<leftarrow> atoi_int tok; u \<leftarrow> getUser env uid; strcpy_into 16 u }))) (\<lambda>user.
     let st' = state_name st in
     bind_run (print (Task_row pid st' (take 25 name) (take 15 user) tasks)) (\<lambda>_.
     ret \<lparr>tv_tasks = tasks, tv_name = name, tv_state = st', tv_user = user\<rparr>)))))))"

fun task_rows :: "proc_env \<Rightarrow> (string \<times> bool) list \<Rightarrow> task_vars \<Rightarrow> unit run" where
  "task_rows env [] v = ret ()"
| "task_rows env (e # es) v =
     (if is_task e then bind_run (task_row env (fst e) v) (task_rows env es) else task_rows env es v)"

text \<open>The section has a buffer of its own, which starts with zeros.\<close>

definition task_list_info :: "proc_env \<Rightarrow> bool \<Rightarrow> unit run" where
  "task_list_info env alt_proc s =
     bind_run (print Task_header) (\<lambda>_.
       case listing env (proc_dir alt_proc) of
         None \<Rightarrow> quit EXIT_FAILURE
       | Some entries \<Rightarrow> task_rows env entries \<lparr>tv_tasks = [], tv_name = [], tv_state = [], tv_user = []\<rparr>)
       (s\<lparr>buf := replicate SZ NUL\<rparr>)"

section \<open>The options and \<open>main\<close>\<close>

record view_opts =
  hardware :: bool
  system :: bool
  task_list :: bool
  task_summary :: bool

definition all_on :: view_opts where
  "all_on = \<lparr>hardware = True, system = True, task_list = True, task_summary = True\<rparr>"

definition no_opts :: view_opts where
  "no_opts = \<lparr>hardware = False, system = False, task_list = False, task_summary = False\<rparr>"

text \<open>
  The loop over the results of \<open>getopt\<close>: a letter with its argument, or \<open>?\<close> with the letter that
  was wrong. It ends with the options and the directory of \<open>-p\<close>, with the return code of \<open>main\<close>
  and the message, or in \<open>abort\<close>.
\<close>

datatype opt_msg = Usage | Requires_argument char | Unknown_option char | Unknown_character char

datatype opt_result = Chosen view_opts "string option" | Return int "opt_msg list" | Abort

definition isprint :: "char \<Rightarrow> bool" where
  "isprint c \<longleftrightarrow> 32 \<le> (of_char c :: nat) \<and> (of_char c :: nat) < 127"

fun getopt_loop :: "(char \<times> string) list \<Rightarrow> view_opts \<Rightarrow> string option \<Rightarrow> opt_result" where
  "getopt_loop [] options procfs_loc = Chosen options procfs_loc"
| "getopt_loop ((c, optarg) # r) options procfs_loc =
     (if c = CHR ''a'' then getopt_loop r all_on procfs_loc
      else if c = CHR ''h'' then Return 0 [Usage]
      else if c = CHR ''l'' then getopt_loop r (options\<lparr>task_list := True\<rparr>) procfs_loc
      else if c = CHR ''p'' then getopt_loop r options (Some optarg)
      else if c = CHR ''r'' then getopt_loop r (options\<lparr>hardware := True\<rparr>) procfs_loc
      else if c = CHR ''s'' then getopt_loop r (options\<lparr>system := True\<rparr>) procfs_loc
      else if c = CHR ''t'' then getopt_loop r (options\<lparr>task_summary := True\<rparr>) procfs_loc
      else if c = CHR ''?'' then
        (case optarg of
           [] \<Rightarrow> Abort
         | optopt # _ \<Rightarrow>
             Return 1 [if optopt = CHR ''p'' then Requires_argument optopt
                       else if isprint optopt then Unknown_option optopt
                       else Unknown_character optopt, Usage])
      else Abort)"

text \<open>What is shown: everything, when no argument but \<open>-p\<close> and its directory is left.\<close>

definition effective :: "int \<Rightarrow> view_opts \<Rightarrow> bool \<Rightarrow> view_opts" where
  "effective argc options alt_proc =
     (let argc = (if alt_proc then argc - 2 else argc) in if argc \<le> 1 then all_on else options)"

definition when_on :: "bool \<Rightarrow> unit run \<Rightarrow> unit run" where
  "when_on b m = (if b then m else ret ())"

definition inspect :: "proc_env \<Rightarrow> view_opts \<Rightarrow> bool \<Rightarrow> unit run" where
  "inspect env options alt_proc =
     bind_run (if cwd_ok env then print Cwd else quit 1) (\<lambda>_.
     bind_run (when_on (system options) (system_info env)) (\<lambda>_.
     bind_run (when_on (hardware options) (hardware_info env)) (\<lambda>_.
     bind_run (when_on (task_summary options) (task_summary_info env alt_proc)) (\<lambda>_.
     when_on (task_list options) (task_list_info env alt_proc)))))"

text \<open>\<open>main\<close> behind the loop over the options: the return code and the report.\<close>

definition inspector_main :: "proc_env \<Rightarrow> int \<Rightarrow> (char \<times> string) list \<Rightarrow> (int \<times> opt_msg list \<times> line list) option" where
  "inspector_main env argc opts =
     (case getopt_loop opts no_opts None of
        Return code msgs \<Rightarrow> Some (code, msgs, [])
      | Abort \<Rightarrow> None
      | Chosen options loc \<Rightarrow> do {
          (r, s) \<leftarrow> inspect env (effective argc options (loc \<noteq> None)) (loc \<noteq> None)
            \<lparr>opens = 0, buf = stack env, report = []\<rparr>;
          Some (case r of Inl code \<Rightarrow> code | Inr _ \<Rightarrow> 0, [], report s)
        })"

end
