(* ===== verification/Inspector_Props.thy ===== *)
theory Inspector_Props
  imports Inspector
begin

text \<open>
  What the inspector reports: the field of a file that \<open>getNextTok\<close> finds, the numbers of the
  uptime, the hardware section from two samples of /proc/stat and from /proc/meminfo, and the
  rows of the task list.
\<close>

section \<open>The text in front of unknown bytes\<close>

definition at_text :: "string \<Rightarrow> string list \<Rightarrow> string \<Rightarrow> tok_state \<Rightarrow> bool" where
  "at_text d ws j st \<longleftrightarrow> (\<exists>b p s. st = (b, Some p) \<and> drop p b = s @ j \<and> closed_text d s \<and> words_of d s = ws)"

lemma at_text_start: "closed_text d c \<Longrightarrow> at_text d (words_of d c) j (c @ j, Some 0)"
  by (auto simp: at_text_def)

lemma at_text_step: "at_text d (t # ts) j st \<Longrightarrow> \<exists>st'. next_token_str d st = Some (st', Some t) \<and> at_text d ts j st'"
  using ahead_step by (fastforce simp: at_text_def)

lemma find_key_text:
  "\<lbrakk>at_text d (pre @ key # post) j st; key \<notin> set pre; length pre < n\<rbrakk> \<Longrightarrow>
    \<exists>st'. find_key n d key st = Some st' \<and> at_text d post j st'"
proof (induction pre arbitrary: st n)
  case Nil
  then show ?case using at_text_step [of d key post j st] by (cases n) auto
next
  case (Cons t pre)
  obtain st1 where "next_token_str d st = Some (st1, Some t)" "at_text d (pre @ key # post) j st1"
    using at_text_step [of d t "pre @ key # post" j st] Cons.prems(1) by auto
  with Cons.IH [of st1 "n - 1"] Cons.prems(2,3) show ?case by (cases n) auto
qed

lemma skip_toks_text:
  "\<lbrakk>at_text d ws j st; k \<le> length ws\<rbrakk> \<Longrightarrow> \<exists>st'. skip_toks k d st = Some st' \<and> at_text d (drop k ws) j st'"
proof (induction k arbitrary: st ws)
  case (Suc k)
  then obtain w ws' where ws: "ws = w # ws'" by (cases ws) auto
  then show ?case using at_text_step [of d w ws' j st] Suc by auto
qed simp

section \<open>Fields\<close>

text \<open>The field \<open>k\<close> behind a key among the words of a text; with the key \<open>NONE\<close> the first word.\<close>

definition field_of :: "string \<Rightarrow> string \<Rightarrow> nat \<Rightarrow> string \<Rightarrow> string option" where
  "field_of d key k c =
     (if key = ''NONE'' then (case words_of d c of [] \<Rightarrow> None | w # _ \<Rightarrow> Some w)
      else (case dropWhile (\<lambda>w. w \<noteq> key) (words_of d c) of
          [] \<Rightarrow> None
        | _ # post \<Rightarrow> if k < length post then Some (post ! k) else None))"

text \<open>
  A file has a field when a part at its beginning in which every word is ended has it, and the
  key comes early enough for the loop.
\<close>

definition has_field :: "string \<Rightarrow> string \<Rightarrow> nat \<Rightarrow> string \<Rightarrow> string \<Rightarrow> bool" where
  "has_field d key k c v \<longleftrightarrow> (\<exists>c1 c2. c = c1 @ c2 \<and> closed_text d c1 \<and> field_of d key k c1 = Some v
     \<and> length (takeWhile (\<lambda>w. w \<noteq> key) (words_of d c1)) \<le> 10000)"

lemma getNextTok_field:
  assumes "has_field d key k c v"
  shows "\<exists>st. getNextTok (c @ j) d key k = Some (st, Some v)"
proof -
  obtain c1 c2 where c: "c = c1 @ c2" and cl: "closed_text d c1" and f: "field_of d key k c1 = Some v"
    and n: "length (takeWhile (\<lambda>w. w \<noteq> key) (words_of d c1)) \<le> 10000"
    using assms by (auto simp: has_field_def)
  have a: "at_text d (words_of d c1) (c2 @ j) (c @ j, Some 0)"
    using at_text_start [OF cl, of "c2 @ j"] by (simp add: c)
  show ?thesis
  proof (cases "key = ''NONE''")
    case True
    then obtain ws where "words_of d c1 = v # ws" using f by (auto simp: field_of_def split: list.splits)
    with a obtain st' where "next_token_str d (c @ j, Some 0) = Some (st', Some v)"
      using at_text_step [of d v ws "c2 @ j" "(c @ j, Some 0)"] by auto
    then show ?thesis using True by (simp add: getNextTok_def)
  next
    case False
    let ?pre = "takeWhile (\<lambda>w. w \<noteq> key) (words_of d c1)"
    obtain x post where d: "dropWhile (\<lambda>w. w \<noteq> key) (words_of d c1) = x # post" "k < length post" "post ! k = v"
      using f False by (auto simp: field_of_def split: list.splits if_splits)
    have "x = key" using d(1) hd_dropWhile [of "\<lambda>w. w \<noteq> key" "words_of d c1"] by auto
    then have "words_of d c1 = ?pre @ key # post" using d(1) takeWhile_dropWhile_id by metis
    then obtain st1 where 1: "find_key 10001 d key (c @ j, Some 0) = Some st1" "at_text d post (c2 @ j) st1"
      using find_key_text [of d ?pre key post "c2 @ j" "(c @ j, Some 0)" 10001] a n
      by (auto dest: set_takeWhileD)
    obtain st2 where 2: "skip_toks k d st1 = Some st2" "at_text d (drop k post) (c2 @ j) st2"
      using skip_toks_text [OF 1(2), of k] d(2) by auto
    have "drop k post = v # drop (Suc k) post" using d(2,3) Cons_nth_drop_Suc [of k post] by simp
    then obtain st3 where "next_token_str d st2 = Some (st3, Some v)"
      using at_text_step [of d v "drop (Suc k) post" "c2 @ j" st2] 2(2) by auto
    then show ?thesis using False 1(1) 2(1) by (simp add: getNextTok_def)
  qed
qed

text \<open>A key that a terminated text does not have: the loop compares a null pointer.\<close>

lemma find_key_missing:
  "\<lbrakk>tok_wf st; tok_rest d st = ws; key \<notin> set ws; length ws < n\<rbrakk> \<Longrightarrow> find_key n d key st = None"
proof (induction ws arbitrary: st n)
  case Nil
  then obtain st' where "next_token_str d st = Some (st', None)" using nt.next_Nil by blast
  with Nil show ?case by (cases n) auto
next
  case (Cons t ws)
  obtain st1 where "next_token_str d st = Some (st1, Some t)" "tok_wf st1" "tok_rest d st1 = ws"
    using nt.next_Cons [OF Cons.prems(1,2)] by blast
  with Cons.IH [of st1 "n - 1"] Cons.prems(3,4) show ?case by (cases n) auto
qed

text \<open>
  C35: The value that \<open>getNextTok\<close> returns for a file that was read into a used buffer is the field
  behind the key in the file, whatever the buffer held before; for a key that is missing
  from a file with a NUL behind it the program compares a null pointer.
\<close>

theorem file_field:
  shows "(has_field sep str k c v \<longrightarrow> (\<exists>st. getNextTok (read_into c b) sep str k = Some (st, Some v)))
    \<and> (str \<noteq> ''NONE'' \<and> NUL \<notin> set c \<and> str \<notin> set (words_of sep c) \<and> length (words_of sep c) \<le> 10000
        \<and> drop (length c) b = NUL # r \<longrightarrow> getNextTok (read_into c b) sep str k = None)"
proof (intro conjI impI)
  assume "has_field sep str k c v"
  then show "\<exists>st. getNextTok (read_into c b) sep str k = Some (st, Some v)"
    unfolding read_into_def by (rule getNextTok_field)
next
  assume a: "str \<noteq> ''NONE'' \<and> NUL \<notin> set c \<and> str \<notin> set (words_of sep c) \<and> length (words_of sep c) \<le> 10000
        \<and> drop (length c) b = NUL # r"
  then have "cstr_at (read_into c b) 0 = Some c"
    using cstr_at_append [of c "[]" 0 r] by (simp add: read_into_def)
  then have "find_key 10001 sep str (read_into c b, Some 0) = None"
    using a by (intro find_key_missing [where ws = "words_of sep c"]) (simp_all add: tok_wf_def tok_rest_def)
  then show "getNextTok (read_into c b) sep str k = None" using a by (simp add: getNextTok_def)
qed

theorem file_field_witness:
  "\<exists>st. getNextTok (read_into (''Free: 7 kB'' @ [CHR 0x0A] @ ''Cached: 5 kB'' @ [CHR 0x0A]) ''junk'') [CHR 0x0A, CHR '' ''] ''Cached:'' 0
     = Some (st, Some ''5'')"
proof -
  let ?c = "''Free: 7 kB'' @ [CHR 0x0A] @ ''Cached: 5 kB'' @ [CHR 0x0A]" and ?d = "[CHR 0x0A, CHR '' '']"
  have "closed_text ?d ?c" "field_of ?d ''Cached:'' 0 ?c = Some ''5''"
    "length (takeWhile (\<lambda>w. w \<noteq> ''Cached:'') (words_of ?d ?c)) \<le> 9" by code_simp+
  then have "has_field ?d ''Cached:'' 0 ?c ''5''"
    unfolding has_field_def by (intro exI [of _ ?c] exI [of _ "[]"]) simp
  then show ?thesis using file_field [of ?d "''Cached:''" 0 ?c "''5''" "''junk''"] by blast
qed


section \<open>The uptime\<close>

fun seconds_of :: "unit_name \<Rightarrow> int" where
  "seconds_of Years = 31536000"
| "seconds_of Days = 86400"
| "seconds_of Hours = 3600"
| "seconds_of Minutes = 60"
| "seconds_of Seconds = 1"

text \<open>The largest numbers that are printed of each unit: a month has 30 days.\<close>

fun below :: "unit_name \<Rightarrow> int" where
  "below Years = 69"
| "below Days = 30"
| "below Hours = 24"
| "below Minutes = 60"
| "below Seconds = 60"

definition uptime_value :: "(int \<times> unit_name) list \<Rightarrow> int" where
  "uptime_value us = sum_list (map (\<lambda>(n, u). n * seconds_of u) us)"

lemma minutes_value: "(t mod 3600) div 60 * 60 + t mod 60 = t mod (3600 :: int)"
  using mod_mod_cancel [of 60 3600 t] div_mult_mod_eq [of "t mod 3600" 60] by simp

lemma hours_value: "(t mod 86400) div 3600 * 3600 + t mod 3600 = t mod (86400 :: int)"
  using mod_mod_cancel [of 3600 86400 t] div_mult_mod_eq [of "t mod 86400" 3600] by simp

lemma days_value: "(t mod 2592000) div 86400 * 86400 + t mod 86400 = t mod (2592000 :: int)"
  using mod_mod_cancel [of 86400 2592000 t] div_mult_mod_eq [of "t mod 2592000" 86400] by simp

lemmas clock_values = minutes_value hours_value days_value

lemma small_smod: "0 \<le> t \<Longrightarrow> t smod (60 :: int) = t mod 60"
  by (simp add: signed_modulo_int_def sgn_if)

text \<open>The time as the units print it.\<close>

definition clock :: "int \<Rightarrow> int" where
  "clock t = (t mod (86400 * 30)) div 86400 * 86400 + (t mod 86400) div 3600 * 3600 + (t mod 3600) div 60 * 60 + t mod 60"

lemma clock_value: "clock t = t mod 2592000"
proof -
  have m: "86400 * 30 = (2592000 :: int)" by simp
  show ?thesis unfolding clock_def m minutes_value hours_value days_value
    using clock_values [of t] by linarith
qed

lemma uptime_years:
  assumes "t > 31536000"
  shows "uptime_value (printUptime t) = t div 31536000 * 31536000 + (t mod 31536000) mod 2592000"
proof -
  let ?r = "t - t div (60 * 60 * 24 * 365) * (60 * 60 * 24 * 365)"
  have r: "?r = t mod 31536000" by (simp add: minus_div_mult_eq_mod)
  have "uptime_value (printUptime t) = t div (60 * 60 * 24 * 365) * 31536000 + clock ?r"
    using assms unfolding printUptime_def uptime_value_def clock_def Let_def
    by (cases "(?r mod (86400 * 30)) div 86400 = 0 \<and> (?r mod 86400) div 3600 = 0") (simp_all only: if_True if_False, simp_all)
  then show ?thesis unfolding clock_value r by simp
qed

lemma uptime_days:
  assumes "0 \<le> t" "t \<le> 31536000" "t \<notin> {60, 3600, 86400}"
  shows "uptime_value (printUptime t) = t mod 2592000"
proof -
  consider "t > 86400" | "t > 3600" "t < 86400" | "t > 60" "t < 3600" | "t < 60" using assms(3) by force
  then have "uptime_value (printUptime t) = clock t"
  proof cases
    case 4
    then show ?thesis using assms small_smod [of t] by (simp add: printUptime_def uptime_value_def clock_def)
  qed (use assms in \<open>simp_all add: printUptime_def uptime_value_def clock_def Let_def\<close>)
  then show ?thesis by (simp add: clock_value)
qed

lemma uptime_below:
  assumes "0 \<le> t" "t \<le> INT_MAX"
  shows "\<forall>(n, u) \<in> set (printUptime t). 0 \<le> n \<and> n < below u"
proof -
  have b: "(x mod 2592000) div 86400 < (30 :: int)" "(x mod 86400) div 3600 < (24 :: int)"
    "(x mod 3600) div 60 < (60 :: int)" for x
    by (simp_all add: div_less_iff_less_mult)
  have "0 \<le> t div 31536000" "t div 31536000 < 69" using assms unfolding INT_MAX_def by linarith+
  then show ?thesis
    using b small_smod [OF assms(1)] by (simp add: printUptime_def Let_def pos_imp_zdiv_nonneg_iff)
qed


section \<open>The type of the report\<close>

text \<open>
  A judgement on the parts of \<open>main\<close>: whenever a part has a defined result, it has only
  appended well-formed lines to the report, an early return is the one with \<open>EXIT_FAILURE\<close>, and a
  value has the property \<open>Q\<close>.
\<close>

definition typed :: "(line \<Rightarrow> bool) \<Rightarrow> 'a run \<Rightarrow> ('a \<Rightarrow> bool) \<Rightarrow> bool" where
  "typed ok m Q \<longleftrightarrow> (\<forall>s r s'. m s = Some (r, s') \<longrightarrow>
     (\<exists>ls. report s' = report s @ ls \<and> list_all ok ls) \<and> (case r of Inl code \<Rightarrow> code = EXIT_FAILURE | Inr x \<Rightarrow> Q x))"

lemma typed_bind:
  assumes "typed ok m P" "\<And>x. P x \<Longrightarrow> typed ok (f x) Q"
  shows "typed ok (bind_run m f) Q"
  unfolding typed_def
proof (intro allI impI)
  fix s r s' assume b: "bind_run m f s = Some (r, s')"
  then obtain r1 s1 where m: "m s = Some (r1, s1)" by (auto simp: bind_run_def split: bind_splits)
  with assms(1) obtain ls where 1: "report s1 = report s @ ls" "list_all ok ls"
    and r1: "case r1 of Inl code \<Rightarrow> code = EXIT_FAILURE | Inr x \<Rightarrow> P x" unfolding typed_def by blast
  show "(\<exists>ls. report s' = report s @ ls \<and> list_all ok ls) \<and> (case r of Inl code \<Rightarrow> code = EXIT_FAILURE | Inr x \<Rightarrow> Q x)"
  proof (cases r1)
    case (Inl code)
    then show ?thesis using b m 1 r1 by (auto simp: bind_run_def)
  next
    case (Inr x)
    then have "f x s1 = Some (r, s')" using b m by (simp add: bind_run_def)
    with assms(2) [of x] Inr r1 obtain ls' where "report s' = report s1 @ ls'" "list_all ok ls'"
      "case r of Inl code \<Rightarrow> code = EXIT_FAILURE | Inr x \<Rightarrow> Q x" unfolding typed_def by fastforce
    then show ?thesis using 1 by auto
  qed
qed

lemma typed_ret: "Q x \<Longrightarrow> typed ok (ret x) Q"
  by (simp add: typed_def ret_def)

lemma typed_quit: "typed ok (quit EXIT_FAILURE) Q"
  by (simp add: typed_def quit_def)

lemma typed_lift: "(\<And>x. p = Some x \<Longrightarrow> Q x) \<Longrightarrow> typed ok (lift p) Q"
  by (cases p) (auto simp: typed_def lift_def undef_def ret_def)

lemma typed_print: "\<lbrakk>ok l; Q ()\<rbrakk> \<Longrightarrow> typed ok (print l) Q"
  by (simp add: typed_def print_def)

lemma typed_weaken: "\<lbrakk>typed ok m P; \<And>x. P x \<Longrightarrow> Q x\<rbrakk> \<Longrightarrow> typed ok m Q"
  unfolding typed_def by (fastforce split: sum.splits)

lemma typed_field:
  "typed ok (read_field env file n sep key k copy) (\<lambda>r. \<forall>x. r = Some x \<longrightarrow> (\<exists>t. copy t = Some x))"
  unfolding typed_def read_field_def
  by (auto split: option.splits bind_splits)

lemma typed_need:
  "typed ok (need (read_field env file n sep key k copy)) (\<lambda>x. \<exists>t. copy t = Some x)"
  unfolding need_def
  by (rule typed_bind [OF typed_field]) (auto split: option.split intro: typed_ret typed_quit)

lemma typed_keep:
  "typed ok (keep old (read_field env file n sep key k copy)) (\<lambda>x. x = old \<or> (\<exists>t. copy t = Some x))"
  unfolding keep_def
  by (rule typed_bind [OF typed_field]) (auto split: option.split intro: typed_ret)

lemma typed_any: "typed ok m P \<Longrightarrow> typed ok m (\<lambda>_. True)"
  by (erule typed_weaken) simp

text \<open>The lines: bounded numbers in the uptime, bars of 20 marks, and the widths of the columns.\<close>

fun line_ok :: "line \<Rightarrow> bool" where
  "line_ok (System host vers us) \<longleftrightarrow> length host < SZ \<and> length vers < SZ \<and> (\<forall>(n, u) \<in> set us. -60 < n \<and> n < below u)"
| "line_ok (Hardware cpu cores load) \<longleftrightarrow> length cpu < SZ \<and> length load \<le> 15"
| "line_ok (Cpu_usage bar _) \<longleftrightarrow> length bar = 23"
| "line_ok (Memory_usage bar _ _) \<longleftrightarrow> length bar = 23"
| "line_ok (Tasks n i c f) \<longleftrightarrow> length i < SZ \<and> length c < SZ \<and> length f < 1000"
| "line_ok (Task_row pid st name user tasks) \<longleftrightarrow> - INT_MAX - 1 \<le> pid \<and> pid \<le> INT_MAX
     \<and> st \<in> {''sleeping'', ''running'', ''idle'', ''zombie'', ''disk sleep'', ''tracing stop'', ''unknown''}
     \<and> length name \<le> 25 \<and> length user \<le> 15 \<and> length tasks \<le> 4"
| "line_ok _ \<longleftrightarrow> True"

lemma atoi_int_range: "atoi_int v = Some t \<Longrightarrow> - INT_MAX - 1 \<le> t \<and> t \<le> INT_MAX"
  by (auto simp: atoi_int_def split: if_splits)

lemma state_name_cases:
  "state_name st \<in> {''sleeping'', ''running'', ''idle'', ''zombie'', ''disk sleep'', ''tracing stop'', ''unknown''}"
  by (simp add: state_name_def)

lemma progress_length: "length (printProgress n 20) = 23"
  by (simp add: printProgress_def)

lemma uptime_range:
  assumes "- INT_MAX - 1 \<le> t" "t \<le> INT_MAX"
  shows "\<forall>(n, u) \<in> set (printUptime t). -60 < n \<and> n < below u"
proof (cases "0 \<le> t")
  case True
  then show ?thesis using uptime_below [OF True assms(2)] by fastforce
next
  case False
  have "t smod 60 = - ((- t) mod 60)" using False by (simp add: signed_modulo_int_def sgn_if)
  then have "-60 < t smod 60 \<and> t smod 60 < 60"
    using pos_mod_bound [of 60 "- t"] pos_mod_sign [of 60 "- t"] by linarith
  then show ?thesis using False by (simp add: printUptime_def)
qed

lemma system_typed: "typed line_ok (system_info env) (\<lambda>_. True)"
  unfolding system_info_def
  by (rule typed_bind [OF typed_need], rule typed_bind [OF typed_need], rule typed_bind [OF typed_need],
      rule typed_bind [OF typed_lift [where Q = "\<lambda>t. - INT_MAX - 1 \<le> t \<and> t \<le> INT_MAX"]], erule atoi_int_range,
      rule typed_print)
    (use uptime_range in auto)

lemma cores_typed: "typed line_ok (cpu_cores env) (\<lambda>_. True)"
  unfolding typed_def cpu_cores_def
  by (auto simp: Let_def split: option.splits bind_splits)

lemma cpu_time_typed: "typed line_ok (cpu_time env i) (\<lambda>_. True)"
  unfolding cpu_time_def by (rule typed_any [OF typed_need])

lemma lift_typed: "typed line_ok (lift p) (\<lambda>_. True)"
  by (rule typed_lift) simp

lemma cpu_total_typed: "typed line_ok (cpu_total env i t) (\<lambda>_. True)"
proof (induction env i t rule: cpu_total.induct)
  case (1 env i t)
  show ?case
  proof (cases "i < 8")
    case True
    show ?thesis unfolding cpu_total.simps [of env i] if_P [OF True]
      by (rule typed_bind [OF cpu_time_typed], rule typed_bind [OF lift_typed], rule 1 [OF True])
  qed (simp add: cpu_total.simps [of env i] typed_ret)
qed

text \<open>The parts that only read numbers, as steps of a longer one.\<close>

lemma mem_field_typed: "typed line_ok (mem_field env key) (\<lambda>_. True)"
  unfolding mem_field_def by (rule typed_any [OF typed_need])

lemma ret_typed: "typed line_ok (ret x) (\<lambda>_. True)"
  by (simp add: typed_ret)

lemmas typed_steps = ret_typed typed_bind [OF cpu_total_typed] typed_bind [OF cpu_time_typed] typed_bind [OF mem_field_typed]
  typed_bind [OF lift_typed]

lemma cpu_usage_typed: "typed line_ok (cpu_usage env) (\<lambda>_. True)"
  unfolding cpu_usage_def
  by (intro typed_steps)

lemma memory_usage_typed: "typed line_ok (memory_usage env) (\<lambda>_. True)"
  unfolding memory_usage_def Let_def
  by (intro typed_steps)

lemma hardware_typed: "typed line_ok (hardware_info env) (\<lambda>_. True)"
proof -
  have "typed line_ok (cpu_model env) (\<lambda>x. length x < SZ)" unfolding cpu_model_def
    by (rule typed_weaken [OF typed_keep]) (auto simp: SZ_def split: if_splits)
  note 1 = typed_bind [OF this] and 3 = typed_bind [OF memory_usage_typed]
  show ?thesis unfolding hardware_info_def hardware_print_def load_average_def
    by (rule 1, rule typed_bind [OF cores_typed], rule typed_bind [OF typed_need], rule typed_bind [OF cpu_usage_typed], rule 3)
      (auto simp: progress_length split: prod.split intro!: typed_bind [OF typed_print] typed_bind [OF lift_typed] typed_print)
qed

lemma summary_typed: "typed line_ok (task_summary_info env alt) (\<lambda>_. True)"
  unfolding task_summary_info_def
  by (rule typed_bind [OF typed_keep], rule typed_bind [OF typed_keep], rule typed_bind [OF typed_field])
    (auto simp: SZ_def split: option.split 
      intro!: typed_bind [OF typed_lift [where Q = "\<lambda>f. length f < 1000"]] typed_print typed_quit)

lemma row_typed: "length (tv_tasks v) < 5 \<Longrightarrow> typed line_ok (task_row env d v) (\<lambda>v'. length (tv_tasks v') < 5)"
  unfolding task_row_def task_field_def Let_def
  by (rule typed_bind [OF lift_typed], rule typed_bind [OF typed_keep], rule typed_bind [OF typed_keep],
      rule typed_bind [OF typed_keep], rule typed_bind [OF typed_lift [where Q = "\<lambda>t. - INT_MAX - 1 \<le> t \<and> t \<le> INT_MAX"]],
      erule atoi_int_range, rule typed_bind [OF typed_keep], rule typed_bind [OF typed_print], unfold line_ok.simps)
    (use state_name_cases in \<open>auto intro!: typed_ret\<close>)

lemma rows_typed: "length (tv_tasks v) < 5 \<Longrightarrow> typed line_ok (task_rows env es v) (\<lambda>_. True)"
proof (induction es arbitrary: v)
  case (Cons e es)
  then show ?case using typed_bind [OF row_typed Cons.IH] by simp
qed (simp add: typed_ret)

lemma task_list_typed: "typed line_ok (task_list_info env alt) (\<lambda>_. True)"
proof -
  let ?m = "bind_run (print Task_header) (\<lambda>_. case listing env (proc_dir alt) of
      None \<Rightarrow> quit EXIT_FAILURE
    | Some entries \<Rightarrow> task_rows env entries \<lparr>tv_tasks = [], tv_name = [], tv_state = [], tv_user = []\<rparr>)"
  have "typed line_ok ?m (\<lambda>_. True)"
    by (rule typed_bind [OF typed_print [where Q = "\<lambda>_. True"]]) (auto split: option.split intro: typed_quit rows_typed)
  then have m: "\<forall>s r s'. ?m s = Some (r, s') \<longrightarrow> (\<exists>ls. report s' = report s @ ls \<and> list_all line_ok ls)
      \<and> (case r of Inl code \<Rightarrow> code = EXIT_FAILURE | Inr x \<Rightarrow> True)" unfolding typed_def .
  show ?thesis unfolding typed_def task_list_info_def
  proof (intro allI impI)
    fix s :: insp and r s'
    assume "?m (s\<lparr>buf := replicate SZ NUL\<rparr>) = Some (r, s')"
    from m [rule_format, OF this] show "(\<exists>ls. report s' = report s @ ls \<and> list_all line_ok ls)
      \<and> (case r of Inl code \<Rightarrow> code = EXIT_FAILURE | Inr x \<Rightarrow> True)" by simp
  qed
qed

lemma inspect_typed: "typed line_ok (inspect env options alt) (\<lambda>_. True)"
proof -
  have w: "typed line_ok (when_on b m) (\<lambda>_. True)" if "typed line_ok m (\<lambda>_. True)" for b m
    using that by (simp add: when_on_def typed_ret)
  have c: "typed line_ok (if cwd_ok env then print Cwd else quit 1) (\<lambda>_. True)"
    by (cases "cwd_ok env") (simp_all add: typed_print typed_quit [unfolded EXIT_FAILURE_def])
  show ?thesis unfolding inspect_def
    by (rule typed_bind [OF c], rule typed_bind [OF w [OF system_typed]], rule typed_bind [OF w [OF hardware_typed]],
        rule typed_bind [OF w [OF summary_typed]], rule w [OF task_list_typed])
qed

lemma getopt_returns: "getopt_loop opts o1 loc = Return code msgs \<Longrightarrow> code \<in> {0, 1} \<and> msgs \<noteq> []"
  by (induction opts o1 loc rule: getopt_loop.induct) (auto split: if_splits list.splits)

text \<open>
  C17: Whatever the files of /proc hold, a run of the inspector that has a defined result returns 0
  or 1, prints either messages about its options or a report, and every line of the report is
  well-formed: the numbers of the uptime are in the range of their units, the bars have
  twenty marks, and every field is within the width of its array or column.
\<close>

theorem report_typed:
  assumes "inspector_main env argc opts = Some (code, msgs, ls)"
  shows "code \<in> {0, 1} \<and> (msgs = [] \<or> ls = []) \<and> list_all line_ok ls"
proof (cases "getopt_loop opts no_opts None")
  case (Chosen options loc)
  then obtain r s where i: "inspect env (effective argc options (loc \<noteq> None)) (loc \<noteq> None)
      \<lparr>opens = 0, buf = stack env, report = []\<rparr> = Some (r, s)"
    and r: "code = (case r of Inl code \<Rightarrow> code | Inr _ \<Rightarrow> 0)" "msgs = []" "ls = report s"
    using assms by (auto simp: inspector_main_def split: bind_splits)
  from inspect_typed [unfolded typed_def, rule_format, OF i] r show ?thesis
    by (auto simp: EXIT_FAILURE_def split: sum.splits)
next
  case (Return c m)
  with getopt_returns [OF Return] assms show ?thesis by (auto simp: inspector_main_def)
qed (use assms in \<open>simp add: inspector_main_def\<close>)

theorem report_typed_witness:
  "\<exists>env. inspector_main env 3 [(CHR ''p'', ''.'')] = Some (1, [], [Cwd]) \<and> list_all line_ok [Cwd]"
proof
  let ?env = "\<lparr>open_file = \<lambda>_ _. None, listing = \<lambda>_. None, user_name = \<lambda>_. None, cwd_ok = True, stack = []\<rparr>"
  have r: "inspector_main ?env 3 [(CHR ''p'', ''.'')] = Some (1, [], [Cwd])"
    by (simp add: inspector_main_def effective_def inspect_def when_on_def all_on_def print_def bind_run_def system_info_def
        need_def read_field_def quit_def EXIT_FAILURE_def)
  show "inspector_main ?env 3 [(CHR ''p'', ''.'')] = Some (1, [], [Cwd]) \<and> list_all line_ok [Cwd]"
    using r report_typed [OF r] by blast
qed

text \<open>
  C37: \<open>printUptime\<close> prints numbers in the range of their units. They add up to the time for less than
  thirty days; beyond that whole months are lost, and just at a minute, an hour or a day
  only zeros are printed.
\<close>

theorem uptime_printed:
  assumes "0 \<le> t" "t \<le> INT_MAX"
  shows "(\<forall>(n, u) \<in> set (printUptime t). 0 \<le> n \<and> n < below u)
    \<and> uptime_value (printUptime t) =
        (if t > 31536000 then t div 31536000 * 31536000 + (t mod 31536000) mod 2592000
         else if t \<in> {60, 3600, 86400} then 0 else t mod 2592000)"
proof -
  have "uptime_value (printUptime t) = 0" if "t \<in> {60, 3600, 86400}"
    using that by (auto simp: printUptime_def uptime_value_def signed_modulo_int_def)
  then show ?thesis using uptime_below [OF assms] uptime_years [of t] uptime_days [of t] assms(1) by (auto simp: not_less)
qed

theorem uptime_printed_witness:
  "printUptime 2592061 = [(0, Days), (0, Hours), (1, Minutes), (1, Seconds)] \<and> uptime_value (printUptime 2592061) = 61"
  using uptime_printed [of 2592061] by (simp add: INT_MAX_def printUptime_def Let_def)

end
