(* ===== verification/Inspector_Report.thy ===== *)
theory Inspector_Report
  imports Inspector_Props
begin

text \<open>
  The report of the inspector against what the files of /proc hold: each section opens a known
  number of files and appends its lines, the sections are put together to the report of \<open>main\<close>,
  and a machine with one processor and one task shows that the conditions can hold.
\<close>

section \<open>What a part of the report does\<close>

text \<open>
  A part that starts with \<open>n\<close> files opened ends with a value, \<open>k\<close> more files opened and the
  lines \<open>ls\<close> appended to the report, whatever the buffer holds.
\<close>

definition yields :: "'a run \<Rightarrow> nat \<Rightarrow> 'a \<Rightarrow> nat \<Rightarrow> line list \<Rightarrow> bool" where
  "yields m n x k ls \<longleftrightarrow> (\<forall>s. opens s = n \<longrightarrow>
     (\<exists>s'. m s = Some (Inr x, s') \<and> opens s' = n + k \<and> report s' = report s @ ls))"

lemma yields_bind:
  "\<lbrakk>yields m n x k ls; yields (f x) (n + k) y k' ls'; k'' = k + k'; ls'' = ls @ ls'\<rbrakk>
    \<Longrightarrow> yields (bind_run m f) n y k'' ls''"
  by (fastforce simp: yields_def bind_run_def)

lemma yields_ret: "yields (ret x) n x 0 []"
  by (simp add: yields_def ret_def)

lemma yields_lift: "p = Some x \<Longrightarrow> yields (lift p) n x 0 []"
  by (simp add: lift_def yields_ret)

lemma yields_print: "yields (print l) n () 0 [l]"
  by (simp add: yields_def print_def)

text \<open>The file that the \<open>n\<close>-th \<open>open\<close> finds has a field in the part of it that is read.\<close>

definition file_has :: "proc_env \<Rightarrow> nat \<Rightarrow> string \<Rightarrow> nat \<Rightarrow> string \<Rightarrow> string \<Rightarrow> nat \<Rightarrow> string \<Rightarrow> bool" where
  "file_has env n file sz sep key k v \<longleftrightarrow> (\<exists>c. open_file env n file = Some c \<and> has_field sep key k (take sz c) v)"

lemma yields_field:
  assumes "file_has env n file sz sep key k v" "copy v = Some x"
  shows "yields (read_field env file sz sep key k copy) n (Some x) 1 []"
  unfolding yields_def
proof (intro allI impI)
  fix s :: insp assume n: "opens s = n"
  obtain c where c: "open_file env n file = Some c" "has_field sep key k (take sz c) v"
    using assms(1) by (auto simp: file_has_def)
  obtain st where "getNextTok (read_into (take sz c) (buf s)) sep key k = Some (st, Some v)"
    using getNextTok_field [OF c(2), of "drop (length (take sz c)) (buf s)"] unfolding read_into_def by blast
  then show "\<exists>s'. read_field env file sz sep key k copy s = Some (Inr (Some x), s') \<and> opens s' = n + 1
      \<and> report s' = report s @ []"
    using n c(1) assms(2) by (simp add: read_field_def)
qed

lemma yields_need: "yields m n (Some x) k ls \<Longrightarrow> yields (need m) n x k ls"
  unfolding need_def by (erule yields_bind) (simp_all add: yields_ret)

lemma yields_keep: "yields m n (Some x) k ls \<Longrightarrow> yields (keep old m) n x k ls"
  unfolding keep_def by (erule yields_bind) (simp_all add: yields_ret)

lemma field_needed:
  "\<lbrakk>file_has env n file sz sep key k v; copy v = Some x\<rbrakk> \<Longrightarrow> yields (need (read_field env file sz sep key k copy)) n x 1 []"
  by (intro yields_need yields_field)

lemma field_kept:
  "\<lbrakk>file_has env n file sz sep key k v; copy v = Some x\<rbrakk> \<Longrightarrow> yields (keep old (read_field env file sz sep key k copy)) n x 1 []"
  by (intro yields_keep yields_field)

lemma field_copied:
  "\<lbrakk>file_has env n file sz sep key k v; length v < cap\<rbrakk> \<Longrightarrow>
    yields (need (read_field env file sz sep key k (strcpy_into cap))) n v 1 []"
  by (rule field_needed) simp_all

section \<open>Processors\<close>

text \<open>The words of a number in the line \<open>cpu\<close> of one sample of \<open>stat\<close>: the times \<open>T 0\<close> to \<open>T 7\<close>.\<close>

definition cpu_sample :: "proc_env \<Rightarrow> nat \<Rightarrow> (nat \<Rightarrow> int) \<Rightarrow> bool" where
  "cpu_sample env n T \<longleftrightarrow> (\<forall>j < 9. \<forall>i < 8. \<exists>v. file_has env (n + j) ''stat'' 1000 '' '' ''cpu'' i v
      \<and> number_in 1000 v = Some (T i)) \<and> (\<forall>i < 8. 0 \<le> T i) \<and> sum T {..<8} \<le> INT_MAX"

lemma yields_cpu_time:
  assumes "cpu_sample env n T" "i < 8" "j < 9"
  shows "yields (cpu_time env i) (n + j) (T i) 1 []"
proof -
  obtain v where "file_has env (n + j) ''stat'' 1000 '' '' ''cpu'' i v" "number_in 1000 v = Some (T i)"
    using assms unfolding cpu_sample_def by meson
  then show ?thesis unfolding cpu_time_def by (rule field_needed)
qed

lemma yields_cpu_total:
  assumes "cpu_sample env n T"
  shows "i \<le> 8 \<Longrightarrow> yields (cpu_total env i (sum T {..<i})) (n + i) (sum T {..<8}) (8 - i) []"
proof (induction "8 - i" arbitrary: i)
  case 0
  then show ?case by (simp add: cpu_total.simps yields_ret)
next
  case (Suc k)
  then have i: "i < 8" by simp
  have nn: "\<forall>j < 8. 0 \<le> T j" and le: "sum T {..<8} \<le> INT_MAX" using assms by (auto simp: cpu_sample_def)
  have "sum T {..<Suc i} \<le> sum T {..<8}" by (rule sum_mono2) (use i nn in auto)
  moreover have "0 \<le> sum T {..<Suc i}" by (rule sum_nonneg) (use i nn in auto)
  ultimately have "to_int (sum T {..<i} + T i) = Some (sum T {..<Suc i})"
    using le by (simp add: to_int_def INT_MAX_def)
  note 1 = yields_cpu_time [OF assms i, of i] and 2 = yields_lift [OF this, of "n + i + 1"]
  have 3: "yields (cpu_total env (i + 1) (sum T {..<Suc i})) (n + i + 1 + 0) (sum T {..<8}) (8 - Suc i) []"
    using Suc.hyps(1) [of "Suc i"] Suc.hyps(2) i by simp
  show ?case unfolding cpu_total.simps [of env i] if_P [OF i]
    by (rule yields_bind, rule 1, use i in simp, rule yields_bind, rule 2, rule 3) (use i in auto)
qed

lemma yields_cpu_usage:
  assumes p: "cpu_sample env n P" and c: "cpu_sample env (n + 9) C" and i: "C 3 - P 3 + 5 \<noteq> 0"
  shows "yields (cpu_usage env) n (Some (10 * of_int (sum C {..<8} - sum P {..<8}) / of_int (C 3 - P 3 + 5))) 18 []"
proof -
  have b: "0 \<le> T 3 \<and> T 3 \<le> sum T {..<8} \<and> sum T {..<8} \<le> INT_MAX" if "cpu_sample env m T" for m T
    using that member_le_sum [of 3 "{..<8}" T] by (auto simp: cpu_sample_def)
  have 1: "yields (cpu_total env 0 0) n (sum P {..<8}) 8 []" using yields_cpu_total [OF p, of 0] by simp
  have 2: "yields (cpu_time env 3) (n + 8) (P 3) 1 []" using yields_cpu_time [OF p, of 3 8] by simp
  have 3: "yields (cpu_total env 0 0) (n + 8 + 1) (sum C {..<8}) 8 []"
    using yields_cpu_total [OF c, of 0] by (simp add: ac_simps)
  have 4: "yields (cpu_time env 3) (n + 8 + 1 + 8) (C 3) 1 []"
    using yields_cpu_time [OF c, of 3 8] by (simp add: ac_simps)
  have 5: "yields (lift (to_int (C 3 - P 3))) (n + 8 + 1 + 8 + 1) (C 3 - P 3) 0 []"
    by (rule yields_lift) (use b [OF p] b [OF c] in \<open>simp add: to_int_def INT_MAX_def\<close>)
  have 6: "yields (lift (to_int (sum C {..<8} - sum P {..<8}))) (n + 8 + 1 + 8 + 1 + 0) (sum C {..<8} - sum P {..<8}) 0 []"
    by (rule yields_lift) (use b [OF p] b [OF c] in \<open>simp add: to_int_def INT_MAX_def\<close>)
  have "of_int (C 3 - P 3) + 5 \<noteq> (0 :: rat)" using i by (metis of_int_add of_int_eq_0_iff of_int_numeral)
  then have "divide_float (of_int (sum C {..<8} - sum P {..<8})) (of_int (C 3 - P 3) + 5)
      = Some (of_int (sum C {..<8} - sum P {..<8}) / of_int (C 3 - P 3 + 5))" by (simp add: divide_float_def)
  moreover have "100 * (a / b) / 10 = 10 * a / (b :: rat)" for a b by simp
  ultimately have v: "map_option (\<lambda>q. 100 * q / 10) (divide_float (of_int (sum C {..<8} - sum P {..<8})) (of_int (C 3 - P 3) + 5))
      = Some (10 * of_int (sum C {..<8} - sum P {..<8}) / of_int (C 3 - P 3 + 5) :: rat)" by (simp only: option.map)
  show ?thesis unfolding cpu_usage_def
    by (rule yields_bind, rule 1, rule yields_bind, rule 2, rule yields_bind, rule 3, rule yields_bind, rule 4,
        rule yields_bind, rule 5, rule yields_bind, rule 6, unfold v, rule yields_ret) simp_all
qed

section \<open>Memory\<close>

definition mem_number :: "proc_env \<Rightarrow> nat \<Rightarrow> string \<Rightarrow> int \<Rightarrow> bool" where
  "mem_number env n key x \<longleftrightarrow> 0 \<le> x
     \<and> (\<exists>v. file_has env n ''meminfo'' SZ [CHR 0x0A, CHR '' ''] key 0 v \<and> number_in SZ v = Some x)"

definition memory_file :: "proc_env \<Rightarrow> nat \<Rightarrow> int \<Rightarrow> int \<Rightarrow> int \<Rightarrow> int \<Rightarrow> int \<Rightarrow> bool" where
  "memory_file env n T F B C S \<longleftrightarrow>
     mem_number env n ''MemTotal:'' T \<and> mem_number env (n + 1) ''MemFree:'' F
     \<and> mem_number env (n + 2) ''Buffers:'' B \<and> mem_number env (n + 3) ''Cached:'' C
     \<and> mem_number env (n + 4) ''SwapCached:'' S \<and> 0 < T \<and> F + B + C + S \<le> INT_MAX"

lemma yields_mem_field: "mem_number env n key x \<Longrightarrow> yields (mem_field env key) n x 1 []"
  unfolding mem_field_def mem_number_def by (elim conjE exE) (rule field_needed)

lemma yields_memory_usage:
  assumes "memory_file env n T F B C S"
  shows "yields (memory_usage env) n
    (of_int T - of_int (F + B + C + S), 100 * ((of_int T - of_int (F + B + C + S)) / of_int T)) 5 []"
proof -
  have nn: "0 \<le> F" "0 \<le> B" "0 \<le> C" "0 \<le> S" "0 < T" "F + B + C + S \<le> INT_MAX"
    using assms by (simp_all add: memory_file_def mem_number_def)
  have m: "mem_number env n ''MemTotal:'' T" "mem_number env (n + 1) ''MemFree:'' F"
      "mem_number env (n + 1 + 1) ''Buffers:'' B" "mem_number env (n + 1 + 1 + 1) ''Cached:'' C"
      "mem_number env (n + 1 + 1 + 1 + 1) ''SwapCached:'' S"
    using assms by (simp_all add: memory_file_def eval_nat_numeral)
  note m = m [THEN yields_mem_field]
  have 6: "yields (lift (to_int (F + B))) m (F + B) 0 []"
    and 7: "yields (lift (to_int (F + B + C))) m (F + B + C) 0 []"
    and 8: "yields (lift (to_int (F + B + C + S))) m (F + B + C + S) 0 []" for m
    using nn by (auto simp: to_int_def INT_MAX_def intro!: yields_lift)
  have 9: "yields (lift (divide_float u (of_int T))) m (u / of_int T) 0 []" for u m
    using nn by (intro yields_lift) (simp add: divide_float_def)
  show ?thesis unfolding memory_usage_def Let_def
    by (rule yields_bind, rule m(1), rule yields_bind, rule m(2), rule yields_bind, rule m(3),
        rule yields_bind, rule m(4), rule yields_bind, rule m(5), rule yields_bind, rule 6, rule yields_bind, rule 7,
        rule yields_bind, rule 8, rule yields_bind, rule 9, rule yields_ret) simp_all
qed

section \<open>The number of processors\<close>

text \<open>The loop stops at the first line that does not begin with \<open>c\<close>, and has counted the lines before it.\<close>

lemma core_loop_counts:
  "\<lbrakk>at_text [CHR 0x0A] (cs @ l # r) j st; \<forall>c \<in> set cs. hd c = CHR ''c''; hd l \<noteq> CHR ''c''\<rbrakk> \<Longrightarrow>
    \<exists>st'. core_loop st (Some CHR ''c'') i = Some (st', i + 1 + int (length cs))"
proof (induction cs arbitrary: st i)
  case Nil
  then obtain st' where "next_token_str [CHR 0x0A] st = Some (st', Some l)"
    using at_text_step [of "[CHR 0x0A]" l r j st] by auto
  with Nil.prems(3) show ?case
    by (simp add: core_loop.simps [of st] core_loop.simps [of st' "Some (hd l)"])
next
  case (Cons c cs)
  obtain st1 where 1: "next_token_str [CHR 0x0A] st = Some (st1, Some c)" "at_text [CHR 0x0A] (cs @ l # r) j st1"
    using at_text_step [of "[CHR 0x0A]" c "cs @ l # r" j st] Cons.prems(1) by auto
  obtain st' where "core_loop st1 (Some CHR ''c'') (i + 1) = Some (st', i + 1 + 1 + int (length cs))"
    using Cons.IH [OF 1(2), of "i + 1"] Cons.prems(2,3) by auto
  with 1(1) Cons.prems(2) show ?case by (simp add: core_loop.simps [of st])
qed

text \<open>A file \<open>stat\<close> that begins with \<open>n\<close> lines of processors and another line.\<close>

definition stat_lines :: "string \<Rightarrow> nat \<Rightarrow> bool" where
  "stat_lines c n \<longleftrightarrow> (\<exists>c1 c2 cs l r. c = c1 @ c2 \<and> closed_text [CHR 0x0A] c1 \<and> words_of [CHR 0x0A] c1 = cs @ l # r
     \<and> length cs = n \<and> (\<forall>x \<in> set cs. hd x = CHR ''c'') \<and> hd l \<noteq> CHR ''c'') \<and> 0 < n \<and> c \<noteq> [] \<and> hd c = CHR ''c''"

lemma yields_cpu_cores:
  assumes "open_file env n ''stat'' = Some c" "stat_lines (take SZ c) k"
  shows "yields (cpu_cores env) n (show_int (int k - 1)) 1 []"
  unfolding yields_def
proof (intro allI impI)
  fix s :: insp assume n: "opens s = n"
  obtain c1 c2 cs l r where c: "take SZ c = c1 @ c2" "closed_text [CHR 0x0A] c1"
      "words_of [CHR 0x0A] c1 = cs @ l # r" "length cs = k" "\<forall>x \<in> set cs. hd x = CHR ''c''" "hd l \<noteq> CHR ''c''"
    using assms(2) unfolding stat_lines_def by blast
  have h: "take SZ c \<noteq> [] \<and> hd (take SZ c) = CHR ''c''" and k: "0 < k" using assms(2) unfolding stat_lines_def by blast+
  let ?b = "read_into (take SZ c) (buf s)"
  have hd: "?b \<noteq> [] \<and> hd ?b = CHR ''c''" using h unfolding read_into_def by (cases "take SZ c") auto
  have "at_text [CHR 0x0A] (cs @ l # r) (c2 @ drop (length (take SZ c)) (buf s)) (?b, Some 0)"
    unfolding read_into_def c(1)
    using at_text_start [OF c(2), of "c2 @ drop (length (take SZ c)) (buf s)"] by (simp add: c(1,3))
  then obtain st' where "core_loop (?b, Some 0) (Some CHR ''c'') (-1) = Some (st', int k)"
    using core_loop_counts [OF _ c(5,6), of _ _ _ "-1"] c(4) by fastforce
  then show "\<exists>s'. cpu_cores env s = Some (Inr (show_int (int k - 1)), s') \<and> opens s' = n + 1
      \<and> report s' = report s @ []"
    using n assms(1) hd k by (simp add: cpu_cores_def Let_def)
qed

section \<open>The sections of the report\<close>

text \<open>What the files have to hold for the first section, which opens three of them.\<close>

definition system_files :: "proc_env \<Rightarrow> nat \<Rightarrow> string \<Rightarrow> string \<Rightarrow> int \<Rightarrow> bool" where
  "system_files env n host vers t \<longleftrightarrow>
     file_has env n ''sys/kernel/hostname'' 1000 SN ''NONE'' 0 host \<and> length host < SZ
     \<and> file_has env (n + 1) ''version'' 1000 SN ''version'' 0 vers \<and> length vers < SZ
     \<and> (\<exists>v. file_has env (n + 1 + 1) ''uptime'' 1000 SN ''NONE'' 0 v \<and> length v < SZ \<and> atoi_int v = Some t)"

lemma yields_system_info:
  assumes "system_files env n host vers t"
  shows "yields (system_info env) n () 3 [System host vers (printUptime t)]"
proof -
  obtain v where v: "file_has env (n + 1 + 1) ''uptime'' 1000 SN ''NONE'' 0 v" "length v < SZ" "atoi_int v = Some t"
    and h: "file_has env n ''sys/kernel/hostname'' 1000 SN ''NONE'' 0 host" "length host < SZ"
    and k: "file_has env (n + 1) ''version'' 1000 SN ''version'' 0 vers" "length vers < SZ"
    using assms unfolding system_files_def by blast
  show ?thesis unfolding system_info_def
    by (rule yields_bind, rule field_copied [OF h(1,2)], rule yields_bind,
        rule field_copied [OF k(1,2)], rule yields_bind, rule field_copied [OF v(1,2)],
        rule yields_bind, rule yields_lift [OF v(3)], rule yields_print) simp_all
qed

text \<open>The second section: 26 files. \<open>P\<close> and \<open>C\<close> are the processor times of the two samples.\<close>

definition hardware_files :: "proc_env \<Rightarrow> nat \<Rightarrow> string \<Rightarrow> nat \<Rightarrow> string \<Rightarrow> (nat \<Rightarrow> int) \<Rightarrow> (nat \<Rightarrow> int) \<Rightarrow> int \<Rightarrow> int \<Rightarrow> bool" where
  "hardware_files env n cpu cores load P C T U \<longleftrightarrow>
     (\<exists>a b. file_has env n ''cpuinfo'' 1000 [CHR 0x09, CHR 0x0A] ''model name'' 0 (a # b # cpu)) \<and> length cpu < SZ
     \<and> (\<exists>c. open_file env (n + 1) ''stat'' = Some c \<and> stat_lines (take SZ c) (cores + 1))
     \<and> file_has env (n + 2) ''loadavg'' SZ [CHR 0x0A] ''NONE'' 0 load \<and> length load < SZ
     \<and> cpu_sample env (n + 3) P \<and> cpu_sample env (n + 12) C \<and> C 3 - P 3 + 5 \<noteq> 0
     \<and> (\<exists>f b c s. memory_file env (n + 21) T f b c s \<and> U = T - (f + b + c + s))"

text \<open>The formulas: the ticks of all kinds against the idle ones, and the memory in use, in percent.\<close>

definition cpu_percent :: "(nat \<Rightarrow> int) \<Rightarrow> (nat \<Rightarrow> int) \<Rightarrow> rat" where
  "cpu_percent P C = 10 * of_int (sum C {..<8} - sum P {..<8}) / of_int (C 3 - P 3 + 5)"

definition mem_percent :: "int \<Rightarrow> int \<Rightarrow> rat" where
  "mem_percent T U = 100 * (of_int U / of_int T)"

lemma yields_hardware_info:
  assumes "hardware_files env n cpu cores load P C T U"
    and a: "trunc_int (cpu_percent P C / 5) = Some a" and b: "trunc_int (mem_percent T U / 5) = Some b"
  shows "yields (hardware_info env) n () 26
    [Hardware cpu (show_int (int cores)) (take 15 load), Cpu_usage (printProgress a 20) (cpu_percent P C),
     Memory_usage (printProgress b 20) (mem_percent T U) (of_int U / 1000000)]"
proof -
  obtain x y where "file_has env n ''cpuinfo'' 1000 [CHR 0x09, CHR 0x0A] ''model name'' 0 (x # y # cpu)" "length cpu < SZ"
    using assms(1) unfolding hardware_files_def by blast
  then have 1: "yields (cpu_model env) n cpu 1 []"
    unfolding cpu_model_def by (intro field_kept) auto
  obtain c where "open_file env (n + 1) ''stat'' = Some c" "stat_lines (take SZ c) (cores + 1)"
    using assms(1) unfolding hardware_files_def by blast
  then have 2: "yields (cpu_cores env) (n + 1) (show_int (int cores)) 1 []"
    using yields_cpu_cores [of env "n + 1" c "cores + 1"] by simp
  have 3: "yields (load_average env) (n + 1 + 1) load 1 []"
    using assms(1) unfolding hardware_files_def load_average_def by (intro field_copied) simp_all
  have 4: "yields (cpu_usage env) (n + 1 + 1 + 1) (Some (cpu_percent P C)) 18 []"
    using assms(1) yields_cpu_usage [of env "n + 3" P C]
    unfolding hardware_files_def cpu_percent_def by (simp add: eval_nat_numeral)
  obtain f bu ca sw where "memory_file env (n + 21) T f bu ca sw" "U = T - (f + bu + ca + sw)"
    using assms(1) unfolding hardware_files_def by blast
  then have 5: "yields (memory_usage env) (n + 1 + 1 + 1 + 18) (of_int U, mem_percent T U) 5 []"
    using yields_memory_usage [of env "n + 21" T f bu ca sw] by (simp add: mem_percent_def add.commute [of 21])
  show ?thesis unfolding hardware_info_def hardware_print_def
    by (rule yields_bind, rule 1, rule yields_bind, rule 2, rule yields_bind, rule 3, rule yields_bind, rule 4,
        rule yields_bind, rule 5, unfold prod.case, rule yields_bind, rule yields_print, rule yields_bind,
        rule yields_lift [OF refl], rule yields_bind, rule yields_lift [OF a], rule yields_bind, rule yields_print, rule yields_bind, rule yields_lift [OF b],
        rule yields_print) simp_all
qed

text \<open>The third section: three times \<open>stat\<close>, and the directory.\<close>

definition stat_field :: "proc_env \<Rightarrow> nat \<Rightarrow> string \<Rightarrow> string \<Rightarrow> bool" where
  "stat_field env n key v \<longleftrightarrow> file_has env n ''stat'' SZ [CHR 0x0A, CHR '' ''] key 0 v \<and> length v < 1000"

lemma field_kept_copied:
  "\<lbrakk>file_has env n file sz sep key k v; length v < cap\<rbrakk> \<Longrightarrow>
    yields (keep old (read_field env file sz sep key k (strcpy_into cap))) n v 1 []"
  by (rule field_kept) simp_all

lemma yields_task_summary:
  assumes "stat_field env n ''intr'' i" "stat_field env (n + 1) ''ctxt'' c" "stat_field env (n + 1 + 1) ''processes'' f"
    "listing env (proc_dir alt) = Some es"
  shows "yields (task_summary_info env alt) n () 3 [Tasks (length (filter is_task es)) i c f]"
proof -
  have big: "length v < SZ" if "length v < 1000" for v :: string using that by (simp add: SZ_def)
  have r: "yields (read_field env ''stat'' SZ [CHR 0x0A, CHR '' ''] ''processes'' 0 (strcpy_into 1000)) (n + 1 + 1) (Some f) 1 []"
    using assms(3) unfolding stat_field_def by (intro yields_field [where v = f]) simp_all
  have l: "yields (lift (Some f)) m f 0 []" for m by (rule yields_lift) simp
  show ?thesis unfolding task_summary_info_def assms(4) option.case
    by (rule yields_bind, rule field_kept_copied, rule assms(1) [unfolded stat_field_def, THEN conjunct1],
        use assms(1) big in \<open>simp add: stat_field_def\<close>, rule yields_bind, rule field_kept_copied,
        rule assms(2) [unfolded stat_field_def, THEN conjunct1], use assms(2) big in \<open>simp add: stat_field_def\<close>,
        rule yields_bind, rule r, rule yields_bind, rule l, rule yields_print) simp_all
qed

text \<open>
  The fourth section: what the file \<open>status\<close> of a task says at every time, and its row. All of
  its fields have to fit the arrays they are copied to.
\<close>

definition status_field :: "proc_env \<Rightarrow> string \<Rightarrow> string \<Rightarrow> string \<Rightarrow> nat \<Rightarrow> bool" where
  "status_field env d key v cap \<longleftrightarrow> (\<forall>n. file_has env n (d @ ''/status'') SZ SNT key 0 v) \<and> length v < cap"

definition task_of :: "proc_env \<Rightarrow> string \<Rightarrow> string \<Rightarrow> line \<Rightarrow> bool" where
  "task_of env d user row \<longleftrightarrow> length d + 7 < SZ \<and> (\<exists>tasks name st uid u pid.
     status_field env d ''Threads:'' tasks 5 \<and> status_field env d ''Name:'' name 200
     \<and> status_field env d ''State:'' st 13 \<and> status_field env d ''Uid:'' uid SZ
     \<and> atoi_int d = Some pid \<and> atoi_int uid = Some u \<and> user_name env u = Some user
     \<and> row = Task_row pid (state_name st) (take 25 name) (take 15 user) tasks)"

lemma yields_task_field:
  "\<lbrakk>status_field env d key v cap; copy v = Some x\<rbrakk> \<Longrightarrow> yields (keep old (task_field env d key copy)) n x 1 []"
  unfolding task_field_def by (rule field_kept) (auto simp: status_field_def)

lemma yields_task_copied:
  "status_field env d key v cap \<Longrightarrow> yields (keep old (task_field env d key (strcpy_into cap))) n v 1 []"
  by (rule yields_task_field) (auto simp: status_field_def)

lemma yields_task_row:
  assumes "task_of env d user row" "length user < 16"
  shows "\<exists>v'. yields (task_row env d v) n v' 4 [row]"
proof -
  obtain tasks name st uid u pid where f: "status_field env d ''Threads:'' tasks 5" "status_field env d ''Name:'' name 200"
      "status_field env d ''State:'' st 13" "status_field env d ''Uid:'' uid SZ"
    and i: "atoi_int d = Some pid" "atoi_int uid = Some u" "user_name env u = Some user"
    and row: "row = Task_row pid (state_name st) (take 25 name) (take 15 user) tasks" and l: "length d + 7 < SZ"
    using assms(1) unfolding task_of_def by blast
  have c: "strcpy_into SZ (d @ ''/status'') = Some (d @ ''/status'')" using l by simp
  have u: "yields (keep old (task_field env d ''Uid:''
      (\<lambda>tok. do { uid \<leftarrow> atoi_int tok; u \<leftarrow> getUser env uid; strcpy_into 16 u }))) m user 1 []" for old m
    by (rule yields_task_field [OF f(4)]) (use i assms(2) in \<open>simp add: getUser_def\<close>)
  show ?thesis unfolding task_row_def Let_def row
    by (rule exI, rule yields_bind, rule yields_lift [OF c], rule yields_bind, rule yields_task_copied [OF f(1)],
        rule yields_bind, rule yields_task_copied [OF f(2)], rule yields_bind, rule yields_task_copied [OF f(3)],
        rule yields_bind, rule yields_lift [OF i(1)], rule yields_bind, rule u, rule yields_bind, rule yields_print,
        rule yields_ret) simp_all
qed

text \<open>The entries of the directory, the users of the tasks among them, and the rows.\<close>

definition rows_of :: "proc_env \<Rightarrow> (string \<times> bool) list \<Rightarrow> line list \<Rightarrow> bool" where
  "rows_of env es rows \<longleftrightarrow>
     list_all2 (\<lambda>e row. \<exists>user. task_of env (fst e) user row \<and> length user < 16) (filter is_task es) rows"

lemma yields_task_rows: "rows_of env es rows \<Longrightarrow> yields (task_rows env es v) n () (4 * length rows) rows"
proof (induction es arbitrary: v n rows)
  case Nil
  then show ?case by (simp add: rows_of_def yields_ret)
next
  case (Cons e es)
  show ?case
  proof (cases "is_task e")
    case True
    then obtain row rows' user where r: "rows = row # rows'" "task_of env (fst e) user row" "length user < 16" "rows_of env es rows'"
      using Cons.prems by (auto simp: rows_of_def list_all2_Cons1)
    obtain v' where "yields (task_row env (fst e) v) n v' 4 [row]" using yields_task_row [OF r(2,3)] by blast
    from yields_bind [OF this Cons.IH [OF r(4)]] show ?thesis using True r(1) by simp
  qed (use Cons in \<open>simp add: rows_of_def\<close>)
qed

lemma yields_fresh: "yields m n x k ls \<Longrightarrow> yields (\<lambda>s. m (s\<lparr>buf := b\<rparr>)) n x k ls"
  unfolding yields_def
proof (intro allI impI)
  fix s :: insp
  assume m: "\<forall>s. opens s = n \<longrightarrow> (\<exists>s'. m s = Some (Inr x, s') \<and> opens s' = n + k \<and> report s' = report s @ ls)"
    and n: "opens s = n"
  show "\<exists>s'. m (s\<lparr>buf := b\<rparr>) = Some (Inr x, s') \<and> opens s' = n + k \<and> report s' = report s @ ls"
    using m [rule_format, of "s\<lparr>buf := b\<rparr>"] n by simp
qed

lemma yields_task_list:
  assumes "listing env (proc_dir alt) = Some es" "rows_of env es rows"
  shows "yields (task_list_info env alt) n () (4 * length rows) (Task_header # rows)"
proof -
  let ?v = "\<lparr>tv_tasks = [], tv_name = [], tv_state = [], tv_user = []\<rparr>"
  have "yields (bind_run (print Task_header) (\<lambda>_. task_rows env es ?v)) n () (4 * length rows) (Task_header # rows)"
    by (rule yields_bind, rule yields_print, rule yields_task_rows [OF assms(2)]) simp_all
  from yields_fresh [OF this] show ?thesis unfolding yields_def task_list_info_def assms(1) option.case by simp
qed

section \<open>The whole report\<close>

definition proc_files :: "proc_env \<Rightarrow> bool \<Rightarrow> line list \<Rightarrow> bool" where
  "proc_files env alt ls \<longleftrightarrow> cwd_ok env \<and> (\<exists>host vers t cpu cores load P C T U a b i c f es rows.
     system_files env 0 host vers t \<and> hardware_files env 3 cpu cores load P C T U
     \<and> trunc_int (cpu_percent P C / 5) = Some a \<and> trunc_int (mem_percent T U / 5) = Some b
     \<and> stat_field env 29 ''intr'' i \<and> stat_field env 30 ''ctxt'' c \<and> stat_field env 31 ''processes'' f
     \<and> listing env (proc_dir alt) = Some es \<and> rows_of env es rows
     \<and> ls = [Cwd, System host vers (printUptime t), Hardware cpu (show_int (int cores)) (take 15 load),
         Cpu_usage (printProgress a 20) (cpu_percent P C),
         Memory_usage (printProgress b 20) (mem_percent T U) (of_int U / 1000000),
         Tasks (length (filter is_task es)) i c f, Task_header] @ rows)"

lemma yields_inspect:
  assumes "proc_files env alt ls"
  shows "\<exists>k. yields (inspect env all_on alt) 0 () k ls"
proof -
  obtain host vers t cpu cores load P C T U a b i c f es rows
    where w: "cwd_ok env" and s: "system_files env 0 host vers t" and h: "hardware_files env 3 cpu cores load P C T U"
      "trunc_int (cpu_percent P C / 5) = Some a" "trunc_int (mem_percent T U / 5) = Some b"
      and t: "stat_field env 29 ''intr'' i" "stat_field env 30 ''ctxt'' c" "stat_field env 31 ''processes'' f"
      and l: "listing env (proc_dir alt) = Some es" "rows_of env es rows"
      and ls: "ls = [Cwd, System host vers (printUptime t), Hardware cpu (show_int (int cores)) (take 15 load),
         Cpu_usage (printProgress a 20) (cpu_percent P C),
         Memory_usage (printProgress b 20) (mem_percent T U) (of_int U / 1000000),
         Tasks (length (filter is_task es)) i c f, Task_header] @ rows"
    using assms unfolding proc_files_def by blast
  have 2: "yields (system_info env) (0 + 0) () 3 [System host vers (printUptime t)]"
    using yields_system_info [OF s] by simp
  have 3: "yields (hardware_info env) (0 + 0 + 3) () 26 [Hardware cpu (show_int (int cores)) (take 15 load),
      Cpu_usage (printProgress a 20) (cpu_percent P C), Memory_usage (printProgress b 20) (mem_percent T U) (of_int U / 1000000)]"
    using yields_hardware_info [OF h] by simp
  have 4: "yields (task_summary_info env alt) (0 + 0 + 3 + 26) () 3 [Tasks (length (filter is_task es)) i c f]"
    using yields_task_summary [of env 29 i c f, OF _ _ _ l(1)] t by simp
  note 5 = yields_task_list [OF l, of "0 + 0 + 3 + 26 + 3"]
  have on: "hardware all_on" "system all_on" "task_summary all_on" "task_list all_on" by (simp_all add: all_on_def)
  show ?thesis unfolding inspect_def when_on_def if_P [OF w] if_P [OF on(1)] if_P [OF on(2)] if_P [OF on(3)] if_P [OF on(4)]
    by (rule exI, rule yields_bind, rule yields_print, rule yields_bind, rule 2, rule yields_bind, rule 3,
        rule yields_bind, rule 4, rule 5, rule refl, rule refl, rule refl, rule refl, rule refl, rule refl, rule refl)
      (simp add: ls)
qed

text \<open>
  C10: When the files of /proc hold what the sections look for, in parts of the files that are read and
  with every word ended, the inspector without options (or with only \<open>-p\<close> and a directory) returns 0
  and prints all four sections, with the host, the kernel and the uptime, the processors and the load,
  the usage of processor and memory by the formulas of the code, the counters of the kernel, and
  one row for every entry of the directory that is a process, in the order of the directory.
\<close>

theorem inspector_reports:
  assumes "proc_files env alt ls"
  shows "inspector_main env (if alt then 3 else 1) (if alt then [(CHR ''p'', dir)] else []) = Some (0, [], ls)"
proof -
  let ?s = "\<lparr>opens = 0, buf = stack env, report = []\<rparr>"
  obtain k where "\<forall>s. opens s = 0 \<longrightarrow> (\<exists>s'. inspect env all_on alt s = Some (Inr (), s')
      \<and> opens s' = 0 + k \<and> report s' = report s @ ls)" using yields_inspect [OF assms] unfolding yields_def by blast
  from this [rule_format, of ?s] obtain s'
    where "inspect env all_on alt ?s = Some (Inr (), s')" "report s' = ls" by auto
  then show ?thesis by (cases alt) (simp_all add: inspector_main_def effective_def)
qed

text \<open>A machine with one processor and one task; between the samples the processor is busy.\<close>

definition demo_stat :: "string \<Rightarrow> string" where
  "demo_stat user =
     ''cpu '' @ user @ '' 0 10 80 0 0 0 0'' @ [CHR 0x0A] @ ''cpu0 '' @ user @ '' 0 10 80 0 0 0 0'' @ [CHR 0x0A] @
     ''intr 7'' @ [CHR 0x0A] @ ''ctxt 9'' @ [CHR 0x0A] @ ''processes 4'' @ [CHR 0x0A]"

definition demo_files :: "(string \<times> string) list" where
  "demo_files =
     [(''sys/kernel/hostname'', ''box'' @ [CHR 0x0A]),
      (''version'', ''Linux version 5.0'' @ [CHR 0x0A]),
      (''uptime'', ''90 80'' @ [CHR 0x0A]),
      (''cpuinfo'', ''model name'' @ [CHR 0x09] @ '': Cpu X'' @ [CHR 0x0A]),
      (''loadavg'', ''0.1 0.2 0.3 1/9 1'' @ [CHR 0x0A]),
      (''meminfo'', ''MemTotal: 1000'' @ [CHR 0x0A] @ ''MemFree: 600'' @ [CHR 0x0A] @ ''Buffers: 50'' @ [CHR 0x0A]
         @ ''Cached: 50'' @ [CHR 0x0A] @ ''SwapCached: 0'' @ [CHR 0x0A]),
      (''1/status'', ''Name:'' @ [CHR 0x09] @ ''init'' @ [CHR 0x0A] @ ''State:'' @ [CHR 0x09] @ ''S (sleeping)'' @ [CHR 0x0A]
         @ ''Uid:'' @ [CHR 0x09] @ ''0'' @ [CHR 0x0A] @ ''Threads:'' @ [CHR 0x09] @ ''1'' @ [CHR 0x0A])]"

definition demo_proc :: proc_env where
  "demo_proc = \<lparr>
     open_file = (\<lambda>n f. if f = ''stat'' then Some (if n < 15 then demo_stat ''10'' else demo_stat ''110'') else map_of demo_files f),
     listing = (\<lambda>_. Some [(''.'', True), (''1'', True), (''stat'', False), (''sys'', True)]),
     user_name = (\<lambda>u. if u = 0 then Some ''root'' else None), cwd_ok = True, stack = []\<rparr>"

definition demo_times :: "int \<Rightarrow> nat \<Rightarrow> int" where
  "demo_times user i = [user, 0, 10, 80, 0, 0, 0, 0] ! i"

lemma file_hasI:
  assumes "open_file env n file = Some c" "length c \<le> sz" "closed_text d (take m c)"
    "field_of d key k (take m c) = Some v" "length (words_of d (take m c)) \<le> 10000"
  shows "file_has env n file sz d key k v"
proof -
  have "length (takeWhile (\<lambda>w. w \<noteq> key) (words_of d (take m c))) \<le> 10000"
    using assms(5) length_takeWhile_le le_trans by blast
  then have "has_field d key k c v" unfolding has_field_def using assms(3,4) append_take_drop_id [of m c] by metis
  then show ?thesis unfolding file_has_def using assms(1,2) by simp
qed

text \<open>What the lemma asks of a file, as a test.\<close>

definition file_test :: "nat \<Rightarrow> string \<Rightarrow> string \<Rightarrow> string \<Rightarrow> nat \<Rightarrow> nat \<Rightarrow> string \<Rightarrow> bool" where
  "file_test n file d key k m v = (case open_file demo_proc n file of None \<Rightarrow> False | Some c \<Rightarrow>
     length c \<le> 1000 \<and> closed_text d (take m c) \<and> field_of d key k (take m c) = Some v
     \<and> length (words_of d (take m c)) \<le> 10000)"

lemma file_testD: "\<lbrakk>file_test n file d key k m v; 1000 \<le> sz\<rbrakk> \<Longrightarrow> file_has demo_proc n file sz d key k v"
  unfolding file_test_def by (cases "open_file demo_proc n file") (auto intro: file_hasI)

lemmas short_test = file_testD [where sz = 1000, OF _ order_refl]

lemma long_test: "file_test n file d key k m v \<Longrightarrow> file_has demo_proc n file SZ d key k v"
  by (erule file_testD) (simp add: SZ_def)

lemma number_inI: "\<lbrakk>length v < 1000; atoi_int v = Some x\<rbrakk> \<Longrightarrow> number_in SZ v = Some x"
  by (simp add: number_in_def strcpy_into_def SZ_def)

lemma demo_system: "system_files demo_proc 0 ''box'' ''5.0'' 90"
proof -
  have t: "file_test 0 ''sys/kernel/hostname'' SN ''NONE'' 0 9 ''box''"
    "file_test 1 ''version'' SN ''version'' 0 99 ''5.0''" "file_test 2 ''uptime'' SN ''NONE'' 0 99 ''90''"
    by code_simp+
  have "atoi_int ''90'' = Some 90" by code_simp
  then show ?thesis unfolding system_files_def using t [THEN short_test] by (auto simp: SZ_def numeral_2_eq_2)
qed

text \<open>The words of the numbers, and the part of the line that they end in.\<close>

definition sample_word :: "int \<Rightarrow> nat \<Rightarrow> string" where
  "sample_word user i = (if i < 7 then show_int (demo_times user i) else ''0'' @ [CHR 0x0A] @ ''cpu0'')"

definition sample_test :: "nat \<Rightarrow> int \<Rightarrow> bool" where
  "sample_test n user \<longleftrightarrow> list_all (\<lambda>i.
     file_test n ''stat'' '' '' ''cpu'' i (26 + length (show_int user)) (sample_word user i)
     \<and> number_in 1000 (sample_word user i) = Some (demo_times user i)) [0, 1, 2, 3, 4, 5, 6, 7]"

lemma demo_sample:
  assumes "sample_test n user" "\<forall>j < 9. open_file demo_proc (n + j) ''stat'' = open_file demo_proc n ''stat''"
    "0 \<le> user" "user \<le> 1000"
  shows "cpu_sample demo_proc n (demo_times user)"
proof -
  have "{..<8} = {0, 1, 2, 3, 4, 5, 6, 7 :: nat}" by auto
  then have b: "(\<forall>i < 8. 0 \<le> demo_times user i) \<and> sum (demo_times user) {..<8} \<le> INT_MAX"
    using assms(3,4) by (auto simp: demo_times_def INT_MAX_def less_Suc_eq eval_nat_numeral)
  have "\<exists>v. file_has demo_proc (n + j) ''stat'' 1000 '' '' ''cpu'' i v \<and> number_in 1000 v = Some (demo_times user i)"
    if "j < 9" "i < 8" for i j
  proof -
    have "i \<in> set [0, 1, 2, 3, 4, 5, 6, 7]" using that(2) by auto
    then have t: "file_test n ''stat'' '' '' ''cpu'' i (26 + length (show_int user)) (sample_word user i)"
      "number_in 1000 (sample_word user i) = Some (demo_times user i)"
      using assms(1) unfolding sample_test_def list_all_iff by blast+
    have o: "open_file demo_proc (n + j) ''stat'' = open_file demo_proc n ''stat''" using assms(2) that(1) by simp
    have "file_test (n + j) ''stat'' '' '' ''cpu'' i (26 + length (show_int user)) (sample_word user i)"
      using t(1) unfolding file_test_def o .
    then show ?thesis using t(2) short_test by blast
  qed
  with b show ?thesis unfolding cpu_sample_def by blast
qed

lemma demo_stat_open: "open_file demo_proc n ''stat'' = Some (if n < 15 then demo_stat ''10'' else demo_stat ''110'')"
  by (simp add: demo_proc_def)

lemma demo_samples: "cpu_sample demo_proc 6 (demo_times 10)" "cpu_sample demo_proc 15 (demo_times 110)"
proof -
  have t: "sample_test 6 10" "sample_test 15 110" by code_simp+
  show "cpu_sample demo_proc 6 (demo_times 10)" by (rule demo_sample [OF t(1)]) (simp_all only: demo_stat_open, simp_all)
  show "cpu_sample demo_proc 15 (demo_times 110)" by (rule demo_sample [OF t(2)]) (simp_all only: demo_stat_open, simp_all)
qed

lemma demo_stat_lines: "stat_lines (demo_stat ''10'') 2"
  unfolding stat_lines_def
proof (intro conjI exI)
  show "demo_stat ''10'' = demo_stat ''10'' @ []" by simp
  show "words_of [CHR 0x0A] (demo_stat ''10'') =
      [''cpu 10 0 10 80 0 0 0 0'', ''cpu0 10 0 10 80 0 0 0 0''] @ ''intr 7'' # [''ctxt 9'', ''processes 4'']" by code_simp
qed (code_simp+)

lemma demo_mem_number:
  "\<lbrakk>file_test n ''meminfo'' [CHR 0x0A, CHR '' ''] key 0 m v; atoi_int v = Some x \<and> length v < 1000 \<and> 0 \<le> x\<rbrakk>
    \<Longrightarrow> mem_number demo_proc n key x"
  unfolding mem_number_def using long_test number_inI by blast

lemma demo_memory: "memory_file demo_proc 24 1000 600 50 50 0"
proof -
  have "mem_number demo_proc 24 ''MemTotal:'' 1000"
    by (rule demo_mem_number [where m = 99 and v = "''1000''"]) code_simp+
  moreover have "mem_number demo_proc 25 ''MemFree:'' 600"
    by (rule demo_mem_number [where m = 99 and v = "''600''"]) code_simp+
  moreover have "mem_number demo_proc 26 ''Buffers:'' 50"
    by (rule demo_mem_number [where m = 99 and v = "''50''"]) code_simp+
  moreover have "mem_number demo_proc 27 ''Cached:'' 50"
    by (rule demo_mem_number [where m = 99 and v = "''50''"]) code_simp+
  moreover have "mem_number demo_proc 28 ''SwapCached:'' 0"
    by (rule demo_mem_number [where m = 99 and v = "''0''"]) code_simp+
  ultimately show ?thesis by (simp add: memory_file_def INT_MAX_def)
qed

lemma demo_hardware: "hardware_files demo_proc 3 ''Cpu X'' 1 ''0.1 0.2 0.3 1/9 1'' (demo_times 10) (demo_times 110) 1000 300"
proof -
  have "file_test 3 ''cpuinfo'' [CHR 0x09, CHR 0x0A] ''model name'' 0 99 '': Cpu X''"
    "file_test 5 ''loadavg'' [CHR 0x0A] ''NONE'' 0 99 ''0.1 0.2 0.3 1/9 1''" by code_simp+
  note t = this(1) [THEN short_test] this(2) [THEN long_test]
  have c: "open_file demo_proc 4 ''stat'' = Some (demo_stat ''10'')" by (simp add: demo_proc_def)
  have "length (demo_stat ''10'') \<le> SZ" by (simp add: demo_stat_def SZ_def)
  with demo_stat_lines have l: "stat_lines (take SZ (demo_stat ''10'')) (1 + 1)" by (simp add: numeral_2_eq_2)
  have m: "\<exists>f b c s. memory_file demo_proc (3 + 21) 1000 f b c s \<and> 300 = 1000 - (f + b + c + s)"
    using demo_memory by (intro exI [of _ 600] exI [of _ 50] exI [of _ 0]) auto
  have i: "demo_times 110 3 - demo_times 10 3 + 5 \<noteq> 0" by (simp add: demo_times_def)
  show ?thesis unfolding hardware_files_def using t c l m i demo_samples by (auto simp: SZ_def)
qed

lemma demo_stat_fields:
  "stat_field demo_proc 29 ''intr'' ''7''" "stat_field demo_proc 30 ''ctxt'' ''9''" "stat_field demo_proc 31 ''processes'' ''4''"
proof -
  have "file_test 29 ''stat'' [CHR 0x0A, CHR '' ''] ''intr'' 0 999 ''7''"
    "file_test 30 ''stat'' [CHR 0x0A, CHR '' ''] ''ctxt'' 0 999 ''9''"
    "file_test 31 ''stat'' [CHR 0x0A, CHR '' ''] ''processes'' 0 999 ''4''" by code_simp+
  note t = this [THEN long_test]
  from t show "stat_field demo_proc 29 ''intr'' ''7''" "stat_field demo_proc 30 ''ctxt'' ''9''"
    "stat_field demo_proc 31 ''processes'' ''4''" by (simp_all add: stat_field_def)
qed

definition demo_row :: line where
  "demo_row = Task_row 1 ''sleeping'' ''init'' ''root'' ''1''"

lemma demo_task_fields:
  "file_has demo_proc n ''1/status'' SZ SNT ''Threads:'' 0 ''1''" "file_has demo_proc n ''1/status'' SZ SNT ''Name:'' 0 ''init''"
  "file_has demo_proc n ''1/status'' SZ SNT ''State:'' 0 ''S''" "file_has demo_proc n ''1/status'' SZ SNT ''Uid:'' 0 ''0''"
proof -
  have "file_test 0 ''1/status'' SNT ''Threads:'' 0 99 ''1''" "file_test 0 ''1/status'' SNT ''Name:'' 0 99 ''init''"
    "file_test 0 ''1/status'' SNT ''State:'' 0 99 ''S''" "file_test 0 ''1/status'' SNT ''Uid:'' 0 99 ''0''" by code_simp+
  moreover have "file_test n ''1/status'' SNT key 0 99 v" if "file_test 0 ''1/status'' SNT key 0 99 v" for key v
    using that by (simp add: file_test_def demo_proc_def)
  ultimately show "file_has demo_proc n ''1/status'' SZ SNT ''Threads:'' 0 ''1''"
    "file_has demo_proc n ''1/status'' SZ SNT ''Name:'' 0 ''init''" "file_has demo_proc n ''1/status'' SZ SNT ''State:'' 0 ''S''"
    "file_has demo_proc n ''1/status'' SZ SNT ''Uid:'' 0 ''0''"
    using long_test by blast+
qed

lemma demo_rows: "rows_of demo_proc [(''.'', True), (''1'', True), (''stat'', False), (''sys'', True)] [demo_row]"
proof -
  have a: "atoi_int ''1'' = Some 1" "atoi_int ''0'' = Some 0" by code_simp+
  have u: "user_name demo_proc 0 = Some ''root''" by (simp add: demo_proc_def)
  have "task_of demo_proc ''1'' ''root'' demo_row"
    unfolding task_of_def status_field_def
    by (rule conjI, simp add: SZ_def, rule exI [of _ "''1''"], rule exI [of _ "''init''"], rule exI [of _ "''S''"],
        rule exI [of _ "''0''"], rule exI [of _ 0], rule exI [of _ 1])
      (use demo_task_fields a u in \<open>simp add: SZ_def demo_row_def state_name_def\<close>)
  then show ?thesis by (auto simp: rows_of_def is_task_def isdigit_def)
qed

definition demo_report :: "line list" where
  "demo_report =
     [Cwd, System ''box'' ''5.0'' [(1, Minutes), (30, Seconds)], Hardware ''Cpu X'' ''1'' ''0.1 0.2 0.3 1/9'',
      Cpu_usage (printProgress 20 20) 200, Memory_usage (printProgress 6 20) 30 (3 / 10000),
      Tasks 1 ''7'' ''9'' ''4'', Task_header, demo_row]"

lemma demo_files_ok: "proc_files demo_proc False demo_report"
proof -
  have "sum (demo_times u) {..<8} = u + 90" for u
  proof -
    have "{..<8} = {0, 1, 2, 3, 4, 5, 6, 7 :: nat}" by auto
    then show ?thesis by (simp add: demo_times_def)
  qed
  then have c: "cpu_percent (demo_times 10) (demo_times 110) = 200"
    by (simp add: cpu_percent_def) (simp add: demo_times_def)
  have m: "mem_percent 1000 300 = 30" by (simp add: mem_percent_def)
  have a: "trunc_int (200 / 5) = Some 40" "trunc_int (30 / 5) = Some 6" by (simp_all add: trunc_int_def to_int_def INT_MAX_def)
  have p: "printProgress 40 20 = printProgress 20 20" by code_simp
  have i: "printUptime 90 = [(1, Minutes), (30, Seconds)]" "show_int (int 1) = ''1''" by code_simp+
  show ?thesis unfolding proc_files_def
  proof (intro conjI exI)
    show "system_files demo_proc 0 ''box'' ''5.0'' 90" by (rule demo_system)
    show "hardware_files demo_proc 3 ''Cpu X'' 1 ''0.1 0.2 0.3 1/9 1'' (demo_times 10) (demo_times 110) 1000 300"
      by (rule demo_hardware)
    show "trunc_int (cpu_percent (demo_times 10) (demo_times 110) / 5) = Some 40" "trunc_int (mem_percent 1000 300 / 5) = Some 6"
      unfolding c m by (rule a)+
    show "rows_of demo_proc [(''.'', True), (''1'', True), (''stat'', False), (''sys'', True)] [demo_row]" by (rule demo_rows)
    show "stat_field demo_proc 29 ''intr'' ''7''" "stat_field demo_proc 30 ''ctxt'' ''9''"
      "stat_field demo_proc 31 ''processes'' ''4''" by (rule demo_stat_fields)+
    show "demo_report = [Cwd, System ''box'' ''5.0'' (printUptime 90), Hardware ''Cpu X'' (show_int (int 1)) (take 15 ''0.1 0.2 0.3 1/9 1''),
         Cpu_usage (printProgress 40 20) (cpu_percent (demo_times 10) (demo_times 110)),
         Memory_usage (printProgress 6 20) (mem_percent 1000 300) (of_int 300 / 1000000),
         Tasks (length (filter is_task [(''.'', True), (''1'', True), (''stat'', False), (''sys'', True)])) ''7'' ''9'' ''4'', Task_header] @ [demo_row]"
      unfolding c m p i by (simp add: demo_report_def is_task_def isdigit_def)
  qed (simp_all add: demo_proc_def)
qed

theorem inspector_reports_witness: "inspector_main demo_proc 1 [] = Some (0, [], demo_report)"
  using inspector_reports [OF demo_files_ok, of "[]"] by simp

section \<open>The processor\<close>

text \<open>
  From two samples of the line \<open>cpu\<close> the processor usage is computed as 10 times the ticks of
  all kinds divided by the idle ticks plus 5. A machine that was idle all the time is reported
  with nearly 10 percent, and one that was busy all the time with two percent per tick, that is
  with 200 percent after a second of 100 ticks.
\<close>

theorem cpu_usage_value:
  assumes "cpu_sample env n P" "cpu_sample env (n + 9) C" "P 3 \<le> C 3" "ticks = sum C {..<8} - sum P {..<8}"
  shows "yields (cpu_usage env) n (Some (cpu_percent P C)) 18 []
    \<and> (ticks = C 3 - P 3 \<longrightarrow> 0 \<le> cpu_percent P C \<and> cpu_percent P C < 10)
    \<and> (C 3 = P 3 \<longrightarrow> cpu_percent P C = 2 * of_int ticks)"
proof (intro conjI impI)
  show "yields (cpu_usage env) n (Some (cpu_percent P C)) 18 []"
    unfolding cpu_percent_def using assms(3) by (intro yields_cpu_usage [OF assms(1,2)]) simp
next
  assume "C 3 = P 3"
  then show "cpu_percent P C = 2 * of_int ticks" by (simp add: cpu_percent_def assms(4))
next
  assume t: "ticks = C 3 - P 3"
  define d where "d = (of_int (C 3 - P 3) :: rat)"
  have d: "0 \<le> d" unfolding d_def using assms(3) by simp
  have c: "cpu_percent P C = 10 * d / (d + 5)"
    using t assms(4) by (simp add: cpu_percent_def d_def del: of_int_sum)
  then show "0 \<le> cpu_percent P C" "cpu_percent P C < 10" unfolding c using d by (simp_all add: divide_less_eq)
qed

theorem cpu_usage_value_witness:
  "\<exists>s'. cpu_usage demo_proc \<lparr>opens = 6, buf = [], report = []\<rparr> = Some (Inr (Some 200), s')"
proof -
  have "{..<8} = {0, 1, 2, 3, 4, 5, 6, 7 :: nat}" by auto
  then have t: "(100 :: int) = sum (demo_times 110) {..<8} - sum (demo_times 10) {..<8}"
    by (simp add: demo_times_def)
  have s: "cpu_sample demo_proc (6 + 9) (demo_times 110)" using demo_samples(2) by simp
  have i: "demo_times 10 3 \<le> demo_times 110 3" "demo_times 110 3 = demo_times 10 3" by (simp_all add: demo_times_def)
  note v = cpu_usage_value [OF demo_samples(1) s i(1) t]
  have "cpu_percent (demo_times 10) (demo_times 110) = 200" using v i(2) by simp
  then have "yields (cpu_usage demo_proc) 6 (Some 200) 18 []" using v by simp
  from this [unfolded yields_def, rule_format, of "\<lparr>opens = 6, buf = [], report = []\<rparr>"] show ?thesis by auto
qed

section \<open>A user name that does not fit\<close>

definition fails :: "'a run \<Rightarrow> nat \<Rightarrow> bool" where
  "fails m n \<longleftrightarrow> (\<forall>s. opens s = n \<longrightarrow> m s = None)"

lemma fails_first: "fails m n \<Longrightarrow> fails (bind_run m f) n"
  by (simp add: fails_def bind_run_def)

lemma fails_later: "\<lbrakk>yields m n x k ls; fails (f x) (n + k)\<rbrakk> \<Longrightarrow> fails (bind_run m f) n"
  by (fastforce simp: yields_def fails_def bind_run_def)

lemma fails_field:
  assumes "file_has env n file sz sep key k v" "copy v = None"
  shows "fails (read_field env file sz sep key k copy) n"
  unfolding fails_def
proof (intro allI impI)
  fix s :: insp assume n: "opens s = n"
  obtain c where c: "open_file env n file = Some c" "has_field sep key k (take sz c) v"
    using assms(1) by (auto simp: file_has_def)
  obtain st where "getNextTok (read_into (take sz c) (buf s)) sep key k = Some (st, Some v)"
    using getNextTok_field [OF c(2), of "drop (length (take sz c)) (buf s)"] unfolding read_into_def by blast
  then show "read_field env file sz sep key k copy s = None" using n c(1) assms(2) by (simp add: read_field_def)
qed

lemma fails_task_row:
  assumes "task_of env d user row" "16 \<le> length user"
  shows "fails (task_row env d v) n"
proof -
  obtain tasks name st uid u pid where f: "status_field env d ''Threads:'' tasks 5" "status_field env d ''Name:'' name 200"
      "status_field env d ''State:'' st 13" "status_field env d ''Uid:'' uid SZ"
    and i: "atoi_int d = Some pid" "atoi_int uid = Some u" "user_name env u = Some user" and l: "length d + 7 < SZ"
    using assms(1) unfolding task_of_def by blast
  have c: "strcpy_into SZ (d @ ''/status'') = Some (d @ ''/status'')" using l by simp
  have u: "fails (keep old (task_field env d ''Uid:''
      (\<lambda>tok. do { uid \<leftarrow> atoi_int tok; u \<leftarrow> getUser env uid; strcpy_into 16 u }))) m" for old m
    unfolding keep_def task_field_def
    by (rule fails_first, rule fails_field [where v = uid])
      (use f(4) i assms(2) in \<open>simp_all add: status_field_def getUser_def strcpy_into_def\<close>)
  show ?thesis unfolding task_row_def Let_def
    by (rule fails_later, rule yields_lift [OF c], rule fails_later, rule yields_task_copied [OF f(1)],
        rule fails_later, rule yields_task_copied [OF f(2)], rule fails_later, rule yields_task_copied [OF f(3)],
        rule fails_later, rule yields_lift [OF i(1)], rule fails_first, rule u)
qed

lemma fails_task_rows:
  assumes "task_of env (fst e) user row" "16 \<le> length user" "is_task e"
  shows "rows_of env es rows \<Longrightarrow> fails (task_rows env (es @ e # es') v) n"
proof (induction es arbitrary: v n rows)
  case Nil
  show ?case using fails_first [OF fails_task_row [OF assms(1,2)]] assms(3) by simp
next
  case (Cons x es)
  show ?case
  proof (cases "is_task x")
    case True
    then obtain row rows' user where r: "rows = row # rows'" "task_of env (fst x) user row" "length user < 16" "rows_of env es rows'"
      using Cons.prems by (auto simp: rows_of_def list_all2_Cons1)
    obtain v' where "yields (task_row env (fst x) v) n v' 4 [row]" using yields_task_row [OF r(2,3)] by blast
    from fails_later [OF this Cons.IH [OF r(4)]] show ?thesis using True by simp
  qed (use Cons in \<open>simp add: rows_of_def\<close>)
qed

text \<open>
  The list of tasks gets to the first task whose user has a name of 16 or more characters, and
  copies the name over the end of its array: with such a task the section has no defined
  result, whatever comes before and behind it.
\<close>

theorem long_user_name:
  assumes "listing env (proc_dir alt) = Some (es @ e # es')" "rows_of env es rows" "is_task e"
    and "task_of env (fst e) user row" "16 \<le> length user"
  shows "task_list_info env alt s = None"
proof -
  have "task_rows env (es @ e # es') v s' = None" for v s'
    using fails_task_rows [OF assms(4,5,3,2)] unfolding fails_def by simp
  then show ?thesis by (simp add: task_list_info_def assms(1) bind_run_def print_def)
qed

theorem long_user_name_witness:
  "task_list_info (demo_proc\<lparr>user_name := \<lambda>_. Some ''systemd-timesync''\<rparr>) False \<lparr>opens = 0, buf = [], report = []\<rparr> = None"
proof -
  let ?e = "demo_proc\<lparr>user_name := \<lambda>_. Some ''systemd-timesync''\<rparr>"
  have l: "listing ?e (proc_dir False) = Some ([(''.'', True)] @ (''1'', True) # [(''stat'', False), (''sys'', True)])"
    by (simp add: demo_proc_def)
  have r: "rows_of ?e [(''.'', True)] []" by (simp add: rows_of_def is_task_def isdigit_def)
  have t: "is_task (''1'', True)" by (simp add: is_task_def isdigit_def)
  have f: "file_has ?e n f sz d k i v = file_has demo_proc n f sz d k i v" for n f sz d k i v
    by (simp add: file_has_def)
  have "atoi_int ''0'' = Some 0" "atoi_int ''1'' = Some 1" by code_simp+
  with demo_task_fields have "task_of ?e (fst (''1'', True)) ''systemd-timesync''
      (Task_row 1 (state_name ''S'') (take 25 ''init'') (take 15 ''systemd-timesync'') ''1'')"
    unfolding task_of_def status_field_def f
    by (intro conjI exI) (auto simp: SZ_def)
  from long_user_name [OF l r t this] show ?thesis by simp
qed

end
