(* ===== verification/Leetify.thy ===== *)
theory Leetify
  imports Shell_Pipe
begin

text \<open>
  The pipeline of LabWork/Lab9/leetify.c, the exercise in front of the shell: \<open>cat\<close>, \<open>tr\<close> and \<open>sed\<close>, whose
  output goes to the terminal or to a file. Its \<open>execute_pipeline\<close> has the shape of the shell's, but
  a process whose call fails returns into \<open>main\<close> and ends there with the status 0. The data of
  the commands are the shell's, and so are the answers of the operating system.
\<close>

record leet_os = os +
  wait_ok :: bool

text \<open>A process of the pipeline: it runs a program, or ends with status 0.\<close>

datatype stage =
    Exec "string list" source sink
  | Exit0 source sink

text \<open>
  The commands behind the current one: past the end of the array there is no command. In the
  branches with a pipe the results of \<open>dup2\<close> are not looked at.
\<close>

fun leet_pipeline :: "leet_os \<Rightarrow> nat \<Rightarrow> source \<Rightarrow> command_line list \<Rightarrow> stage list option" where
  "leet_pipeline os n src [] = None"
| "leet_pipeline os n src (c # cs) = do {
     argv \<leftarrow> tokens c;
     let execvp = (\<lambda>snk. if argv \<noteq> [] \<and> exec_ok os (hd argv) then Exec argv src snk else Exit0 src snk);
     if \<not> stdout_pipe c then
       (case stdout_file c of
          None \<Rightarrow> Some [execvp Stdout]
        | Some f \<Rightarrow>
            if \<not> open_ok os f then Some [Exit0 src Stdout]
            else if \<not> dup2_ok os then Some [Exit0 src Stdout]
            else Some [execvp (To_file f)])
     else if \<not> pipe_ok os n then Some [Exit0 src Stdout]
     else if \<not> fork_ok os n then Some [Exit0 src Stdout]
     else do {
       parent \<leftarrow> leet_pipeline os (n + 1) (From_pipe n) cs;
       Some (execvp (To_pipe n) # parent)
     }
   }"

definition CAT :: "string \<Rightarrow> string list" where
  "CAT input_file = [''cat'', input_file]"

definition TR :: "string list" where
  "TR = [''tr'', ''[:upper:]'', ''[:lower:]'']"

definition SED :: "string list" where
  "SED = [''sed'', ''s|the|teh|g; s|a|4|g; s|e|3|g; s|i|!|g; s|l|1|g; s|o|0|g; s|s|5|g;'']"

definition leet_cmds :: "string \<Rightarrow> string option \<Rightarrow> command_line list" where
  "leet_cmds input_file output_file =
     [\<lparr>tokens = Some (CAT input_file), stdout_pipe = True, stdout_file = None\<rparr>,
      \<lparr>tokens = Some TR, stdout_pipe = True, stdout_file = None\<rparr>,
      \<lparr>tokens = Some SED, stdout_pipe = False, stdout_file = output_file\<rparr>]"

text \<open>The status of \<open>main\<close> and the processes below it.\<close>

definition leetify :: "leet_os \<Rightarrow> string list \<Rightarrow> (int \<times> stage list) option" where
  "leetify os argv =
     (if length argv < 2 \<or> length argv > 3 then Some (1, [])
      else let output_file = (if length argv = 3 then Some (argv ! 2) else None) in
        if fork_pid os = -1 then Some (-1, [])
        else do {
          stages \<leftarrow> leet_pipeline os 0 Stdin (leet_cmds (argv ! 1) output_file);
          Some (if wait_ok os then 0 else -1, stages)
        })"

section \<open>The data\<close>

text \<open>
  What a program writes for its arguments and its input is a parameter. The pipes and files start
  empty; each process reads its source to the end and appends what it writes to its sink. A process
  reads only what one before it in the list writes, so they can be run in this order.
\<close>

fun content :: "source \<Rightarrow> string \<Rightarrow> (sink \<Rightarrow> string) \<Rightarrow> string" where
  "content Stdin inp mem = inp"
| "content (From_pipe n) inp mem = mem (To_pipe n)"

fun run_stage :: "(string list \<Rightarrow> string \<Rightarrow> string) \<Rightarrow> string \<Rightarrow> stage \<Rightarrow> (sink \<Rightarrow> string) \<Rightarrow> (sink \<Rightarrow> string)" where
  "run_stage prog inp (Exec argv src snk) mem = mem(snk := mem snk @ prog argv (content src inp mem))"
| "run_stage prog inp (Exit0 src snk) mem = mem"

definition run_stages :: "(string list \<Rightarrow> string \<Rightarrow> string) \<Rightarrow> string \<Rightarrow> stage list \<Rightarrow> (sink \<Rightarrow> string) \<Rightarrow> (sink \<Rightarrow> string)" where
  "run_stages prog inp stages mem = fold (run_stage prog inp) stages mem"

lemma run_stages_simps [simp]:
  "run_stages prog inp [] mem = mem"
  "run_stages prog inp (st # sts) mem = run_stages prog inp sts (run_stage prog inp st mem)"
  by (simp_all add: run_stages_def)

section \<open>What flows through a list of commands\<close>

text \<open>Each command has words; all but the last one write to a pipe.\<close>

fun piped :: "command_line list \<Rightarrow> bool" where
  "piped [] \<longleftrightarrow> False"
| "piped [c] \<longleftrightarrow> (\<exists>w ws. tokens c = Some (w # ws)) \<and> \<not> stdout_pipe c"
| "piped (c # cs) \<longleftrightarrow> (\<exists>w ws. tokens c = Some (w # ws)) \<and> stdout_pipe c \<and> piped cs"

text \<open>The calls that the stages from the \<open>n\<close>th on make succeed.\<close>

fun calls_ok :: "leet_os \<Rightarrow> nat \<Rightarrow> command_line list \<Rightarrow> bool" where
  "calls_ok os n [] \<longleftrightarrow> True"
| "calls_ok os n [c] \<longleftrightarrow> (case stdout_file c of None \<Rightarrow> True | Some f \<Rightarrow> open_ok os f \<and> dup2_ok os)"
| "calls_ok os n (c # cs) \<longleftrightarrow> pipe_ok os n \<and> fork_ok os n \<and> calls_ok os (n + 1) cs"

definition final_sink :: "command_line list \<Rightarrow> sink" where
  "final_sink cs = (case stdout_file (List.last cs) of None \<Rightarrow> Stdout | Some f \<Rightarrow> To_file f)"

text \<open>What a command makes of its input; nothing when its program is missing.\<close>

definition command_output :: "leet_os \<Rightarrow> (string list \<Rightarrow> string \<Rightarrow> string) \<Rightarrow> command_line \<Rightarrow> string \<Rightarrow> string" where
  "command_output os prog c x =
     (let argv = the (tokens c) in if exec_ok os (hd argv) then prog argv x else [])"

lemma final_sink_no_pipe: "final_sink cs \<noteq> To_pipe n"
  by (simp add: final_sink_def split: option.splits)

lemma stages_flow:
  "\<lbrakk>piped cs; calls_ok os n cs; mem (final_sink cs) = []; \<forall>k \<ge> n. mem (To_pipe k) = []\<rbrakk> \<Longrightarrow>
   \<exists>stages. leet_pipeline os n src cs = Some stages \<and> length stages = length cs
     \<and> run_stages prog inp stages mem (final_sink cs) = fold (command_output os prog) cs (content src inp mem)"
proof (induction cs arbitrary: n src mem rule: piped.induct)
  case (2 c)
  then show ?case by (auto simp: final_sink_def command_output_def Let_def split: option.splits)
next
  case (3 c d cs)
  from "3.prems"(1) obtain w ws where c: "tokens c = Some (w # ws)" "stdout_pipe c" "piped (d # cs)" by auto
  from "3.prems"(2) have ok: "pipe_ok os n" "fork_ok os n" "calls_ok os (n + 1) (d # cs)" by simp_all
  define st where "st = (if exec_ok os w then Exec (w # ws) src (To_pipe n) else Exit0 src (To_pipe n))"
  define mem' where "mem' = run_stage prog inp st mem"
  have last: "final_sink (c # d # cs) = final_sink (d # cs)" by (simp add: final_sink_def)
  have m: "mem' (To_pipe n) = command_output os prog c (content src inp mem)"
    "mem' (final_sink (d # cs)) = []" "\<forall>k \<ge> n + 1. mem' (To_pipe k) = []"
    using "3.prems"(3,4) final_sink_no_pipe [of "d # cs" n] unfolding last
    by (auto simp: mem'_def st_def command_output_def c(1))
  from "3.IH" [OF c(3) ok(3) m(2,3), of "From_pipe n"] obtain stages where
    s: "leet_pipeline os (n + 1) (From_pipe n) (d # cs) = Some stages" "length stages = length (d # cs)"
      "run_stages prog inp stages mem' (final_sink (d # cs)) = fold (command_output os prog) (d # cs) (mem' (To_pipe n))"
    by auto
  have "leet_pipeline os n src (c # d # cs) = Some (st # stages)"
    using c(1,2) ok(1,2) s(1) by (simp add: st_def Let_def)
  with s(2,3) m(1) show ?case by (intro exI [of _ "st # stages"]) (simp add: last mem'_def [symmetric])
qed simp

text \<open>When a call fails, the stages behind it are missing, and the terminal and the files get nothing.\<close>

lemma stages_stop:
  "\<lbrakk>piped cs; \<not> calls_ok os n cs\<rbrakk> \<Longrightarrow>
   \<exists>stages. leet_pipeline os n src cs = Some stages \<and> (\<forall>s. (\<forall>k. s \<noteq> To_pipe k) \<longrightarrow> run_stages prog inp stages mem s = mem s)"
proof (induction cs arbitrary: n src mem rule: piped.induct)
  case (2 c)
  then show ?case by (auto split: option.splits)
next
  case (3 c d cs)
  from "3.prems"(1) obtain w ws where c: "tokens c = Some (w # ws)" "stdout_pipe c" "piped (d # cs)" by auto
  show ?case
  proof (cases "pipe_ok os n \<and> fork_ok os n")
    case True
    with "3.prems"(2) have "\<not> calls_ok os (n + 1) (d # cs)" by simp
    define st where "st = (if exec_ok os w then Exec (w # ws) src (To_pipe n) else Exit0 src (To_pipe n))"
    from "3.IH" [OF c(3) \<open>\<not> calls_ok os (n + 1) (d # cs)\<close>, of "From_pipe n" "run_stage prog inp st mem"] obtain stages where
      s: "leet_pipeline os (n + 1) (From_pipe n) (d # cs) = Some stages"
        "\<forall>s. (\<forall>k. s \<noteq> To_pipe k) \<longrightarrow> run_stages prog inp stages (run_stage prog inp st mem) s = run_stage prog inp st mem s"
      by blast
    have "leet_pipeline os n src (c # d # cs) = Some (st # stages)" using c(1,2) True s(1) by (simp add: st_def Let_def)
    with s(2) show ?thesis by (intro exI [of _ "st # stages"]) (simp add: st_def)
  next
    case False
    with c(1,2) show ?thesis by (intro exI [of _ "[Exit0 src Stdout]"]) auto
  qed
qed simp

text \<open>
  C21: What flows through the pipes of leetify. For every list of commands of which all but the last
  write to a pipe, when the calls of the operating system succeed, the file or the terminal gets
  what the last command makes of what the one before it makes, and so on to the standard input;
  a missing program gives empty output, and its stage ends with status 0. When a pipe, a process
  or the file cannot be made, no file and no terminal gets anything.
\<close>

theorem leet_data_flow:
  assumes "piped cs"
  shows "\<exists>stages. leet_pipeline os 0 Stdin cs = Some stages
    \<and> (calls_ok os 0 cs \<longrightarrow> length stages = length cs
        \<and> run_stages prog inp stages (\<lambda>_. []) (final_sink cs) = fold (command_output os prog) cs inp)
    \<and> (\<not> calls_ok os 0 cs \<longrightarrow> (\<forall>s. (\<forall>k. s \<noteq> To_pipe k) \<longrightarrow> run_stages prog inp stages (\<lambda>_. []) s = []))"
proof (cases "calls_ok os 0 cs")
  case True
  with stages_flow [OF assms True, of "\<lambda>_. []" Stdin] show ?thesis by auto
next
  case False
  with stages_stop [OF assms False, of Stdin] show ?thesis by blast
qed

text \<open>The three commands of leetify, from a file to a file; a program appends its name.\<close>

abbreviation leet_os1 :: leet_os where
  "leet_os1 \<equiv> \<lparr>exec_ok = \<lambda>_. True, open_ok = \<lambda>_. True, dup2_ok = True, pipe_ok = \<lambda>_. True, fork_ok = \<lambda>_. True,
     fork_pid = 7, in_wait = [], chdir_ok = \<lambda>_. True, wait_ok = True\<rparr>"

theorem leet_data_flow_witness:
  "\<exists>stages. leet_pipeline leet_os1 0 Stdin (leet_cmds ''in'' (Some ''out'')) = Some stages
    \<and> run_stages (\<lambda>argv x. x @ hd argv) ''-'' stages (\<lambda>_. []) (To_file ''out'') = ''-cattrsed''"
proof -
  have p: "piped (leet_cmds ''in'' (Some ''out''))" by (simp add: leet_cmds_def CAT_def TR_def SED_def)
  have "calls_ok leet_os1 0 (leet_cmds ''in'' (Some ''out''))" "final_sink (leet_cmds ''in'' (Some ''out'')) = To_file ''out''"
    by (simp_all add: leet_cmds_def final_sink_def)
  with leet_data_flow [OF p, of leet_os1 "\<lambda>argv x. x @ hd argv" "''-''"] show ?thesis
    by (auto simp: leet_cmds_def command_output_def CAT_def TR_def SED_def)
qed

section \<open>The program\<close>

definition leet_ready :: "leet_os \<Rightarrow> string list \<Rightarrow> bool" where
  "leet_ready os argv \<longleftrightarrow> length argv \<in> {2, 3} \<and> fork_pid os \<noteq> -1 \<and> wait_ok os
     \<and> pipe_ok os 0 \<and> pipe_ok os 1 \<and> fork_ok os 0 \<and> fork_ok os 1
     \<and> (length argv = 3 \<longrightarrow> open_ok os (argv ! 2) \<and> dup2_ok os)"

text \<open>
  When the calls of the operating system succeed, leetify ends with 0, and the file or
  the terminal gets the output of \<open>sed\<close> on that of \<open>tr\<close> on that of \<open>cat\<close>. The status is 0 as well when a
  program is missing.
\<close>

theorem leetify_pipes:
  assumes "leet_ready os argv"
  shows "\<exists>stages. leetify os argv = Some (0, stages)
    \<and> (exec_ok os ''cat'' \<and> exec_ok os ''tr'' \<and> exec_ok os ''sed'' \<longrightarrow>
        run_stages prog inp stages (\<lambda>_. []) (if length argv = 3 then To_file (argv ! 2) else Stdout)
          = prog SED (prog TR (prog (CAT (argv ! 1)) inp)))"
proof -
  let ?f = "if length argv = 3 then Some (argv ! 2) else None"
  let ?cs = "leet_cmds (argv ! 1) ?f"
  have p: "piped ?cs" by (simp add: leet_cmds_def CAT_def TR_def SED_def)
  have c: "calls_ok os 0 ?cs" using assms by (auto simp: leet_ready_def leet_cmds_def)
  obtain stages where s: "leet_pipeline os 0 Stdin ?cs = Some stages"
    "run_stages prog inp stages (\<lambda>_. []) (final_sink ?cs) = fold (command_output os prog) ?cs inp"
    using stages_flow [OF p c, of "\<lambda>_. []" Stdin prog inp] by auto
  have sink: "final_sink ?cs = (if length argv = 3 then To_file (argv ! 2) else Stdout)"
    by (simp add: final_sink_def leet_cmds_def)
  have out: "fold (command_output os prog) ?cs inp = prog SED (prog TR (prog (CAT (argv ! 1)) inp))"
    if "exec_ok os ''cat'' \<and> exec_ok os ''tr'' \<and> exec_ok os ''sed''"
    using that by (simp add: leet_cmds_def command_output_def CAT_def TR_def SED_def)
  have run: "leetify os argv = Some (0, stages)"
  proof -
    have "\<not> (length argv < 2 \<or> length argv > 3)" "fork_pid os \<noteq> -1" "wait_ok os" using assms by (auto simp: leet_ready_def)
    with s(1) show ?thesis by (simp add: leetify_def Let_def)
  qed
  show ?thesis
    by (intro exI [of _ stages] conjI impI run) (simp only: s(2) out flip: sink)
qed

theorem leetify_pipes_witness:
  "\<exists>stages. leetify leet_os1 [''leetify'', ''in'', ''out''] = Some (0, stages)
    \<and> run_stages (\<lambda>argv inp. inp @ hd argv) [] stages (\<lambda>_. []) (To_file ''out'') = ''cattrsed''"
proof -
  have "leet_ready leet_os1 [''leetify'', ''in'', ''out'']" by (simp add: leet_ready_def)
  from leetify_pipes [OF this, of "\<lambda>argv inp. inp @ hd argv" "[]"] show ?thesis
    by (auto simp: CAT_def TR_def SED_def)
qed

end
