(* ===== verification/Msg_Server.thy ===== *)
theory Msg_Server
  imports Sockets
begin

text \<open>
  The message server, LabWork/Lab11/server.c: \<open>read_len\<close>, the loop over the messages of a client, and
  \<open>main\<close>. A connection is the bytes that are still to
  come, how many of them each \<open>read\<close> delivers at most, and whether it ends with an error or in
  the ordinary way, when \<open>read\<close> returns 0 again and again.
\<close>

section \<open>The code\<close>

record sock =
  pending :: string
  chunks :: "nat list"
  reset :: bool

text \<open>\<open>read\<close> of at most \<open>n\<close> bytes: \<open>None\<close> for -1. A chunk of \<open>k\<close> delivers \<open>k + 1\<close> bytes.\<close>

definition sys_read :: "nat \<Rightarrow> sock \<Rightarrow> string option \<times> sock" where
  "sys_read n sk =
     (if pending sk = [] then (if reset sk then None else Some [], sk)
      else let k = (case chunks sk of [] \<Rightarrow> n | c # _ \<Rightarrow> min n (Suc c)) in
        (Some (take k (pending sk)), sk\<lparr>pending := drop k (pending sk), chunks := tl (chunks sk)\<rparr>))"

text \<open>
  The loop asks for \<open>len\<close> bytes at the beginning of the buffer each time. \<open>result\<close> is an \<open>int\<close> that the
  comparison converts to \<open>size_t\<close>, so -1 counts as a large number.
\<close>

partial_function (option) read_len_loop :: "sock \<Rightarrow> buffer \<Rightarrow> u64 \<Rightarrow> int \<Rightarrow> (int \<times> buffer \<times> sock) option" where
  "read_len_loop sk buf len result =
     (if word_of_int result < len
      then case sys_read (unat len) sk of
          (None, sk') \<Rightarrow> read_len_loop sk' buf len (result - 1)
        | (Some d, sk') \<Rightarrow>
            if length buf < length d then None
            else do {
              result \<leftarrow> to_int (result + int (length d));
              read_len_loop sk' (d @ drop (length d) buf) len result
            }
      else Some (result, buf, sk))"

definition read_len :: "sock \<Rightarrow> buffer \<Rightarrow> u64 \<Rightarrow> (int \<times> buffer \<times> sock) option" where
  "read_len sk buf len = read_len_loop sk buf len 0"

text \<open>The buffers of \<open>main\<close>, which are cleared for every message; a size has eight bytes.\<close>

definition MSG_BUF :: buffer where
  "MSG_BUF = replicate 128 NUL"

partial_function (option) serve_client :: "sock \<Rightarrow> string list \<Rightarrow> (string list \<times> sock) option" where
  "serve_client sk printed = do {
     (sent_size, size, sk1) \<leftarrow> read_len sk MSG_BUF 8;
     s \<leftarrow> cstr_at size 0;
     sz \<leftarrow> atoi_int s;
     (bytes, buf, sk2) \<leftarrow> read_len sk1 MSG_BUF (word_of_int sz);
     if bytes = -1 then Some (printed, sk2)
     else if bytes = 0 then Some (printed, sk2)
     else do {
       m \<leftarrow> cstr_at buf 0;
       serve_client sk2 (printed @ [m])
     }
   }"

text \<open>One client after the other: the status, when the server ends, and all that was printed.\<close>

fun serve_all :: "sock arrival list \<Rightarrow> (int option \<times> string list) option" where
  "serve_all [] = Some (None, [])"
| "serve_all (Accept_fails # r) = Some (Some 1, [])"
| "serve_all (Arrives sk # r) = do {
     (printed, _) \<leftarrow> serve_client sk [];
     (status, rest) \<leftarrow> serve_all r;
     Some (status, printed @ rest)
   }"

definition server_main :: "net \<Rightarrow> string list \<Rightarrow> sock arrival list \<Rightarrow> (int option \<times> string list) option" where
  "server_main nt argv arrivals =
     (if length argv \<noteq> 2 then Some (Some 1, [])
      else if \<not> listening nt then Some (Some 1, [])
      else serve_all arrivals)"

section \<open>When \<open>read_len\<close> ends\<close>

lemma unat_small: "\<lbrakk>0 \<le> r; r \<le> INT_MAX\<rbrakk> \<Longrightarrow> unat (word_of_int r :: u64) = nat r"
proof -
  assume r: "0 \<le> r" "r \<le> INT_MAX"
  then have "uint (word_of_int r :: u64) = r" by (simp add: uint_word_of_int INT_MAX_def)
  then show ?thesis by (metis nat_uint_eq)
qed

lemma int_less_len: "\<lbrakk>0 \<le> r; r \<le> INT_MAX\<rbrakk> \<Longrightarrow> (word_of_int r < (len :: u64)) \<longleftrightarrow> nat r < unat len"
  by (simp add: word_less_nat_alt unat_small)

lemma sys_read_step:
  assumes "pending sk \<noteq> []" "0 < n"
  shows "\<exists>d sk'. sys_read n sk = (Some d, sk') \<and> d \<noteq> [] \<and> length d \<le> n \<and> pending sk = d @ pending sk' \<and> reset sk' = reset sk"
proof -
  define k where "k = (case chunks sk of [] \<Rightarrow> n | c # _ \<Rightarrow> min n (Suc c))"
  have "0 < k" "k \<le> n" using assms(2) by (auto simp: k_def split: list.splits)
  moreover have "sys_read n sk = (Some (take k (pending sk)), sk\<lparr>pending := drop k (pending sk), chunks := tl (chunks sk)\<rparr>)"
    using assms(1) by (simp add: sys_read_def k_def Let_def)
  ultimately show ?thesis using assms(1) by (intro exI) auto
qed

lemma read_len_loop_enough:
  "\<lbrakk>unat len \<le> length buf; unat len \<le> 1073741824; 0 \<le> r; nat r < 2 * unat len \<or> r = 0;
    unat len \<le> nat r + length (pending sk)\<rbrakk> \<Longrightarrow>
    \<exists>r' buf' sk'. read_len_loop sk buf len r = Some (r', buf', sk') \<and> unat len \<le> nat r'"
proof (induction "length (pending sk)" arbitrary: sk buf r rule: less_induct)
  case less
  have rI: "r \<le> INT_MAX" using less.prems by (auto simp: INT_MAX_def)
  show ?case
  proof (cases "nat r < unat len")
    case False
    then show ?thesis using int_less_len [OF less.prems(3) rI, of len] by (subst read_len_loop.simps) auto
  next
    case True
    then have "pending sk \<noteq> []" "0 < unat len" using less.prems by auto
    then obtain d sk' where d: "sys_read (unat len) sk = (Some d, sk')" "d \<noteq> []" "length d \<le> unat len"
      "pending sk = d @ pending sk'" using sys_read_step by blast
    have i: "to_int (r + int (length d)) = Some (r + int (length d))"
      using True d(3) less.prems by (auto simp: to_int_def INT_MAX_def)
    have "length (pending sk') < length (pending sk)" using d(2,4) by simp
    from less.hyps [OF this, of "d @ drop (length d) buf" "r + int (length d)"]
    obtain r' buf' sk'' where "read_len_loop sk' (d @ drop (length d) buf) len (r + int (length d)) = Some (r', buf', sk'')"
      "unat len \<le> nat r'" using less.prems True d by (auto simp: nat_add_distrib)
    then show ?thesis
      using int_less_len [OF less.prems(3) rI, of len] True d less.prems(1) i
      by (subst read_len_loop.simps) (auto simp: Let_def)
  qed
qed

lemma read_len_loop_not_enough:
  assumes "read_len_loop sk buf len r = Some y"
  shows "\<not> reset sk \<and> 0 \<le> r \<and> r \<le> INT_MAX \<longrightarrow> unat len \<le> nat r + length (pending sk)"
proof (rule read_len_loop.raw_induct [of "\<lambda>sk buf len r y. \<not> reset sk \<and> 0 \<le> r \<and> r \<le> INT_MAX \<longrightarrow>
    unat len \<le> nat r + length (pending sk)", OF _ assms], intro impI, elim conjE)
  fix rec :: "sock \<Rightarrow> buffer \<Rightarrow> u64 \<Rightarrow> int \<Rightarrow> (int \<times> buffer \<times> sock) option" and sk buf len r y
  assume IH: "\<And>sk' buf' len' r' y'. rec sk' buf' len' r' = Some y' \<Longrightarrow>
      \<not> reset sk' \<and> 0 \<le> r' \<and> r' \<le> INT_MAX \<longrightarrow> unat len' \<le> nat r' + length (pending sk')"
    and run: "(if word_of_int r < len
      then case sys_read (unat len) sk of
          (None, sk') \<Rightarrow> rec sk' buf len (r - 1)
        | (Some d, sk') \<Rightarrow>
            if length buf < length d then None
            else do {
              result \<leftarrow> to_int (r + int (length d));
              rec sk' (d @ drop (length d) buf) len result
            }
      else Some (r, buf, sk)) = Some y"
    and h: "\<not> reset sk" "0 \<le> r" "r \<le> INT_MAX"
  show "unat len \<le> nat r + length (pending sk)"
  proof (cases "word_of_int r < len")
    case False
    then show ?thesis using int_less_len [OF h(2,3), of len] by auto
  next
    case True
    have "0 < unat len" using True int_less_len [OF h(2,3), of len] by auto
    obtain d sk' where d: "sys_read (unat len) sk = (Some d, sk')" "pending sk = d @ pending sk'" "\<not> reset sk'"
    proof (cases "pending sk = []")
      case True
      then show ?thesis using that [of "[]" sk] h(1) by (simp add: sys_read_def)
    next
      case False
      then show ?thesis using that sys_read_step [OF False \<open>0 < unat len\<close>] h(1) by metis
    qed
    have "r + int (length d) \<le> INT_MAX" "rec sk' (d @ drop (length d) buf) len (r + int (length d)) = Some y"
      using run True d(1) by (auto simp: to_int_def split: if_splits bind_splits)
    with IH [OF this(2)] h(2) d(2,3) show ?thesis by (simp add: nat_add_distrib)
  qed
qed

section \<open>What it delivers\<close>

text \<open>A part of the message that comes alone: the next part is written over it.\<close>

lemma read_len_loop_chunk:
  assumes "pending sk = d @ r" "d \<noteq> []" "chunks sk = (length d - 1) # cs" "length d \<le> unat len"
    and "0 \<le> n" "n + int (length d) \<le> INT_MAX" "nat n < unat len" "length d \<le> length buf"
  shows "read_len_loop sk buf len n =
    read_len_loop (sk\<lparr>pending := r, chunks := cs\<rparr>) (d @ drop (length d) buf) len (n + int (length d))"
proof -
  have "sys_read (unat len) sk = (Some d, sk\<lparr>pending := r, chunks := cs\<rparr>)"
    using assms(1-4) by (simp add: sys_read_def min_absorb2)
  moreover have "n \<le> INT_MAX" "to_int (n + int (length d)) = Some (n + int (length d))"
    using assms(5,6) by (auto simp: to_int_def INT_MAX_def)
  ultimately show ?thesis using int_less_len [OF assms(5), of len] assms(7,8) by (subst read_len_loop.simps) simp
qed

lemma read_len_loop_done: "\<lbrakk>unat len \<le> nat n; 0 \<le> n; n \<le> INT_MAX\<rbrakk> \<Longrightarrow> read_len_loop sk buf len n = Some (n, buf, sk)"
  using int_less_len [of n len] by (subst read_len_loop.simps) simp

text \<open>The parts that a buffer holds after they have been written over each other.\<close>

definition overwritten :: "string list \<Rightarrow> buffer \<Rightarrow> buffer" where
  "overwritten ps buf = foldl (\<lambda>b p. p @ drop (length p) b) buf ps"

lemma read_len_loop_parts:
  "\<lbrakk>pending sk = concat ps @ r; \<forall>p \<in> set ps. p \<noteq> [] \<and> length p \<le> length buf; chunks sk = map (\<lambda>p. length p - 1) ps @ cs;
    unat len = nat n + length (concat ps); 0 \<le> n; int (unat len) \<le> INT_MAX\<rbrakk> \<Longrightarrow>
    read_len_loop sk buf len n =
      Some (int (unat len), overwritten ps buf, sk\<lparr>pending := r, chunks := cs\<rparr>)"
proof (induction ps arbitrary: sk buf n)
  case Nil
  then have "sk\<lparr>pending := r, chunks := cs\<rparr> = sk" by (cases sk) simp
  then show ?case using Nil read_len_loop_done [of len n sk buf] by (simp add: overwritten_def)
next
  case (Cons p ps)
  have p: "p \<noteq> []" "length p \<le> length buf" using Cons.prems(2) by auto
  have 1: "read_len_loop sk buf len n = read_len_loop (sk\<lparr>pending := concat ps @ r, chunks := map (\<lambda>p. length p - 1) ps @ cs\<rparr>)
      (p @ drop (length p) buf) len (n + int (length p))"
    by (rule read_len_loop_chunk) (use Cons.prems p in auto)
  have "read_len_loop (sk\<lparr>pending := concat ps @ r, chunks := map (\<lambda>p. length p - 1) ps @ cs\<rparr>)
      (p @ drop (length p) buf) len (n + int (length p)) =
      Some (int (unat len), overwritten ps (p @ drop (length p) buf), sk\<lparr>pending := r, chunks := cs\<rparr>)"
    using Cons.prems p by (subst Cons.IH) (auto simp: nat_add_distrib)
  then show ?case unfolding 1 by (simp add: overwritten_def)
qed

lemma overwritten_one: "overwritten [d] buf = d @ drop (length d) buf"
  by (simp add: overwritten_def)

text \<open>
  C18: On a connection that ends in the ordinary way, \<open>read_len\<close> returns exactly when as many bytes come as
  were asked for. When fewer come, \<open>read\<close> returns 0 again and again and the loop does not end.
\<close>

theorem read_len_ends_iff:
  assumes "\<not> reset sk" "unat len \<le> length buf" "unat len \<le> 1073741824"
  shows "(\<exists>r. read_len sk buf len = Some r) \<longleftrightarrow> unat len \<le> length (pending sk)"
proof
  assume "\<exists>r. read_len sk buf len = Some r"
  then obtain y where "read_len_loop sk buf len 0 = Some y" unfolding read_len_def by blast
  from read_len_loop_not_enough [OF this] assms(1) show "unat len \<le> length (pending sk)" by (simp add: INT_MAX_def)
next
  assume "unat len \<le> length (pending sk)"
  then show "\<exists>r. read_len sk buf len = Some r"
    using read_len_loop_enough [OF assms(2,3), of 0 sk] unfolding read_len_def by auto
qed

theorem read_len_ends_iff_witness:
  "read_len \<lparr>pending = ''abc'', chunks = [0], reset = False\<rparr> MSG_BUF 4 = None
    \<and> (\<exists>r. read_len \<lparr>pending = ''abcd'', chunks = [0], reset = False\<rparr> MSG_BUF 4 = Some r)"
proof -
  have l: "length MSG_BUF = 128" unfolding MSG_BUF_def by (rule length_replicate)
  have "\<not> (\<exists>r. read_len \<lparr>pending = ''abc'', chunks = [0], reset = False\<rparr> MSG_BUF 4 = Some r)"
    using read_len_ends_iff [of "\<lparr>pending = ''abc'', chunks = [0], reset = False\<rparr>" 4 MSG_BUF] by (simp add: l)
  moreover have "\<exists>r. read_len \<lparr>pending = ''abcd'', chunks = [0], reset = False\<rparr> MSG_BUF 4 = Some r"
    using read_len_ends_iff [of "\<lparr>pending = ''abcd'', chunks = [0], reset = False\<rparr>" 4 MSG_BUF] by (simp add: l)
  ultimately show ?thesis by (metis not_None_eq)
qed

text \<open>The string in the buffer is the last part of the message, without its NUL.\<close>

lemma overwritten_snoc: "overwritten (ps @ [p]) buf = p @ drop (length p) (overwritten ps buf)"
  by (simp add: overwritten_def)

lemma last_part:
  assumes "concat ps = m @ [NUL]" "NUL \<notin> set m" "\<forall>p \<in> set ps. p \<noteq> []"
  obtains qs q where "ps = qs @ [q @ [NUL]]" "m = concat qs @ q" "NUL \<notin> set q"
proof -
  have "ps \<noteq> []" using assms(1) by auto
  then obtain qs p where ps: "ps = qs @ [p]" by (cases ps rule: rev_cases) auto
  with assms(3) obtain q c where p: "p = q @ [c]" by (cases p rule: rev_cases) auto
  with ps assms(1) have "c = NUL" "m = concat qs @ q" by auto
  with ps p assms(2) show thesis by (intro that) auto
qed

lemma nonempty_parts: "\<lbrakk>\<forall>p \<in> set ps. p \<noteq> []; concat ps = []\<rbrakk> \<Longrightarrow> ps = []"
  by (cases ps) auto

text \<open>
  C38: Although it is meant to retry until the whole message is there, \<open>read_len\<close> delivers a text with its
  NUL only when it comes in one part. It returns the full length for a message in any number of
  parts, but writes the parts over each other at the beginning of the buffer: for a text that is
  sent with its NUL the string in the buffer is the last part, and this is the text only when there is one
  part.
\<close>

theorem read_len_parts:
  assumes "pending sk = concat ps @ r" "\<forall>p \<in> set ps. p \<noteq> [] \<and> length p \<le> length buf"
    and "chunks sk = map (\<lambda>p. length p - 1) ps @ cs" "unat len = length (concat ps)" "int (unat len) \<le> INT_MAX"
  shows "read_len sk buf len = Some (int (unat len), overwritten ps buf, sk\<lparr>pending := r, chunks := cs\<rparr>)
    \<and> (length ps = 1 \<longrightarrow> take (unat len) (overwritten ps buf) = concat ps)
    \<and> (\<forall>m. concat ps = m @ [NUL] \<and> NUL \<notin> set m \<longrightarrow>
         cstr_at (overwritten ps buf) 0 = Some (butlast (List.last ps)) \<and> (butlast (List.last ps) = m \<longleftrightarrow> length ps = 1))"
proof (intro conjI allI impI)
  show "read_len sk buf len = Some (int (unat len), overwritten ps buf, sk\<lparr>pending := r, chunks := cs\<rparr>)"
    unfolding read_len_def using assms by (intro read_len_loop_parts) auto
  show "take (unat len) (overwritten ps buf) = concat ps" if "length ps = 1"
    using that assms(4) by (auto simp: length_Suc_conv overwritten_one)
  fix m assume t: "concat ps = m @ [NUL] \<and> NUL \<notin> set m"
  have ne: "\<forall>p \<in> set ps. p \<noteq> []" using assms(2) by blast
  with t obtain qs q where q: "ps = qs @ [q @ [NUL]]" "m = concat qs @ q" "NUL \<notin> set q"
    using last_part [of ps m] by metis
  show "cstr_at (overwritten ps buf) 0 = Some (butlast (List.last ps))"
    using q(3) cstr_at_append [of q "[]" 0] by (simp add: q(1) overwritten_snoc)
  have "qs = []" if "concat qs = []" using nonempty_parts [of qs] that ne q(1) by auto
  then show "butlast (List.last ps) = m \<longleftrightarrow> length ps = 1" by (auto simp: q(1,2))
qed

theorem read_len_parts_witness:
  "read_len \<lparr>pending = ''hello'' @ [NUL], chunks = [2, 2], reset = False\<rparr> ''.......'' 6
    = Some (6, ''lo'' @ [NUL] @ ''....'', \<lparr>pending = [], chunks = [], reset = False\<rparr>)
   \<and> cstr_at (''lo'' @ [NUL] @ ''....'') 0 = Some ''lo''"
proof -
  have o: "overwritten [''hel'', ''lo'' @ [NUL]] ''.......'' = ''lo'' @ [NUL] @ ''....''" by (simp add: overwritten_def)
  from read_len_parts [of "\<lparr>pending = ''hello'' @ [NUL], chunks = [2, 2], reset = False\<rparr>" "[''hel'', ''lo'' @ [NUL]]" "[]" "''.......''" "[]" 6]
  show ?thesis unfolding o by (simp add: INT_MAX_def)
qed

section \<open>A client\<close>

text \<open>
  A message as the server expects it: eight bytes with the length of the text and its NUL as a
  decimal number, which a NUL ends, then the text with its NUL.
\<close>

definition frame_ok :: "string \<times> string \<Rightarrow> bool" where
  "frame_ok f \<longleftrightarrow> NUL \<notin> set (snd f) \<and> length (snd f) < 128 \<and> length (fst f) = 8
     \<and> (\<exists>post. fst f = show_nat (length (snd f) + 1) @ NUL # post)"

text \<open>A connection on which messages arrive, each part in one piece.\<close>

definition frames :: "(string \<times> string) list \<Rightarrow> bool \<Rightarrow> sock" where
  "frames fs b = \<lparr>pending = concat (map (\<lambda>f. fst f @ snd f @ [NUL]) fs),
     chunks = concat (map (\<lambda>f. [7, length (snd f)]) fs), reset = b\<rparr>"

lemma MSG_BUF_length: "length MSG_BUF = 128"
  unfolding MSG_BUF_def by (rule length_replicate)

lemma MSG_BUF_drop: "n < 128 \<Longrightarrow> drop n MSG_BUF = NUL # replicate (127 - n) NUL"
proof -
  assume "n < 128"
  then have "128 - n = Suc (127 - n)" by simp
  then show ?thesis unfolding MSG_BUF_def drop_replicate by (simp only: replicate_Suc)
qed

lemma read_one_part:
  assumes "pending sk = d @ r" "d \<noteq> []" "chunks sk = (length d - 1) # cs" "length d \<le> 128" "unat len = length d"
  shows "read_len sk MSG_BUF len = Some (int (length d), d @ drop (length d) MSG_BUF, sk\<lparr>pending := r, chunks := cs\<rparr>)"
proof -
  have "read_len_loop sk MSG_BUF len 0 = Some (int (unat len), overwritten [d] MSG_BUF, sk\<lparr>pending := r, chunks := cs\<rparr>)"
    by (rule read_len_loop_parts) (use assms in \<open>simp_all add: MSG_BUF_length INT_MAX_def\<close>)
  then show ?thesis by (simp add: read_len_def overwritten_one assms(5))
qed

lemma serve_client_step:
  assumes "read_len sk MSG_BUF 8 = Some (x, fld, sk1)" "cstr_at fld 0 = Some s" "atoi_int s = Some sz"
    and "read_len sk1 MSG_BUF (word_of_int sz) = Some (n, buf, sk2)" "0 < n" "cstr_at buf 0 = Some m"
  shows "serve_client sk printed = serve_client sk2 (printed @ [m])"
  using assms by (subst serve_client.simps) simp

lemma serve_client_message:
  assumes "frame_ok (g, m)"
  shows "serve_client (frames ((g, m) # fs) b) printed = serve_client (frames fs b) (printed @ [m])"
proof -
  define s where "s = show_nat (length m + 1)"
  obtain post where m: "NUL \<notin> set m" "length m < 128" and l: "length g = 8" and sf: "g = s @ NUL # post"
    using assms by (auto simp: frame_ok_def s_def)
  have s: "NUL \<notin> set s" "atoi_int s = Some (int (length m) + 1)"
    using m(2) show_nat_no_NUL [of "length m + 1"] by (simp_all add: s_def)
  let ?sk1 = "(frames ((g, m) # fs) b)\<lparr>pending := m @ NUL # pending (frames fs b), chunks := length m # chunks (frames fs b)\<rparr>"
  have 1: "read_len (frames ((g, m) # fs) b) MSG_BUF 8 = Some (8, g @ drop 8 MSG_BUF, ?sk1)"
    using read_one_part [of "frames ((g, m) # fs) b" g "m @ NUL # pending (frames fs b)" "length m # chunks (frames fs b)" 8] l
    by (force simp: frames_def)
  have c1: "cstr_at (g @ drop 8 MSG_BUF) 0 = Some s"
    using cstr_at_append [of s "[]" 0] s(1) by (simp add: sf)
  have n: "unat (word_of_int (int (length m) + 1) :: u64) = length m + 1"
    using unat_small [of "int (length m) + 1"] m(2) by (simp add: INT_MAX_def nat_add_distrib)
  have 2: "read_len ?sk1 MSG_BUF (word_of_int (int (length m) + 1)) =
      Some (int (length m) + 1, (m @ [NUL]) @ drop (length m + 1) MSG_BUF, frames fs b)"
    using read_one_part [of ?sk1 "m @ [NUL]" "pending (frames fs b)" "chunks (frames fs b)" "word_of_int (int (length m) + 1)"] n m(2)
    by (simp add: frames_def)
  have c2: "cstr_at ((m @ [NUL]) @ drop (length m + 1) MSG_BUF) 0 = Some m"
    using cstr_at_append [of m "[]" 0] m(1) by simp
  show ?thesis by (rule serve_client_step [OF 1 c1 s(2) 2 _ c2]) simp
qed

lemma serve_client_end:
  "serve_client (frames [] b) printed = (if b then Some (printed, frames [] b) else None)"
proof (cases b)
  case True
  have m: "\<not> ((-1 :: u64) < 8)" "(0 :: u64) < 8" by (simp_all add: not_less)
  have r: "read_len_loop (frames [] True) MSG_BUF 8 0 = Some (-1, MSG_BUF, frames [] True)"
    by (subst read_len_loop.simps, subst read_len_loop.simps) (simp add: frames_def sys_read_def m)
  have c: "cstr_at MSG_BUF 0 = Some []"
  proof -
    have "0 < (128 :: nat)" by simp
    from MSG_BUF_drop [OF this] have b: "MSG_BUF = [] @ [] @ NUL # replicate 127 NUL"
      by (simp only: drop_0 append_Nil diff_zero)
    show ?thesis by (subst b) (rule cstr_at_append, rule, simp_all only: list.set empty_iff list.size)
  qed
  have a: "atoi_int [] = Some 0" by (simp add: atoi_int_def atoi_def INT_MAX_def)
  have z: "read_len (frames [] True) MSG_BUF 0 = Some (0, MSG_BUF, frames [] True)"
    unfolding read_len_def by (rule read_len_loop_done) (simp_all add: INT_MAX_def)
  show ?thesis using True r c a z by (subst serve_client.simps) (simp add: read_len_def)
next
  case False
  have "read_len_loop (frames [] False) MSG_BUF 8 0 = None"
  proof (rule ccontr)
    assume "read_len_loop (frames [] False) MSG_BUF 8 0 \<noteq> None"
    then obtain y where "read_len_loop (frames [] False) MSG_BUF 8 0 = Some y" by blast
    from read_len_loop_not_enough [OF this] show False by (simp add: frames_def INT_MAX_def)
  qed
  then show ?thesis using False by (subst serve_client.simps) (simp add: read_len_def)
qed

text \<open>
  A client that sends messages in the format of the server, each part of a message in one
  write that arrives as one part, gets them printed in order; the server goes on to the next client
  when the connection is reset, and never does when the client closes it in the ordinary way.
\<close>

lemma server_prints_messages:
  assumes "\<forall>f \<in> set fs. frame_ok f" "length argv = 2" "listening nt" "serve_all r = Some (status, later)"
  shows "server_main nt argv (Arrives (frames fs True) # r) = Some (status, map snd fs @ later)
    \<and> server_main nt argv (Arrives (frames fs False) # r) = None"
proof -
  have "serve_client (frames fs b) printed = serve_client (frames [] b) (printed @ map snd fs)" for b printed
    using assms(1)
  proof (induction fs arbitrary: printed)
    case (Cons f fs)
    then show ?case using serve_client_message [of "fst f" "snd f" fs b printed] by simp
  qed simp
  then show ?thesis using assms(2-4) by (simp add: server_main_def serve_client_end)
qed

end
