(* ===== verification/Msg_Client.thy ===== *)
theory Msg_Client
  imports Msg_Server
begin

text \<open>
  The message client, LabWork/Lab11/client.c, and its composition with the server. The client
  prints the size of a message through the pointer \<open>size_str\<close>, which was never set: the memory that
  its value happens to point at is a parameter, \<open>None\<close> where nothing can be written. The socket is
  how many bytes each \<open>write\<close> accepts, and what has been written.
\<close>

section \<open>The code\<close>

record out_sock =
  accepts :: "nat option list"
  written :: "string list"

text \<open>\<open>write\<close>: an entry \<open>None\<close> is -1, an entry \<open>k\<close> accepts \<open>k + 1\<close> bytes at most; behind the list all bytes are accepted.\<close>

definition sys_write :: "string \<Rightarrow> out_sock \<Rightarrow> int \<times> out_sock" where
  "sys_write d sk = (case accepts sk of
      [] \<Rightarrow> (int (length d), sk\<lparr>written := written sk @ [d]\<rparr>)
    | None # r \<Rightarrow> (-1, sk\<lparr>accepts := r\<rparr>)
    | Some k # r \<Rightarrow> let d' = take (Suc k) d in (int (length d'), sk\<lparr>accepts := r, written := written sk @ [d']\<rparr>))"

text \<open>The first call of \<open>strtok\<close> on a buffer: what the buffer is then.\<close>

definition strtok_first :: "buffer \<Rightarrow> string \<Rightarrow> buffer option" where
  "strtok_first buf delim = do {
     s \<leftarrow> cstr_at buf 0;
     let a = strspn s delim;
     let b = a + strcspn (drop a s) delim;
     Some (if b < length s \<and> a < b then buf[b := NUL] else buf)
   }"

text \<open>
  The loop that sends the text: it writes \<open>sz\<close> bytes each time, also when fewer are left, and
  \<open>bytes_left\<close> is a \<open>size_t\<close>. \<open>None\<close> when it reads behind the buffer, otherwise whether a write failed.
\<close>

partial_function (option) send_loop :: "out_sock \<Rightarrow> buffer \<Rightarrow> nat \<Rightarrow> nat \<Rightarrow> u64 \<Rightarrow> (bool \<times> out_sock) option" where
  "send_loop sk buf write_ptr sz bytes_left =
     (if length buf < write_ptr + sz then None
      else let (bytes_written, sk1) = sys_write (take sz (drop write_ptr buf)) sk in
        if bytes_written = -1 then Some (False, sk1)
        else let bytes_left = bytes_left - word_of_int bytes_written; write_ptr = write_ptr + nat bytes_written in
          if bytes_left > 0 then send_loop sk1 buf write_ptr sz bytes_left else Some (True, sk1))"

text \<open>\<open>sprintf(size_str, "%d", sz)\<close> into the memory.\<close>

definition print_size :: "buffer option \<Rightarrow> nat \<Rightarrow> buffer option" where
  "print_size mem sz = do {
     m \<leftarrow> mem;
     let s = show_nat sz @ [NUL];
     if length m < length s then None else Some (s @ drop (length s) m)
   }"

text \<open>
  The loop over the lines of the standard input. A failed write of the size is only reported; the
  eight bytes that it writes have to be there.
\<close>

partial_function (option) client_loop :: "string \<Rightarrow> buffer option \<Rightarrow> out_sock \<Rightarrow> (int \<times> out_sock) option" where
  "client_loop stdin mem sk =
     (if stdin = [] then Some (0, sk)
      else let line = fgets_piece 128 stdin in do {
        buf \<leftarrow> strtok_first (line @ drop (length line) MSG_BUF) [CR, NL];
        str \<leftarrow> cstr_at buf 0;
        let sz = length str + 1;
        size_str \<leftarrow> print_size mem sz;
        if length size_str < 8 then None
        else do {
          let (ret, sk1) = sys_write (take 8 size_str) sk;
          (ok, sk2) \<leftarrow> send_loop sk1 buf 0 sz (of_nat sz);
          if ok then client_loop (drop (length line) stdin) (Some size_str) sk2 else Some (1, sk2)
        }
      })"

definition client_main :: "string list \<Rightarrow> bool \<Rightarrow> bool \<Rightarrow> bool \<Rightarrow> string \<Rightarrow> buffer option \<Rightarrow> out_sock \<Rightarrow> (int \<times> out_sock) option" where
  "client_main argv sock_ok host_ok connect_ok stdin mem sk =
     (if length argv \<noteq> 3 then Some (1, sk)
      else if \<not> sock_ok then Some (1, sk)
      else if \<not> host_ok then Some (1, sk)
      else if \<not> connect_ok then Some (1, sk)
      else client_loop stdin mem sk)"

section \<open>One message\<close>

text \<open>A line that can be typed: no control characters of its own, and it fits the buffer.\<close>

definition plain_line :: "string \<Rightarrow> bool" where
  "plain_line l \<longleftrightarrow> l \<noteq> [] \<and> set l \<inter> {NUL, CR, NL} = {} \<and> length l < 127"

lemma chomp:
  assumes "plain_line l"
  shows "strtok_first ((l @ [NL]) @ drop (length (l @ [NL])) MSG_BUF) [CR, NL] = Some (l @ NUL # drop (length l + 1) MSG_BUF)"
proof -
  have l: "l \<noteq> []" "NUL \<notin> set l" "\<forall>c \<in> set l. c \<noteq> CR \<and> c \<noteq> NL" "length l < 127" using assms by (auto simp: plain_line_def)
  have "MSG_BUF ! (length l + 1) = NUL" unfolding MSG_BUF_def by (rule nth_replicate) (use l(4) in simp)
  then have "drop (length l + 1) MSG_BUF = NUL # drop (length l + 2) MSG_BUF"
    using Cons_nth_drop_Suc [of "length l + 1" MSG_BUF] l(4) by (simp add: MSG_BUF_length)
  then have c: "cstr_at ((l @ [NL]) @ drop (length l + 1) MSG_BUF) 0 = Some (l @ [NL])"
    using cstr_at_append [of "l @ [NL]" "[]" 0] l(2) by simp
  obtain x xs where x: "l = x # xs" "x \<noteq> CR" "x \<noteq> NL" using l(1,3) by (cases l) auto
  have "strspn (l @ [NL]) [CR, NL] = 0" using x by (simp add: strspn_def)
  moreover have "takeWhile (\<lambda>c. c \<notin> set [CR, NL]) (l @ [NL]) = l" using l(3) by (subst takeWhile_append2) auto
  then have "strcspn (l @ [NL]) [CR, NL] = length l" by (simp add: strcspn_def)
  ultimately show ?thesis using c l(1) by (simp add: strtok_first_def list_update_append)
qed

text \<open>A line with nothing but its end keeps it: \<open>strtok\<close> finds no token.\<close>

lemma empty_line_kept: "strtok_first ([NL] @ drop 1 MSG_BUF) [CR, NL] = Some ([NL] @ drop 1 MSG_BUF)"
proof -
  have "cstr_at ([NL] @ drop 1 MSG_BUF) 0 = Some [NL]"
    using cstr_at_append [of "[NL]" "[]" 0 "drop 2 MSG_BUF"] MSG_BUF_drop [of 1] MSG_BUF_drop [of 2]
      Cons_nth_drop_Suc [of 1 MSG_BUF] by (simp add: MSG_BUF_length numeral_2_eq_2 cstr_at_def)
  then show ?thesis by (simp add: strtok_first_def strspn_def strcspn_def)
qed

lemma send_whole:
  assumes "accepts sk = []" "buf = m @ NUL # post" "length m < 128"
  shows "send_loop sk buf 0 (length m + 1) (of_nat (length m + 1)) = Some (True, sk\<lparr>written := written sk @ [m @ [NUL]]\<rparr>)"
  using assms by (subst send_loop.simps) (simp add: sys_write_def)

text \<open>The size of a text, as it is printed in front of what the memory held before.\<close>

definition size_text :: "buffer \<Rightarrow> string \<Rightarrow> string" where
  "size_text mem m = (let s = show_nat (length m + 1) @ [NUL] in s @ drop (length s) mem)"

lemma size_text_length: "\<lbrakk>8 \<le> length mem; length m < 128\<rbrakk> \<Longrightarrow> length (size_text mem m) = length mem"
  using show_nat_length [of "length m + 1" 3] by (simp add: size_text_def Let_def)

lemma print_size_text: "\<lbrakk>8 \<le> length mem; length m < 128\<rbrakk> \<Longrightarrow> print_size (Some mem) (length m + 1) = Some (size_text mem m)"
  using show_nat_length [of "length m + 1" 3] by (simp add: print_size_def size_text_def Let_def)

lemma size_frame:
  assumes "8 \<le> length mem" "length m < 128" "NUL \<notin> set m"
  shows "frame_ok (take 8 (size_text mem m), m)"
proof -
  define s where "s = show_nat (length m + 1)"
  have "length s \<le> 3" using show_nat_length [of "length m + 1" 3] assms(2) by (simp add: s_def)
  then obtain k where "8 - length s = Suc k" by (cases "8 - length s") auto
  then have "take 8 (size_text mem m) = s @ NUL # take k (drop (length s + 1) mem)"
    unfolding size_text_def Let_def s_def [symmetric] by simp
  moreover have "length (take 8 (size_text mem m)) = 8" using assms(1) size_text_length [OF assms(1,2)] by simp
  ultimately show ?thesis using assms(2,3) unfolding frame_ok_def fst_conv snd_conv s_def by blast
qed

lemma client_line_then:
  assumes "plain_line l" "8 \<le> length mem" "sys_write (take 8 (size_text mem l)) sk = (ret, sk1)"
  shows "client_loop ((l @ [NL]) @ r) (Some mem) sk =
    (case send_loop sk1 (l @ NUL # drop (length l + 1) MSG_BUF) 0 (length l + 1) (of_nat (length l + 1)) of
       None \<Rightarrow> None
     | Some (ok, sk2) \<Rightarrow> if ok then client_loop r (Some (size_text mem l)) sk2 else Some (1, sk2))"
proof -
  have l: "NL \<notin> set l" "NUL \<notin> set l" "length l < 127" using assms(1) by (auto simp: plain_line_def)
  have f: "fgets_piece 128 ((l @ [NL]) @ r) = l @ [NL]" using l fgets_piece_line [of l 128 r] by simp
  define buf where "buf = l @ NUL # drop (length l + 1) MSG_BUF"
  have b: "strtok_first ((l @ [NL]) @ drop (length (l @ [NL])) MSG_BUF) [CR, NL] = Some buf" "cstr_at buf 0 = Some l"
    using chomp [OF assms(1)] cstr_at_append [of l "[]" 0] l by (simp_all add: buf_def)
  have p: "print_size (Some mem) (length l + 1) = Some (size_text mem l)" "\<not> length (size_text mem l) < 8"
    using print_size_text size_text_length assms(2) l by auto
  have ne: "(l @ [NL]) @ r \<noteq> []" "drop (length (l @ [NL])) ((l @ [NL]) @ r) = r" by simp_all
  show ?thesis
    by (subst client_loop.simps)
      (simp only: ne if_False f Let_def b Option.bind.bind_lunit p assms(3) prod.case buf_def [symmetric],
       simp split: option.split)
qed

lemma client_line:
  assumes "plain_line l" "accepts sk = []" "8 \<le> length mem"
  shows "client_loop ((l @ [NL]) @ r) (Some mem) sk =
    client_loop r (Some (size_text mem l)) (sk\<lparr>written := written sk @ [take 8 (size_text mem l), l @ [NUL]]\<rparr>)"
proof -
  let ?sk1 = "sk\<lparr>written := written sk @ [take 8 (size_text mem l)]\<rparr>" and ?buf = "l @ NUL # drop (length l + 1) MSG_BUF"
  have l: "length l < 128" using assms(1) by (simp add: plain_line_def)
  have w: "sys_write (take 8 (size_text mem l)) sk = (8, ?sk1)"
    using assms(2,3) size_text_length [OF assms(3) l] by (simp add: sys_write_def)
  have "send_loop ?sk1 ?buf 0 (length l + 1) (of_nat (length l + 1)) = Some (True, ?sk1\<lparr>written := written ?sk1 @ [l @ [NUL]]\<rparr>)"
    by (rule send_whole [of ?sk1 ?buf l]) (use assms(2) l in simp_all)
  then show ?thesis unfolding client_line_then [OF assms(1,3) w] by simp
qed

text \<open>What is written for a list of lines.\<close>

fun client_frames :: "buffer \<Rightarrow> string list \<Rightarrow> (string \<times> string) list" where
  "client_frames mem [] = []"
| "client_frames mem (l # ls) = (take 8 (size_text mem l), l) # client_frames (size_text mem l) ls"

lemma client_lines:
  "\<lbrakk>\<forall>l \<in> set ls. plain_line l; accepts sk = []; 8 \<le> length mem\<rbrakk> \<Longrightarrow>
    client_loop (concat (map (\<lambda>l. l @ [NL]) ls)) (Some mem) sk =
      Some (0, sk\<lparr>written := written sk @ concat (map (\<lambda>f. [fst f, snd f @ [NUL]]) (client_frames mem ls))\<rparr>)"
proof (induction ls arbitrary: mem sk)
  case Nil
  then show ?case by (subst client_loop.simps) simp
next
  case (Cons l ls)
  have l: "plain_line l" "length l < 128" using Cons.prems(1) by (auto simp: plain_line_def)
  show ?case
    using client_line [OF l(1) Cons.prems(2,3), of "concat (map (\<lambda>l. l @ [NL]) ls)"] Cons.prems
      Cons.IH [of "sk\<lparr>written := written sk @ [take 8 (size_text mem l), l @ [NUL]]\<rparr>" "size_text mem l"]
      size_text_length [OF Cons.prems(3) l(2)] by simp
qed

lemma client_frames_ok:
  "\<lbrakk>\<forall>l \<in> set ls. plain_line l; 8 \<le> length mem\<rbrakk> \<Longrightarrow> (\<forall>f \<in> set (client_frames mem ls). frame_ok f) \<and> map snd (client_frames mem ls) = ls"
proof (induction ls arbitrary: mem)
  case (Cons l ls)
  have "NUL \<notin> set l" "length l < 128" using Cons.prems(1) by (auto simp: plain_line_def)
  then show ?case using Cons.IH [of "size_text mem l"] Cons.prems size_frame [of mem l] size_text_length [of mem l] by auto
qed simp

section \<open>The client and the server\<close>

text \<open>The connection that the server reads when every write arrives as one part.\<close>

definition arriving :: "string list \<Rightarrow> bool \<Rightarrow> sock" where
  "arriving ws b = \<lparr>pending = concat ws, chunks = map (\<lambda>w. length w - 1) ws, reset = b\<rparr>"

lemma arriving_frames:
  "\<forall>f \<in> set fs. frame_ok f \<Longrightarrow> arriving (concat (map (\<lambda>f. [fst f, snd f @ [NUL]]) fs)) b = frames fs b"
  by (induction fs) (auto simp: arriving_def frames_def frame_ok_def)

text \<open>
  C20: What is typed at the client is what the server prints: when the pointer for the sizes happens to
  point at eight bytes that can be written, and every write is accepted as a whole and arrives as
  one part, the client ends with status 0 and the server prints its lines in order. It goes on
  to the next client only when the connection is reset; when the client closes it in the
  ordinary way, the server never returns. When the pointer points at nothing, the first line
  has no defined result.
\<close>

theorem client_to_server:
  assumes "\<forall>l \<in> set ls. plain_line l" "8 \<le> length mem" "length argv = 3" "length sargv = 2" "listening nt"
    and "serve_all r = Some (status, later)"
  shows "\<exists>sk. client_main argv True True True (concat (map (\<lambda>l. l @ [NL]) ls)) (Some mem) \<lparr>accepts = [], written = []\<rparr> = Some (0, sk)
    \<and> server_main nt sargv (Arrives (arriving (written sk) True) # r) = Some (status, ls @ later)
    \<and> server_main nt sargv (Arrives (arriving (written sk) False) # r) = None
    \<and> (ls \<noteq> [] \<longrightarrow> client_main argv True True True (concat (map (\<lambda>l. l @ [NL]) ls)) None \<lparr>accepts = [], written = []\<rparr> = None)"
proof -
  let ?fs = "client_frames mem ls" and ?in = "concat (map (\<lambda>l. l @ [NL]) ls)"
  have ok: "\<forall>f \<in> set ?fs. frame_ok f" "map snd ?fs = ls" using client_frames_ok [OF assms(1,2)] by auto
  have "client_loop ?in None \<lparr>accepts = [], written = []\<rparr> = None" if "ls \<noteq> []"
    by (subst client_loop.simps) (use that in \<open>auto simp: print_size_def Let_def neq_Nil_conv bind_eq_None_conv intro!: exI\<close>)
  then show ?thesis
    using client_lines [OF assms(1) _ assms(2), of "\<lparr>accepts = [], written = []\<rparr>"] assms(3)
      server_prints_messages [OF ok(1) assms(4-6)] ok(2)
    by (simp add: client_main_def arriving_frames [OF ok(1)])
qed

theorem client_to_server_witness:
  "\<exists>sk. client_main [''client'', ''host'', ''7000''] True True True (''hi'' @ [NL] @ ''there'' @ [NL]) (Some ''????????????'') \<lparr>accepts = [], written = []\<rparr> = Some (0, sk)
    \<and> server_main \<lparr>socket_ok = True, bind_ok = True, listen_ok = True\<rparr> [''server'', ''7000'']
      [Arrives (arriving (written sk) True), Accept_fails] = Some (Some 1, [''hi'', ''there''])"
  using client_to_server [of "[''hi'', ''there'']" "''????????????''" "[''client'', ''host'', ''7000'']" "[''server'', ''7000'']"
      "\<lparr>socket_ok = True, bind_ok = True, listen_ok = True\<rparr>" "[Accept_fails]" "Some 1" "[]"]
  by (auto simp: plain_line_def listening_def)

section \<open>Short writes\<close>

lemma send_loop_overrun:
  "\<lbrakk>accepts sk = []; length buf = 128; 0 < p; 0 < n; n \<le> 128; p \<le> 128\<rbrakk> \<Longrightarrow> send_loop sk buf p n left = None"
  if "left = of_nat n - of_nat p"
  using that
proof (induction "128 - p" arbitrary: p sk left rule: less_induct)
  case less
  show ?case
  proof (cases "length buf < p + n")
    case True
    then show ?thesis by (subst send_loop.simps) simp
  next
    case False
    define sk1 where "sk1 = sk\<lparr>written := written sk @ [take n (drop p buf)]\<rparr>"
    have l: "length (take n (drop p buf)) = n" using False by simp
    then have w: "sys_write (take n (drop p buf)) sk = (int n, sk1)"
      using less.prems by (simp add: sys_write_def sk1_def)
    have left: "left - word_of_int (int n) = of_nat n - of_nat (p + n)" using less.prems by simp
    have "(of_nat p :: u64) \<noteq> 0" using less.prems by (simp add: word_of_nat_eq_0_iff nat_dvd_not_less)
    then have "0 < left - word_of_int (int n)" unfolding left by (simp add: word_neq_0_conv [symmetric])
    moreover have "send_loop sk1 buf (p + n) n (left - word_of_int (int n)) = None"
      by (rule less.hyps) (use less.prems False in \<open>simp_all add: sk1_def\<close>)
    ultimately show ?thesis
      using w False by (subst send_loop.simps) (simp add: Let_def)
  qed
qed

text \<open>
  C39: After a short write of a text the client sends the whole number of bytes again, from where the first
  write stopped: when \<open>k\<close> bytes of the text have been accepted, and after that every write is
  accepted as a whole, what is left counts down past 0 and the client sends on until it reads
  behind its buffer. Only a second write that is cut short at exactly the right byte repairs it (where
  the buffer is long enough for what that write asks for).
\<close>

theorem client_short_write:
  assumes "plain_line l" "8 \<le> length mem" "0 < k" "k \<le> length l"
  shows "client_loop ((l @ [NL]) @ r) (Some mem) \<lparr>accepts = [Some 7, Some (k - 1)], written = ws\<rparr> = None
    \<and> (k + length l < 128 \<longrightarrow>
      client_loop ((l @ [NL]) @ r) (Some mem) \<lparr>accepts = [Some 7, Some (k - 1), Some (length l - k)], written = ws\<rparr>
      = client_loop r (Some (size_text mem l))
          \<lparr>accepts = [], written = ws @ [take 8 (size_text mem l), take k l, drop k l @ [NUL]]\<rparr>)"
proof -
  let ?buf = "l @ NUL # drop (length l + 1) MSG_BUF" and ?n = "length l + 1" and ?s = "take 8 (size_text mem l)"
  have l: "length l < 127" "length ?buf = 128" using assms(1) by (auto simp: plain_line_def MSG_BUF_length)
  have w: "sys_write ?s \<lparr>accepts = Some 7 # as, written = ws\<rparr> = (8, \<lparr>accepts = as, written = ws @ [?s]\<rparr>)" for as
    using size_text_length [OF assms(2), of l] l(1) assms(2) by (simp add: sys_write_def)
  have nz: "(0 :: u64) < of_nat ?n - of_nat k"
  proof -
    have "(of_nat ?n - of_nat k :: u64) = of_nat (?n - k)" using assms(4) by (simp add: of_nat_diff)
    moreover have "(of_nat (?n - k) :: u64) \<noteq> 0"
      unfolding word_of_nat_eq_0_iff by (rule nat_dvd_not_less) (use assms(4) l(1) in simp_all)
    ultimately show ?thesis by (simp add: word_neq_0_conv [symmetric])
  qed
  have first: "send_loop \<lparr>accepts = Some (k - 1) # as, written = vs\<rparr> ?buf 0 ?n (of_nat ?n)
      = send_loop \<lparr>accepts = as, written = vs @ [take k l]\<rparr> ?buf k ?n (of_nat ?n - of_nat k)" for as vs
    using assms(3,4) nz l by (subst send_loop.simps) (simp add: sys_write_def Let_def)
  have "send_loop \<lparr>accepts = [], written = vs\<rparr> ?buf k ?n (of_nat ?n - of_nat k) = None" for vs
    by (rule send_loop_overrun) (use assms(3,4) l in auto)
  moreover have "send_loop \<lparr>accepts = [Some (length l - k)], written = vs\<rparr> ?buf k ?n (of_nat ?n - of_nat k)
      = (if length ?buf < k + ?n then None else Some (True, \<lparr>accepts = [], written = vs @ [drop k l @ [NUL]]\<rparr>))" for vs
    using assms(4) by (subst send_loop.simps) (simp add: sys_write_def Let_def of_nat_diff)
  ultimately show ?thesis
    unfolding client_line_then [OF assms(1,2) w] first l(2) by auto
qed

theorem client_short_write_witness:
  "client_loop (''hello'' @ [NL]) (Some ''????????'') \<lparr>accepts = [Some 7, Some 1], written = []\<rparr> = None
    \<and> client_loop (''hello'' @ [NL]) (Some ''????????'') \<lparr>accepts = [Some 7, Some 1, Some 3], written = []\<rparr>
      = Some (0, \<lparr>accepts = [], written = [''6'' @ [NUL] @ ''??????'', ''he'', ''llo'' @ [NUL]]\<rparr>)"
proof -
  have "client_loop [] m sk = Some (0, sk)" for m sk by (subst client_loop.simps) simp
  moreover have "size_text ''????????'' ''hello'' = ''6'' @ [NUL] @ ''??????''"
    by (simp add: size_text_def show_nat.simps digit_def)
  ultimately show ?thesis
    using client_short_write [of "''hello''" "''????????''" 2 "[]" "[]"] by (simp add: plain_line_def numeral_3_eq_3)
qed

end
