(* ===== verification/Lab_Tools.thy ===== *)
theory Lab_Tools
  imports Tokens
begin

text \<open>
  The small programs of LabWork: the sum of Lab3/Exercise2.c, the counts of Lab3/Exercise3.c, the
  counter with signal handlers of Lab8/signal.c, the wrapper of \<open>open\<close> of Lab6/rick-ropen.c and
  the permission check of Lab10/inode_reader.c.
\<close>

section \<open>The sum of the arguments\<close>

fun sum_loop :: "string list \<Rightarrow> int \<Rightarrow> int option" where
  "sum_loop [] acc = Some acc"
| "sum_loop (arg # args) acc = do {
     temp_num \<leftarrow> atoi_int arg;
     acc \<leftarrow> to_int (acc + temp_num);
     sum_loop args acc
   }"

definition exercise2 :: "string list \<Rightarrow> int option" where
  "exercise2 argv = sum_loop (tl argv) 0"

lemma sum_loop_fits:
  assumes "\<forall>a \<in> set args. atoi_int a = Some (atoi a)" "\<forall>k \<le> length args. to_int (s + sum_list (map atoi (take k args))) \<noteq> None"
  shows "sum_loop args s = Some (s + sum_list (map atoi args))"
  using assms
proof (induction args arbitrary: s)
  case (Cons a args)
  have "to_int (s + atoi a) = Some (s + atoi a)"
    using Cons.prems(2) [rule_format, of 1] by (auto simp: to_int_def split: if_splits)
  moreover have "sum_loop args (s + atoi a) = Some (s + atoi a + sum_list (map atoi args))"
  proof (rule Cons.IH)
    show "\<forall>k \<le> length args. to_int (s + atoi a + sum_list (map atoi (take k args))) \<noteq> None"
      using Cons.prems(2) by (metis (no_types, opaque_lifting) Suc_le_mono length_Cons list.map(2) sum_list.Cons take_Suc_Cons add.assoc)
  qed (use Cons.prems(1) in simp)
  ultimately show ?case using Cons.prems(1) by simp
qed simp

lemma sum_loop_result: "sum_loop args s = Some n \<Longrightarrow> n = s + sum_list (map atoi args)"
proof (induction args arbitrary: s)
  case (Cons a args)
  then have "sum_loop args (s + atoi a) = Some n" by (auto simp: atoi_int_def to_int_def split: if_splits bind_splits)
  from Cons.IH [OF this] show ?case by simp
qed simp

section \<open>The counts of characters, words and lines\<close>

text \<open>
  The loop over the bytes of the file. \<open>line\<close> is a \<open>char\<close>, so the byte 255 is taken for the end;
  \<open>prevline\<close> has no value before the first byte.
\<close>

record counts =
  chars :: int
  words :: int
  lines :: int
  prevline :: "char option"

definition count_char :: "char \<Rightarrow> counts \<Rightarrow> counts option" where
  "count_char c st = do {
     w \<leftarrow> (if c = CHR '' '' \<or> c = CHR 0x0A \<or> c = CHR 0x09
           then do { p \<leftarrow> prevline st; Some (if \<not> isspace p then words st + 1 else words st) }
           else Some (words st));
     Some \<lparr>chars = chars st + 1, words = w, lines = (if c = CHR 0x0A then lines st + 1 else lines st), prevline = Some c\<rparr>
   }"

fun count_loop :: "string \<Rightarrow> counts \<Rightarrow> counts option" where
  "count_loop [] st = Some st"
| "count_loop (c # cs) st = (if c = CHR 0xFF then Some st else do { st' \<leftarrow> count_char c st; count_loop cs st' })"

datatype count_result = Not_opened | Counted int int int

definition exercise3 :: "string option \<Rightarrow> (int \<times> count_result) option" where
  "exercise3 file = (case file of
      None \<Rightarrow> Some (1, Not_opened)
    | Some content \<Rightarrow> do {
        st \<leftarrow> count_loop content \<lparr>chars = 0, words = 0, lines = 0, prevline = None\<rparr>;
        p \<leftarrow> prevline st;
        Some (0, Counted (chars st + 1) (if \<not> isspace p then words st + 1 else words st) (lines st + 1))
      })"

text \<open>The blanks that end a word, and the texts whose blanks are all of that kind.\<close>

definition BLANKS :: string where
  "BLANKS = [CHR '' '', CHR 0x0A, CHR 0x09]"

definition plain_char :: "char \<Rightarrow> bool" where
  "plain_char c \<longleftrightarrow> c \<noteq> CHR 0xFF \<and> (isspace c \<longrightarrow> c \<in> set BLANKS)"

lemma plain_space: "plain_char c \<Longrightarrow> isspace c \<longleftrightarrow> c \<in> set BLANKS"
  by (auto simp: plain_char_def BLANKS_def isspace_def)

lemma words_of_grow: "\<lbrakk>p \<notin> set d; c \<notin> set d\<rbrakk> \<Longrightarrow> length (words_of d (p # c # cs)) = length (words_of d (c # cs))"
  by (simp add: words_of.simps [of d "p # c # cs"] words_of.simps [of d "c # cs"])

lemma words_of_end: "\<lbrakk>p \<notin> set d; c \<in> set d\<rbrakk> \<Longrightarrow> words_of d (p # c # cs) = [p] # words_of d cs"
  using words_of_word [of "[p]" d c cs] by simp

lemma count_loop_counts:
  "\<lbrakk>\<forall>c \<in> set (p # cs). plain_char c\<rbrakk> \<Longrightarrow> \<exists>w' p'. plain_char p' \<and>
    count_loop cs \<lparr>chars = n, words = w, lines = l, prevline = Some p\<rparr> =
      Some \<lparr>chars = n + int (length cs), words = w', lines = l + int (count_list cs (CHR 0x0A)), prevline = Some p'\<rparr>
    \<and> (if isspace p' then w' else w' + 1) = w + int (length (words_of BLANKS (p # cs)))"
proof (induction cs arbitrary: p n w l)
  case Nil
  have "words_of BLANKS [p] = (if p \<in> set BLANKS then [] else [[p]])"
    using words_of_last [of "[p]" BLANKS] words_of_delim [of p BLANKS "[]"] by auto
  then show ?case using Nil plain_space [of p] by auto
next
  case (Cons c cs)
  have pc: "plain_char p" "plain_char c" using Cons.prems by auto
  define w1 where "w1 = (if c \<in> set BLANKS \<and> p \<notin> set BLANKS then w + 1 else w)"
  have step: "count_char c \<lparr>chars = n, words = w, lines = l, prevline = Some p\<rparr> =
      Some \<lparr>chars = n + 1, words = w1, lines = (if c = CHR 0x0A then l + 1 else l), prevline = Some c\<rparr>"
    using plain_space [OF pc(1)] by (auto simp: count_char_def w1_def BLANKS_def)
  have ws: "w1 + int (length (words_of BLANKS (c # cs))) = w + int (length (words_of BLANKS (p # c # cs)))"
    using words_of_grow [of p BLANKS c cs] words_of_end [of p BLANKS c cs] words_of_delim [of p BLANKS "c # cs"]
      words_of_delim [of c BLANKS cs]
    by (cases "p \<in> set BLANKS"; cases "c \<in> set BLANKS") (simp_all add: w1_def)
  obtain w' p' where "plain_char p'"
    "count_loop cs \<lparr>chars = n + 1, words = w1, lines = (if c = CHR 0x0A then l + 1 else l), prevline = Some c\<rparr> =
      Some \<lparr>chars = n + 1 + int (length cs), words = w',
        lines = (if c = CHR 0x0A then l + 1 else l) + int (count_list cs (CHR 0x0A)), prevline = Some p'\<rparr>"
    "(if isspace p' then w' else w' + 1) = w1 + int (length (words_of BLANKS (c # cs)))"
    using Cons.IH [of c "n + 1" w1 "if c = CHR 0x0A then l + 1 else l"] Cons.prems by auto
  with step ws pc(2) show ?case by (auto simp: plain_char_def)
qed

lemma count_first:
  assumes "plain_char c" "c \<notin> set BLANKS"
  shows "count_char c \<lparr>chars = 0, words = 0, lines = 0, prevline = None\<rparr> =
    Some \<lparr>chars = 1, words = 0, lines = 0, prevline = Some c\<rparr>"
  using assms by (auto simp: count_char_def BLANKS_def)

lemma exercise3_words:
  assumes "\<forall>c \<in> set s. plain_char c" "s \<noteq> []" "hd s \<notin> set BLANKS"
  shows "exercise3 (Some s) = Some (0, Counted (int (length s) + 1) (int (length (words_of BLANKS s)))
    (int (count_list s (CHR 0x0A)) + 1))"
proof -
  obtain c cs where s: "s = c # cs" using assms(2) by (cases s) auto
  obtain w' p' where 1: "plain_char p'"
    "count_loop cs \<lparr>chars = 1, words = 0, lines = 0, prevline = Some c\<rparr> =
      Some \<lparr>chars = 1 + int (length cs), words = w', lines = 0 + int (count_list cs (CHR 0x0A)), prevline = Some p'\<rparr>"
    "(if isspace p' then w' else w' + 1) = 0 + int (length (words_of BLANKS (c # cs)))"
    using count_loop_counts [of c cs 1 0 0] assms(1) s by auto
  have c: "c \<noteq> CHR 0xFF" "c \<noteq> CHR 0x0A" "plain_char c" "c \<notin> set BLANKS"
    using assms(1,3) s by (auto simp: plain_char_def BLANKS_def)
  have "count_loop s \<lparr>chars = 0, words = 0, lines = 0, prevline = None\<rparr> =
      Some \<lparr>chars = 1 + int (length cs), words = w', lines = int (count_list cs (CHR 0x0A)), prevline = Some p'\<rparr>"
    using 1(2) count_first [OF c(3,4)] c(1) by (simp add: s)
  then show ?thesis using 1(3) c(2) by (auto simp: exercise3_def s split: if_splits)
qed

section \<open>The wrapper of \<open>open\<close>\<close>

datatype open_call = ENOENT | Orig_open string

definition ropen :: "string \<Rightarrow> open_call option" where
  "ropen pathname =
     (let len = length pathname in
      if len > 3 \<and> len < 5 then None
      else if len > 3 \<and> drop (len - 5) pathname = ''.java'' then Some ENOENT
      else if len > 3 \<and> drop (len - 4) pathname \<noteq> ''.txt'' then Some (Orig_open ''roll.txt'')
      else Some (Orig_open pathname))"

text \<open>The logging wrapper of open-log.c only logs.\<close>

definition open_logged :: "string \<Rightarrow> string \<times> open_call" where
  "open_logged pathname = (pathname, Orig_open pathname)"

section \<open>The counter\<close>

text \<open>What ends the \<open>sleep\<close> of an iteration; the handlers run then.\<close>

datatype wake = Timeout | SIGALRM | SIGQUIT | SIGUSR1 | SIGINT

definition handle :: "wake \<Rightarrow> u64 \<Rightarrow> u64" where
  "handle e cnt = (case e of SIGALRM \<Rightarrow> 0 | SIGQUIT \<Rightarrow> cnt + 5 | SIGUSR1 \<Rightarrow> cnt + 10 | _ \<Rightarrow> cnt)"

text \<open>The counts that are printed, and the final one after SIGINT.\<close>

fun count_up :: "wake list \<Rightarrow> u64 \<Rightarrow> u64 list \<times> u64 option" where
  "count_up [] cnt = ([cnt + 1], None)"
| "count_up (e # es) cnt =
     (let cnt = cnt + 1 in
      if e = SIGINT then ([cnt], Some cnt)
      else let (printed, final) = count_up es (handle e cnt) in (cnt # printed, final))"

definition signal_main :: "wake list \<Rightarrow> u64 list \<times> u64 option" where
  "signal_main es = count_up es 0"

lemma count_up_final:
  "\<lbrakk>SIGALRM \<notin> set es; SIGINT \<notin> set es\<rbrakk> \<Longrightarrow> snd (count_up (es @ [SIGINT]) cnt) =
    Some (cnt + of_nat (length es + 1 + 5 * count_list es SIGQUIT + 10 * count_list es SIGUSR1))"
proof (induction es arbitrary: cnt)
  case (Cons e es)
  then show ?case by (cases e) (simp_all add: handle_def Let_def case_prod_beta algebra_simps)
qed (simp add: Let_def)

text \<open>What was counted before the last alarm does not matter.\<close>

lemma signal_main_final:
  assumes "SIGINT \<notin> set es1" "SIGALRM \<notin> set es2" "SIGINT \<notin> set es2"
  shows "snd (signal_main (es1 @ SIGALRM # es2 @ [SIGINT])) =
    Some (of_nat (length es2 + 1 + 5 * count_list es2 SIGQUIT + 10 * count_list es2 SIGUSR1))"
proof -
  have "snd (count_up (es1 @ SIGALRM # es2 @ [SIGINT]) cnt) = snd (count_up (es2 @ [SIGINT]) 0)" for cnt
    using assms(1)
  proof (induction es1 arbitrary: cnt)
    case (Cons e es1)
    then show ?case by (auto simp: Let_def case_prod_beta)
  qed (simp_all add: handle_def Let_def case_prod_beta)
  then show ?thesis using count_up_final [OF assms(2,3), of 0] by (simp add: signal_main_def)
qed

section \<open>The permission check\<close>

definition S_IROTH :: u32 where
  "S_IROTH = 4"

definition S_IRWXO :: u32 where
  "S_IRWXO = 7"

datatype perm_msg = Invalid_argument | Stat_error | Owned | Readable | Not_readable

text \<open>\<open>st\<close> is the result of \<open>stat\<close>: the owner and the mode.\<close>

definition perm_checker :: "u32 \<Rightarrow> (u32 \<times> u32) option \<Rightarrow> perm_msg" where
  "perm_checker uid st = (case st of
      None \<Rightarrow> Stat_error
    | Some (st_uid, st_mode) \<Rightarrow>
        if uid = st_uid then Owned
        else if and st_mode S_IROTH \<noteq> 0 \<or> and st_mode S_IRWXO \<noteq> 0 then Readable
        else Not_readable)"

definition inode_main :: "string list \<Rightarrow> (string \<Rightarrow> (u32 \<times> u32) option) \<Rightarrow> u32 \<Rightarrow> perm_msg" where
  "inode_main argv stat uid = (if length argv \<noteq> 2 then Invalid_argument else perm_checker uid (stat (argv ! 1)))"

text \<open>A file that others may only write or execute is reported as readable.\<close>

lemma perm_checker_others: "uid \<noteq> owner \<Longrightarrow> perm_checker uid (Some (owner, m)) = (if and m 7 = 0 then Not_readable else Readable)"
proof -
  have "and m 4 = and (and m 7) 4" by (simp add: and.assoc)
  then show "uid \<noteq> owner \<Longrightarrow> perm_checker uid (Some (owner, m)) = (if and m 7 = 0 then Not_readable else Readable)"
    by (auto simp: perm_checker_def S_IROTH_def S_IRWXO_def)
qed

section \<open>What the tools do\<close>

text \<open>
  On a file of plain characters that does not begin with a blank, Exercise3 reports the number of
  words, but one character and one line feed more than the file has. An empty file and a file that
  begins with a blank make it read a variable without a value.
\<close>

theorem exercise3_counts:
  shows "((\<forall>c \<in> set s. plain_char c) \<and> s \<noteq> [] \<and> hd s \<notin> set BLANKS \<longrightarrow>
      exercise3 (Some s) = Some (0, Counted (int (length s) + 1) (int (length (words_of BLANKS s)))
        (int (count_list s (CHR 0x0A)) + 1)))
    \<and> (s = [] \<or> hd s \<in> set BLANKS \<longrightarrow> exercise3 (Some s) = None)"
proof (intro conjI impI)
  assume "s = [] \<or> hd s \<in> set BLANKS"
  then show "exercise3 (Some s) = None" by (cases s) (auto simp: exercise3_def count_char_def BLANKS_def)
qed (use exercise3_words in blast)

theorem exercise3_counts_witness:
  "exercise3 (Some (''a bc'' @ [CHR 0x0A])) = Some (0, Counted 6 2 2) \<and> exercise3 (Some '' a'') = None"
  using exercise3_counts [of "''a bc'' @ [CHR 0x0A]"] exercise3_counts [of "'' a''"]
  by (simp add: BLANKS_def plain_char_def isspace_def words_of.simps)

text \<open>
  The wrapper of \<open>open\<close> says that a file with the ending .java does not exist, passes a name
  of at most three characters and one with the ending .txt to the real \<open>open\<close>, and opens roll.txt
  for every other name; for a name of four characters it reads in front of the string.
\<close>

theorem ropen_cases:
  shows "ropen pathname =
    (if length pathname = 4 then None
     else if \<exists>stem. pathname = stem @ ''.java'' then Some ENOENT
     else if length pathname \<le> 3 \<or> (\<exists>stem. pathname = stem @ ''.txt'') then Some (Orig_open pathname)
     else Some (Orig_open ''roll.txt''))"
proof -
  have suffix: "(\<exists>stem. p = stem @ e) \<longleftrightarrow> length e \<le> length p \<and> drop (length p - length e) p = e" for p e :: string
    by (metis append_eq_conv_conj append_take_drop_id diff_add_inverse2 length_append le_add2)
  have l: "length ''.java'' = 5" "length ''.txt'' = 4" by simp_all
  show ?thesis unfolding suffix l ropen_def Let_def by auto
qed

end
