(* ===== verification/Dir_Wrappers.thy ===== *)
theory Dir_Wrappers
  imports C_Prelude
begin

text \<open>
  The wrappers of \<open>opendir\<close> and \<open>readdir\<close> of LabWork/Lab6, hidden.c and ghost.c. The functions of
  the C library that they wrap are parameters: \<open>orig_readdir\<close> gives the next name of a stream
  (\<open>None\<close> for NULL) and the stream behind it. In hidden.c the array is declared as \<open>name\<close> and
  used as \<open>namef\<close>, which does not compile; it is read as one array.
\<close>

section \<open>hidden.c\<close>

text \<open>
  \<open>dir\<close> is the answer of the wrapped \<open>opendir\<close>: the descriptor in the stream, or \<open>None\<close>. For the
  root directory the descriptor is marked; a NULL stream is dereferenced there.
\<close>

definition opendir_hidden :: "string \<Rightarrow> int option \<Rightarrow> (int \<Rightarrow> bool) \<Rightarrow> (int option \<times> (int \<Rightarrow> bool)) option" where
  "opendir_hidden name dir proc_fds =
     (if name = ''/'' then do {
        fd \<leftarrow> dir;
        if 0 \<le> fd \<and> fd < 65535 then Some (dir, proc_fds(fd := True)) else None
      }
      else Some (dir, proc_fds))"

definition readdir_hidden :: "('s \<Rightarrow> string option \<times> 's) \<Rightarrow> 's \<Rightarrow> (string option \<times> 's) option" where
  "readdir_hidden orig_readdir dirp =
     (let (entry, dirp1) = orig_readdir dirp in
      case entry of
        None \<Rightarrow> Some (None, dirp1)
      | Some d_name \<Rightarrow> do {
          name \<leftarrow> strcpy_into 50 d_name;
          Some (if name \<noteq> d_name then orig_readdir dirp1 else (Some d_name, dirp1))
        })"

text \<open>
  The name is compared with its own copy, so no entry is ever skipped: the wrapper is the wrapped
  function, and for a name of 50 or more characters it overflows the copy.
\<close>

theorem readdir_hides_nothing:
  "readdir_hidden orig s =
     (case fst (orig s) of Some n \<Rightarrow> if length n < 50 then Some (orig s) else None | None \<Rightarrow> Some (orig s))"
  by (auto simp: readdir_hidden_def strcpy_into_def split: prod.splits option.splits)

section \<open>ghost.c\<close>

text \<open>The system calls of one process; \<open>fork\<close> returns a number that is 0 in the child.\<close>

datatype ghost_call = Fork int | Setuid int | Sigterm_default | Kill_all

definition opendir_ghost :: "(string \<Rightarrow> 'd) \<Rightarrow> string \<Rightarrow> 'd" where
  "opendir_ghost orig_opendir name = orig_opendir name"

definition readdir_ghost ::
  "('s \<Rightarrow> string option \<times> 's) \<Rightarrow> int \<Rightarrow> 's \<Rightarrow> ghost_call list \<times> string option \<times> 's" where
  "readdir_ghost orig_readdir fork dirp =
     (let (entry, dirp1) = orig_readdir dirp in
      case entry of
        None \<Rightarrow> ([], None, dirp1)
      | Some e \<Rightarrow> (Fork fork # (if fork = 0 then [Setuid 501, Sigterm_default, Kill_all] else []), Some e, dirp1))"

text \<open>
  A program that reads a directory to its end with the wrapper, in the process whose calls of
  \<open>fork\<close> return \<open>rs\<close>: what it did and the names that it saw.
\<close>

fun scan_ghost :: "int list \<Rightarrow> string list \<Rightarrow> ghost_call list \<times> string list" where
  "scan_ghost (r # rs) (n # ns) =
     (let (calls, entry, ns1) = readdir_ghost (\<lambda>es. case es of [] \<Rightarrow> (None, []) | e # es' \<Rightarrow> (Some e, es')) r (n # ns);
          (more, names) = scan_ghost rs ns1 in
      (calls @ more, case entry of None \<Rightarrow> names | Some e \<Rightarrow> e # names))"
| "scan_ghost _ _ = ([], [])"

text \<open>
  Every process sees all names, and signals all other processes once for every \<open>fork\<close> in which
  it is the child: nothing is hidden, and the first process never sends a signal itself.
\<close>

theorem ghost_sees_all:
  "length rs = length ns \<Longrightarrow> snd (scan_ghost rs ns) = ns
     \<and> length (filter (\<lambda>c. c = Kill_all) (fst (scan_ghost rs ns))) = length (filter (\<lambda>r. r = 0) rs)"
  by (induction rs ns rule: scan_ghost.induct) (auto simp: readdir_ghost_def Let_def split: prod.splits)

text \<open>The directory \<open>/proc\<close> as far as a child of the second call sees it.\<close>

lemma ghost_sees_all_witness:
  "snd (scan_ghost [7, 0] [''1'', ''self'']) = [''1'', ''self'']
   \<and> length (filter (\<lambda>c. c = Kill_all) (fst (scan_ghost [7, 0] [''1'', ''self'']))) = 1"
  using ghost_sees_all [of "[7, 0]" "[''1'', ''self'']"] by simp

end
