(* ===== verification/Workload.thy ===== *)
theory Workload
  imports Complex_Main C_Prelude
begin

text \<open>
  The calibration of the scheduler's work load, LabWork/Lab7/workload.c, and the clock that it and
  Project2/timer.c read. The clock is a parameter: what \<open>gettimeofday\<close> answers to its \<open>n\<close>-th call,
  when so many turns of the busy loop have been made before it. Times are rationals; the
  rounding of \<open>double\<close> is not modelled.
\<close>

section \<open>The code\<close>

record timeval =
  tv_sec :: int
  tv_usec :: int

definition get_time :: "timeval \<Rightarrow> rat" where
  "get_time tv = of_int (tv_sec tv) + of_int (tv_usec tv) / 1000000"

definition UINT_MAX :: u64 where
  "UINT_MAX = 4294967295"

text \<open>The macro \<open>RUN_WORKLOAD\<close>: its two counters at the end.\<close>

function workload_loop :: "u64 \<Rightarrow> u64 \<Rightarrow> u64 \<Rightarrow> u64 \<times> u64" where
  "workload_loop num i j = (if i < num then workload_loop num (i + 1) (j - 1) else (i, j))"
  by pat_completeness auto

termination
proof (relation "measure (\<lambda>(num, i, j). unat num - unat i)")
  fix num i j :: u64
  assume i: "i < num"
  then have "unat i + 1 \<le> unat num" by (simp add: word_less_nat_alt)
  moreover have "unat num < 2 ^ 64" using unsigned_less [of num] by simp
  ultimately have "unat (i + 1) = unat i + 1" by (simp add: unat_word_ariths)
  then show "((num, i + 1, j - 1), num, i, j) \<in> measure (\<lambda>(num, i, j). unat num - unat i)"
    using i by (simp add: word_less_nat_alt)
qed simp

declare workload_loop.simps [simp del]

definition run_workload :: "u64 \<Rightarrow> u64 \<times> u64" where
  "run_workload num = workload_loop num 0 UINT_MAX"

text \<open>The conversion of a \<open>double\<close> to \<open>uint32_t\<close>: a value out of range has no defined result.\<close>

definition to_u32 :: "rat \<Rightarrow> u32 option" where
  "to_u32 x = (let n = (if 0 \<le> x then \<lfloor>x\<rfloor> else \<lceil>x\<rceil>) in if 0 \<le> n \<and> n < 2 ^ 32 then Some (word_of_int n) else None)"

type_synonym clock = "nat \<Rightarrow> nat \<Rightarrow> timeval"

text \<open>
  The loop: \<open>n\<close> calls of the clock and \<open>turns\<close> turns of the busy loop have been made; \<open>shown\<close> is what has
  been printed.
\<close>

partial_function (option) calibrate_loop ::
  "clock \<Rightarrow> nat \<Rightarrow> nat \<Rightarrow> u32 \<Rightarrow> (u32 \<times> rat) list \<Rightarrow> (u32 \<times> rat \<times> nat \<times> nat \<times> (u32 \<times> rat) list) option" where
  "calibrate_loop clock n turns workload shown =
     (let start = get_time (clock n turns);
          turns = turns + unat (fst (run_workload (ucast workload)));
          finish = get_time (clock (n + 1) turns);
          run_time = finish - start;
          shown = shown @ [(workload, run_time)] in
      if run_time > 1 / 4 then Some (workload, run_time, n + 2, turns, shown)
      else calibrate_loop clock (n + 2) turns (workload * 2) shown)"

definition UINT32_MAX :: u32 where
  "UINT32_MAX = 4294967295"

definition calibrate_workload :: "clock \<Rightarrow> (u64 \<times> (u32 \<times> rat) list) option" where
  "calibrate_workload clock = do {
     (workload, run_time, n, turns, shown) \<leftarrow> calibrate_loop clock 0 0 (UINT32_MAX div 100) [];
     workload \<leftarrow> to_u32 (of_nat (unat workload) / run_time * (1 / 4));
     let start = get_time (clock n turns);
     let turns = turns + unat (fst (run_workload (ucast workload)));
     let finish = get_time (clock (n + 1) turns);
     Some (ucast workload, shown @ [(workload, finish - start)])
   }"

section \<open>The busy loop\<close>

lemma workload_loop_end: "i \<le> num \<Longrightarrow> workload_loop num i j = (num, j - (num - i))"
proof (induction num i j rule: workload_loop.induct)
  case (1 num i j)
  show ?case
  proof (cases "i < num")
    case True
    then have "i + 1 \<le> num" by (rule inc_le)
    with 1 True show ?thesis by (subst workload_loop.simps) simp
  next
    case False
    with 1(2) show ?thesis by (subst workload_loop.simps) simp
  qed
qed

lemma run_workload_end: "run_workload num = (num, UINT_MAX - num)"
  by (simp add: run_workload_def workload_loop_end)

section \<open>The calibration\<close>

lemma unat_up: "unat (ucast (w :: u32) :: u64) = unat w"
  by transfer (simp add: take_bit_take_bit)

text \<open>
  A clock that shows the whole microseconds that have passed, on a machine that makes \<open>v\<close> turns of
  the busy loop in a second.
\<close>

definition accurate :: "clock \<Rightarrow> rat \<Rightarrow> bool" where
  "accurate clock v \<longleftrightarrow> 0 < v \<and> (\<exists>t. \<forall>n turns.
     get_time (clock n turns) \<le> t + of_nat turns / v \<and> t + of_nat turns / v < get_time (clock n turns) + 1 / 1000000)"

text \<open>A measured time, and the time that a run takes.\<close>

definition close_to :: "rat \<Rightarrow> rat \<Rightarrow> u32 \<Rightarrow> bool" where
  "close_to v r w \<longleftrightarrow> \<bar>r - of_nat (unat w) / v\<bar> < 1 / 1000000"

lemma close_bounds:
  fixes r q :: rat
  assumes "\<bar>r - q\<bar> < e"
  shows "1 / 4 + e \<le> q \<Longrightarrow> 1 / 4 < r" "1 / 4 < r \<Longrightarrow> 1 / 4 - e < q"
  using assms by (auto simp: abs_less_iff)

lemma close_readings:
  fixes x y :: rat
  assumes "x \<le> t + a" "t + a < x + e" "y \<le> t + (a + q)" "t + (a + q) < y + e"
  shows "\<bar>y - x - q\<bar> < e"
  using assms by (auto simp: abs_less_iff)

lemma accurate_run:
  assumes "accurate clock v"
  shows "close_to v (get_time (clock m (turns + unat (fst (run_workload (ucast w))))) - get_time (clock n turns)) w"
proof -
  obtain t where t: "\<And>n turns. get_time (clock n turns) \<le> t + of_nat turns / v \<and> t + of_nat turns / v < get_time (clock n turns) + 1 / 1000000"
    using assms by (auto simp: accurate_def)
  have "of_nat (turns + unat w) / v = of_nat turns / v + of_nat (unat w) / v" by (simp add: add_divide_distrib)
  then show ?thesis
    using close_readings [of "get_time (clock n turns)" t "of_nat turns / v" "1 / 1000000" "get_time (clock m (turns + unat w))" "of_nat (unat w) / v"]
      t [of n turns] t [of m "turns + unat w"]
    unfolding close_to_def run_workload_end unat_up fst_conv by simp
qed

lemma calibrate_step:
  assumes "accurate clock v"
  obtains r turns' shown' where "close_to v r w"
    "calibrate_loop clock n turns w shown =
      (if r > 1 / 4 then Some (w, r, n + 2, turns', shown') else calibrate_loop clock (n + 2) turns' (w * 2) shown')"
  using that [OF accurate_run [OF assms]] by (subst (asm) calibrate_loop.simps) (simp only: Let_def)

lemma calibrate_found:
  "\<lbrakk>accurate clock v; 1 / 4 + 1 / 1000000 \<le> of_nat (unat (w * 2 ^ k)) / v\<rbrakk> \<Longrightarrow>
    \<exists>w' r n' turns' shown'. calibrate_loop clock n turns w shown = Some (w', r, n', turns', shown')
      \<and> 1 / 4 < r \<and> close_to v r w'"
proof (induction k arbitrary: n turns w shown)
  case 0
  obtain r turns' shown' where r: "close_to v r w" "calibrate_loop clock n turns w shown =
      (if r > 1 / 4 then Some (w, r, n + 2, turns', shown') else calibrate_loop clock (n + 2) turns' (w * 2) shown')"
    by (rule calibrate_step [OF 0(1)])
  moreover have "1 / 4 < r" using r(1) 0(2) close_bounds(1) unfolding close_to_def by (metis mult.right_neutral power_0)
  ultimately show ?case by simp
next
  case (Suc k)
  then have k: "1 / 4 + 1 / 1000000 \<le> of_nat (unat (w * 2 * 2 ^ k)) / v" by (simp only: mult.assoc power_Suc)
  obtain r turns' shown' where r: "close_to v r w" "calibrate_loop clock n turns w shown =
      (if r > 1 / 4 then Some (w, r, n + 2, turns', shown') else calibrate_loop clock (n + 2) turns' (w * 2) shown')"
    by (rule calibrate_step [OF Suc(2)])
  show ?case
  proof (cases "1 / 4 < r")
    case True
    then show ?thesis using r by simp
  next
    case False
    show ?thesis unfolding r(2) if_not_P [OF False] by (rule Suc.IH [OF Suc(2) k])
  qed
qed

lemma calibrate_never:
  assumes "calibrate_loop clock n turns w shown = Some y" and s: "accurate clock v"
  shows "\<exists>k. 1 / 4 - 1 / 1000000 < of_nat (unat (w * 2 ^ k)) / v"
proof (rule calibrate_loop.raw_induct [of "\<lambda>c n turns w shown y. c = clock \<longrightarrow> (\<exists>k. 1 / 4 - 1 / 1000000 < of_nat (unat (w * 2 ^ k)) / v)",
      OF _ assms(1), THEN mp, OF _ refl], intro impI)
  fix rec :: "clock \<Rightarrow> nat \<Rightarrow> nat \<Rightarrow> u32 \<Rightarrow> (u32 \<times> rat) list \<Rightarrow> (u32 \<times> rat \<times> nat \<times> nat \<times> (u32 \<times> rat) list) option"
    and c n turns w shown y
  assume IH: "\<And>c n turns w shown y. rec c n turns w shown = Some y \<Longrightarrow> c = clock \<longrightarrow> (\<exists>k. 1 / 4 - 1 / 1000000 < of_nat (unat (w * 2 ^ k)) / v)"
    and run: "(let start = get_time (c n turns); turns = turns + unat (fst (run_workload (ucast w)));
          finish = get_time (c (n + 1) turns); run_time = finish - start; shown = shown @ [(w, run_time)] in
      if run_time > 1 / 4 then Some (w, run_time, n + 2, turns, shown)
      else rec c (n + 2) turns (w * 2) shown) = Some y" and c: "c = clock"
  define r where "r = get_time (clock (n + 1) (turns + unat (fst (run_workload (ucast w))))) - get_time (clock n turns)"
  show "\<exists>k. 1 / 4 - 1 / 1000000 < of_nat (unat (w * 2 ^ k)) / v"
  proof (cases "1 / 4 < r")
    case True
    then have "1 / 4 - 1 / 1000000 < of_nat (unat w) / v"
      using close_bounds(2) accurate_run [OF s, of "n + 1" turns w n] unfolding close_to_def r_def [symmetric] by blast
    then show ?thesis by (intro exI [of _ 0]) simp
  next
    case False
    then obtain t' s' where "rec clock (n + 2) t' (w * 2) s' = Some y"
      using run unfolding c Let_def r_def by metis
    from IH [OF this] obtain k where "1 / 4 - 1 / 1000000 < of_nat (unat (w * 2 * 2 ^ k)) / v" by blast
    then show ?thesis by (intro exI [of _ "Suc k"]) (simp only: mult.assoc power_Suc)
  qed
qed

text \<open>The work loads that doubling leads to, in 32 bits; from the 29th on they are 0.\<close>

definition START :: u32 where
  "START = UINT32_MAX div 100"

lemma START_eq: "START = 42949672"
  by (simp add: START_def UINT32_MAX_def)

lemma doublings: "unat (START * 2 ^ k) \<le> 4123164672"
proof (cases "k < 29")
  case True
  have "list_all (\<lambda>k. unat (START * 2 ^ k) \<le> 4123164672) [0..<29]"
    by (simp add: START_eq upt_rec)
  then show ?thesis using True by (simp add: list_all_iff)
next
  case False
  then have "2 ^ k = (2 ^ 29 * 2 ^ (k - 29) :: u32)" unfolding power_add [symmetric] by simp
  then have "START * 2 ^ k = START * 2 ^ 29 * 2 ^ (k - 29)" by (simp only: mult.assoc)
  also have "START * 2 ^ 29 = 0" by (simp add: START_eq)
  finally show ?thesis by simp
qed

lemma doubling_12: "unat (START * 2 ^ 12) = 4123164672"
  by (simp add: START_eq)

text \<open>The work load is scaled down to a quarter of a second.\<close>

lemma scaled:
  assumes v: "0 < v" and r: "1 / 4 < r" "close_to v r w"
  shows "\<exists>x. to_u32 (of_nat (unat w) / r * (1 / 4)) = Some x \<and> \<bar>of_nat (unat x) - v / 4\<bar> < v / 1000000 + 1"
proof -
  define q where "q = of_nat (unat w) / r * (1 / 4)"
  have r0: "0 < r" using r(1) by simp
  have "unat w < 2 ^ 32" using unsigned_less [of w] by simp
  then have w: "of_nat (unat w) < (2 ^ 32 :: rat)" by (metis of_nat_less_iff of_nat_numeral of_nat_power)
  have "of_nat (unat w) * 1 \<le> (of_nat (unat w) * (4 * r) :: rat)" by (rule mult_left_mono) (use r(1) in \<open>simp_all del: of_nat_unat\<close>)
  then have "q \<le> of_nat (unat w)" using r0 by (simp add: q_def divide_simps mult.commute)
  then have q: "0 \<le> q" "q < 2 ^ 32" using w r0 by (simp_all add: q_def del: of_nat_unat)
  then have f: "0 \<le> \<lfloor>q\<rfloor>" "\<lfloor>q\<rfloor> < 2 ^ 32" by (simp_all add: floor_less_iff)
  have "uint (word_of_int \<lfloor>q\<rfloor> :: u32) = \<lfloor>q\<rfloor>" using f by (simp add: uint_word_of_int)
  then have u: "unat (word_of_int \<lfloor>q\<rfloor> :: u32) = nat \<lfloor>q\<rfloor>" by (metis nat_uint_eq)
  have qr: "q * (4 * r) = of_nat (unat w)" using r0 by (simp add: q_def)
  have "\<bar>q - v / 4\<bar> * (4 * r) = \<bar>q * (4 * r) - v * r\<bar>"
  proof -
    have "\<bar>q - v / 4\<bar> * (4 * r) = \<bar>(q - v / 4) * (4 * r)\<bar>" by (rule abs_mult_pos) (use r0 in simp)
    also have "(q - v / 4) * (4 * r) = q * (4 * r) - v * r" by (simp add: left_diff_distrib)
    finally show ?thesis .
  qed
  also have "\<dots> = v * \<bar>r - of_nat (unat w) / v\<bar>"
  proof -
    have "v * \<bar>r - of_nat (unat w) / v\<bar> = \<bar>v * (r - of_nat (unat w) / v)\<bar>" by (rule abs_mult_pos') (use v in simp)
    also have "v * (r - of_nat (unat w) / v) = v * r - of_nat (unat w)" using v by (simp add: right_diff_distrib)
    finally show ?thesis unfolding qr by (simp only: abs_minus_commute)
  qed
  also have "\<dots> < v * (1 / 1000000)" using r(2) v by (simp add: close_to_def)
  also have "v * (1 / 1000000) \<le> v / 1000000 * (4 * r)" using v r(1) by (simp add: field_simps)
  finally have "\<bar>q - v / 4\<bar> < v / 1000000" using r0 by simp
  moreover have "of_nat (nat \<lfloor>q\<rfloor>) \<le> q" "q < of_nat (nat \<lfloor>q\<rfloor>) + 1" using f(1) floor_correct [of q] by (simp_all add: of_nat_nat)
  ultimately have "\<bar>of_nat (nat \<lfloor>q\<rfloor>) - v / 4\<bar> < v / 1000000 + 1" using v unfolding abs_less_iff by linarith
  moreover have "to_u32 q = Some (word_of_int \<lfloor>q\<rfloor>)" using q(1) f by (simp add: to_u32_def)
  ultimately show ?thesis unfolding q_def [symmetric] u [symmetric] by blast
qed

lemma calibrates_below:
  assumes s: "accurate clock v" and v: "v < 16492000000"
  shows "\<exists>w shown. calibrate_workload clock = Some (w, shown) \<and> \<bar>of_nat (unat w) - v / 4\<bar> < v / 1000000 + 1"
proof -
  have v0: "0 < v" using s by (simp add: accurate_def)
  then have "1 / 4 + 1 / 1000000 \<le> of_nat (unat (START * 2 ^ 12)) / v" using v unfolding doubling_12 by (simp add: field_simps)
  from calibrate_found [OF s this, of 0 0 "[]"] obtain w r n turns shown where
    l: "calibrate_loop clock 0 0 START [] = Some (w, r, n, turns, shown)" "1 / 4 < r" "close_to v r w" by blast
  from scaled [OF v0 l(2,3)] obtain x where
    x: "to_u32 (of_nat (unat w) / r * (1 / 4)) = Some x" "\<bar>of_nat (unat x) - v / 4\<bar> < v / 1000000 + 1" by blast
  show ?thesis
    unfolding calibrate_workload_def START_def [symmetric] l(1) Option.bind.bind_lunit prod.case x(1) Let_def
    using x(2) unat_up [of x] by (metis (no_types, lifting))
qed

lemma calibrates_never:
  assumes s: "accurate clock v" and v: "16493000000 \<le> v"
  shows "calibrate_workload clock = None"
proof -
  have "\<not> 1 / 4 - 1 / 1000000 < of_nat (unat (START * 2 ^ k)) / v" for k
  proof -
    have "of_nat (unat (START * 2 ^ k)) \<le> (of_nat 4123164672 :: rat)" using doublings by (simp only: of_nat_le_iff)
    then show ?thesis using v s by (simp add: field_simps accurate_def)
  qed
  then have "calibrate_loop clock 0 0 START [] = None"
    using calibrate_never [OF _ s, of 0 0 START "[]"] by (metis not_None_eq)
  then show ?thesis by (simp add: calibrate_workload_def START_def)
qed

text \<open>
  C34: On a machine that makes \<open>v\<close> turns of the busy loop in a second, the calibration returns the
  number of turns for a quarter of a second, up to the turns of a microsecond, when \<open>v\<close> is
  below 16492000000; on a machine with 16493000000 turns or more the 32-bit work load wraps, and
  becomes 0, before a run takes long enough, and the calibration does not return.
\<close>

theorem calibrates:
  assumes "accurate clock v"
  shows "(v < 16492000000 \<longrightarrow> (\<exists>w shown. calibrate_workload clock = Some (w, shown) \<and> \<bar>of_nat (unat w) - v / 4\<bar> < v / 1000000 + 1))
    \<and> (16493000000 \<le> v \<longrightarrow> calibrate_workload clock = None)"
  using calibrates_below [OF assms] calibrates_never [OF assms] by blast

text \<open>The clock of a machine with \<open>v\<close> turns in a second.\<close>

definition clock_of :: "rat \<Rightarrow> clock" where
  "clock_of v n turns = (let us = \<lfloor>of_nat turns * 1000000 / v\<rfloor> in \<lparr>tv_sec = us div 1000000, tv_usec = us mod 1000000\<rparr>)"

lemma clock_of_accurate: "0 < v \<Longrightarrow> accurate (clock_of v) v"
proof -
  assume v: "0 < v"
  have g: "get_time (clock_of v n turns) = of_int \<lfloor>of_nat turns * 1000000 / v\<rfloor> / 1000000" for n turns
  proof -
    define us where "us = \<lfloor>of_nat turns * 1000000 / v\<rfloor>"
    have "us = us div 1000000 * 1000000 + us mod 1000000" by simp
    then have "(of_int us :: rat) = of_int (us div 1000000) * 1000000 + of_int (us mod 1000000)"
      by (metis of_int_add of_int_mult of_int_numeral)
    then show ?thesis by (simp add: get_time_def clock_of_def Let_def us_def [symmetric] add_divide_distrib)
  qed
  have f: "of_int \<lfloor>y * 1000000 / v\<rfloor> / 1000000 \<le> 0 + y / v \<and> 0 + y / v < of_int \<lfloor>y * 1000000 / v\<rfloor> / 1000000 + 1 / 1000000" for y
  proof -
    have "of_int \<lfloor>z\<rfloor> / 1000000 \<le> z / 1000000 \<and> z / 1000000 < of_int \<lfloor>z\<rfloor> / 1000000 + 1 / 1000000" for z :: rat
      using floor_correct [of z] by simp
    from this [of "y * 1000000 / v"] show ?thesis by simp
  qed
  have "get_time (clock_of v n turns) \<le> 0 + of_nat turns / v \<and> 0 + of_nat turns / v < get_time (clock_of v n turns) + 1 / 1000000" for n turns
    unfolding g by (rule f)
  with v show ?thesis unfolding accurate_def by blast
qed

theorem calibrates_witness:
  "(\<exists>w shown. calibrate_workload (clock_of 1000000) = Some (w, shown) \<and> \<bar>of_nat (unat w) - 250000\<bar> < (2 :: rat))
    \<and> calibrate_workload (clock_of 20000000000) = None"
  using calibrates [OF clock_of_accurate, of 1000000] calibrates [OF clock_of_accurate, of 20000000000] by simp

end
