(* ===== verification/Sched_Main.thy ===== *)
theory Sched_Main
  imports Process_Spec Sched_Props Workload
begin

text \<open>
  \<open>main\<close> of the scheduler simulator, LabWork/Lab7/scheduler.c: the arguments, the loader, the
  calibration, the run of the selected algorithm and the summary. The run is given the alarm
  signals of its steps; when it has not come to its end with the last of them, the result
  says so.
\<close>

section \<open>The code\<close>

record summary =
  turnarounds :: "(string \<times> rat) list"
  turnaround_average :: rat
  responses :: "(string \<times> rat) list"
  response_average :: rat
  completions :: "(nat \<times> string) list"

text \<open>The summary; the conversion of a completion time to \<open>int\<close> has to be in range.\<close>

definition print_summary :: "sched \<Rightarrow> summary option" where
  "print_summary s = do {
     ps \<leftarrow> procs s;
     if list_all (\<lambda>p. to_int \<lfloor>completion_time p\<rfloor> \<noteq> None) ps
     then Some \<lparr>turnarounds = map (\<lambda>p. (name p, turnaround p)) ps, turnaround_average = average turnaround ps,
            responses = map (\<lambda>p. (name p, response p)) ps, response_average = average response ps,
            completions = enumerate 0 (completion_order ps)\<rparr>
     else None
   }"

datatype outcome =
    Usage
  | Finished summary
  | Assertion_failed
  | Still_running sched

definition sched_main :: "string list \<Rightarrow> string option \<Rightarrow> Workload.clock \<Rightarrow> sched_env \<Rightarrow> bool list \<Rightarrow> outcome option" where
  "sched_main argv file clk env alarms =
     (if length argv \<noteq> 3 then Some Usage
      else do {
        (msgs, s0) \<leftarrow> read_spec file sched_init;
        (g_workload_clocks, shown) \<leftarrow> calibrate_workload clk;
        s \<leftarrow> sched_steps (select_algo (argv ! 1)) env alarms s0;
        if control s = Done then do { r \<leftarrow> print_summary s; Some (Finished r) }
        else if control s = Aborted then Some Assertion_failed
        else Some (Still_running s)
      })"

section \<open>What a file describes\<close>

text \<open>The words of a line without its comment; \<open>None\<close> when the loader skips it.\<close>

definition line_words :: "string \<Rightarrow> string list option" where
  "line_words l = (case scan_line (l @ [NL]) 1 of (line, nf) \<Rightarrow>
     if line \<noteq> [] \<and> nf = 4 then Some (words_of delims line) else None)"

text \<open>The lines of a file, with comments and blank lines, and the processes that they describe.\<close>

inductive describes :: "string list \<Rightarrow> proc_spec list \<Rightarrow> bool" where
  no_lines: "describes [] []"
| skipped: "\<lbrakk>NL \<notin> set l; length l < 1023; line_words l = None; describes ls xs\<rbrakk> \<Longrightarrow> describes (l # ls) xs"
| process: "\<lbrakk>NL \<notin> set l; length l < 1023; line_words l = Some (nm # a # b # c # r); length nm < 128;
    atoi_int a = Some (int q); atoi_int b = Some (int w); atoi_int c = Some (int p); describes ls xs\<rbrakk> \<Longrightarrow>
    describes (l # ls) ((nm, q, w, p) # xs)"

lemma scan_line_no_NUL: "NUL \<notin> set (fst (scan_line l n))"
  by (induction l n rule: scan_line.induct) (auto split: prod.splits)

lemma read_line_skipped: "line_words l = None \<Longrightarrow> \<exists>msgs'. read_line_spec (l @ [NL]) (msgs, s) = Some (msgs', s)"
  by (auto simp: line_words_def read_line_spec_def Let_def split: prod.splits if_splits)

lemma read_line_process:
  assumes "line_words l = Some (nm # a # b # c # r)" "length nm < 128"
    and "atoi_int a = Some (int q)" "atoi_int b = Some (int w)" "atoi_int c = Some (int p)"
    and "num s < 100" "length (pcbs s) = 100"
  shows "read_line_spec (l @ [NL]) (msgs, s) = Some (msgs @ [Created nm],
    s\<lparr>pcbs := (pcbs s)[num s := spec_pcb (num s) (nm, q, w, p)], num_processes := num_processes s + 1\<rparr>)"
proof -
  obtain line where line: "scan_line (l @ [NL]) 1 = (line, 4)" "line \<noteq> []" "words_of delims line = nm # a # b # c # r"
    using assms(1) by (auto simp: line_words_def split: prod.splits if_splits)
  have "NUL \<notin> set line" using scan_line_no_NUL [of "l @ [NL]" 1] line(1) by simp
  from parse_fields_words [OF this] have "parse_fields line (num_processes s) = Some (spec_pcb (num s) (nm, q, w, p))"
    using assms(2-5) line(3) by (simp add: spec_pcb_def)
  then show ?thesis using assms(6,7) line(1,2) by (simp add: read_line_spec_def spec_pcb_def)
qed

lemma read_described:
  "\<lbrakk>describes ls xs; num s + length xs \<le> 100; length (pcbs s) = 100\<rbrakk> \<Longrightarrow>
   \<exists>msgs' s'. read_lines (map (\<lambda>l. l @ [NL]) ls) (msgs, s) = Some (msgs', s')
     \<and> num s' = num s + length xs \<and> length (pcbs s') = 100 \<and> (\<forall>i < num s. pcbs s' ! i = pcbs s ! i)
     \<and> (\<forall>i < length xs. pcbs s' ! (num s + i) = spec_pcb (num s + i) (xs ! i))
     \<and> s' = s\<lparr>pcbs := pcbs s', num_processes := num_processes s'\<rparr>"
proof (induction arbitrary: s msgs rule: describes.induct)
  case (skipped l ls xs)
  obtain msgs' where "read_line_spec (l @ [NL]) (msgs, s) = Some (msgs', s)"
    using read_line_skipped [OF skipped.hyps(3)] by blast
  then show ?case using skipped.IH [of s msgs'] skipped.prems by simp
next
  case (process l nm a b c r q w p ls xs)
  let ?x = "(nm, q, w, p)"
  let ?s = "s\<lparr>pcbs := (pcbs s)[num s := spec_pcb (num s) ?x], num_processes := num_processes s + 1\<rparr>"
  have n: "num ?s = num s + 1" using process.prems by (simp add: unat_word_ariths)
  have line: "read_line_spec (l @ [NL]) (msgs, s) = Some (msgs @ [Created nm], ?s)"
    using process.prems process.hyps by (intro read_line_process) auto
  obtain msgs' s' where s': "read_lines (map (\<lambda>l. l @ [NL]) ls) (msgs @ [Created nm], ?s) = Some (msgs', s')"
    "num s' = num ?s + length xs" "length (pcbs s') = 100" "\<forall>i < num ?s. pcbs s' ! i = pcbs ?s ! i"
    "\<forall>i < length xs. pcbs s' ! (num ?s + i) = spec_pcb (num ?s + i) (xs ! i)"
    "s' = ?s\<lparr>pcbs := pcbs s', num_processes := num_processes s'\<rparr>"
    using process.IH [of ?s "msgs @ [Created nm]"] process.prems n by auto
  have "pcbs s' ! (num s + i) = spec_pcb (num s + i) ((?x # xs) ! i)" if "i < length (?x # xs)" for i
  proof (cases i)
    case 0
    then show ?thesis using s'(4) n process.prems by simp
  next
    case (Suc k)
    then show ?thesis using s'(5) n that by (simp add: add.assoc)
  qed
  moreover have "pcbs s' ! i = pcbs s ! i" if "i < num s" for i using s'(4) n that by simp
  moreover have "s' = s\<lparr>pcbs := pcbs s', num_processes := num_processes s'\<rparr>"
    using s'(6) by (cases s) (metis sched.update_convs(1,4))
  ultimately show ?case using line s'(1-3) n by simp
qed simp

lemma describes_lines: "describes ls xs \<Longrightarrow> list_all (\<lambda>l. NL \<notin> set l \<and> length l < 1023) ls"
  by (induction rule: describes.induct) auto

definition file_of :: "string list \<Rightarrow> string" where
  "file_of ls = concat (map (\<lambda>l. l @ [NL]) ls)"

lemma read_spec_described:
  assumes "describes ls xs" "length xs \<le> 100" "xs \<noteq> []"
  shows "\<exists>msgs s. read_spec (Some (file_of ls)) sched_init = Some (msgs, s)
    \<and> num s = length xs \<and> (\<forall>i < length xs. pcbs s ! i = spec_pcb i (xs ! i)) \<and> loaded s"
proof -
  have n: "num sched_init = 0" "length (pcbs sched_init) = 100"
    by (simp_all add: sched_init_def NUM_PROCESSES_def)
  obtain msgs s where s: "read_lines (map (\<lambda>l. l @ [NL]) ls) ([], sched_init) = Some (msgs, s)"
    "num s = length xs" "length (pcbs s) = 100" "\<forall>i < length xs. pcbs s ! i = spec_pcb i (xs ! i)"
    "s = sched_init\<lparr>pcbs := pcbs s, num_processes := num_processes s\<rparr>"
    using read_described [OF assms(1), of sched_init "[]"] n assms(2) by auto
  have "current_process s = 0 \<and> current_quantum s = 0 \<and> g_main_ctx s = None \<and> control s = Main"
    by (subst s(5), subst s(5), subst s(5), subst s(5)) (simp add: sched_init_def)
  moreover have "\<forall>i < num s. state (pcbs s ! i) = CREATED \<and> ctx (pcbs s ! i) = None
      \<and> executed_work (pcbs s ! i) = 0"
    using s(2,4) by (auto simp: spec_pcb_def empty_pcb_def split: prod.splits)
  ultimately have "loaded s" using s(2,3) assms(2,3) by (simp add: loaded_def NUM_PROCESSES_def)
  with s show ?thesis by (auto simp: read_spec_def file_of_def fgets_file [OF describes_lines [OF assms(1)]])
qed

section \<open>The whole program\<close>

text \<open>Readings of the clock that fit an \<open>int\<close> in seconds.\<close>

definition int_clock :: "sched_env \<Rightarrow> bool" where
  "int_clock env \<longleftrightarrow> (\<forall>n. 0 \<le> clock env n \<and> clock env n < 2147483648)"

text \<open>A recorded time is one of the readings.\<close>

lemma summary_ok:
  assumes "procs s = Some ps" "\<forall>p \<in> set ps. 0 \<le> completion_time p \<and> completion_time p < 2147483648"
  shows "print_summary s = Some \<lparr>turnarounds = map (\<lambda>p. (name p, turnaround p)) ps, turnaround_average = average turnaround ps,
            responses = map (\<lambda>p. (name p, response p)) ps, response_average = average response ps,
            completions = enumerate 0 (completion_order ps)\<rparr>"
proof -
  have "to_int \<lfloor>completion_time p\<rfloor> \<noteq> None" if "p \<in> set ps" for p
  proof -
    have "0 \<le> \<lfloor>completion_time p\<rfloor>" "\<lfloor>completion_time p\<rfloor> < 2147483648"
      using assms(2) that by (auto simp: floor_less_iff)
    then show ?thesis by (simp add: to_int_def INT_MAX_def)
  qed
  then show ?thesis using assms(1) by (simp add: print_summary_def list_all_iff)
qed

lemma ended_times:
  assumes t: "times_ok env s" and c: "int_clock env" and i: "i < num s" "state (pcbs s ! i) = TERMINATED"
  shows "0 \<le> response (pcbs s ! i)" "response (pcbs s ! i) \<le> turnaround (pcbs s ! i)"
    "0 \<le> completion_time (pcbs s ! i)" "completion_time (pcbs s ! i) < 2147483648"
proof -
  have "started s i" using i(2) by (simp add: started_def proc_cost_def)
  then have o: "clock env 0 \<le> arrival_time (pcbs s ! i)" "arrival_time (pcbs s ! i) \<le> start_time (pcbs s ! i)"
    "start_time (pcbs s ! i) \<le> completion_time (pcbs s ! i)" "completion_time (pcbs s ! i) \<le> clock env (ticks s)"
    using t i by (auto simp: times_ok_def on_time_def)
  have "0 \<le> clock env 0" "clock env (ticks s) < 2147483648" using c by (simp_all add: int_clock_def)
  with o show "0 \<le> response (pcbs s ! i)" "response (pcbs s ! i) \<le> turnaround (pcbs s ! i)"
    "0 \<le> completion_time (pcbs s ! i)" "completion_time (pcbs s ! i) < 2147483648"
    by (simp_all add: response_def turnaround_def)
qed

text \<open>What is asked of the processes: they arrive without a gap, and every algorithm can see them.\<close>

definition runnable :: "proc_spec list \<Rightarrow> bool" where
  "runnable xs \<longleftrightarrow> xs \<noteq> [] \<and> length xs \<le> 100
     \<and> (\<forall>q < length xs. q < length (filter (\<lambda>(_, c, _, _). c \<le> q) xs))
     \<and> list_all (\<lambda>(_, c, w, p). c < 2147483648 \<and> w < 2147483647 \<and> 0 < p \<and> p < 2147483648) xs"

lemma unat_number: "n < 2147483648 \<Longrightarrow> unat (word_of_nat n :: u32) = n"
  by (simp add: unsigned_of_nat take_bit_nat_eq_self)

lemma runnable_loaded:
  assumes x: "runnable xs" and s: "num s = length xs" "\<forall>i < length xs. pcbs s ! i = spec_pcb i (xs ! i)"
  shows "steady_arrivals s" "\<forall>j < num s. small_workload (pcbs s ! j) \<and> has_priority (pcbs s ! j)"
    "(\<Sum>j < num s. 22 * unat (workload (pcbs s ! j)) + 3) = (\<Sum>(_, _, w, _) \<leftarrow> xs. 22 * w + 3)"
proof -
  have f: "unat (creation_quantum (pcbs s ! i)) = fst (snd (xs ! i))" "unat (workload (pcbs s ! i)) = fst (snd (snd (xs ! i)))"
    "unat (prio (pcbs s ! i)) = snd (snd (snd (xs ! i)))"
    "fst (snd (snd (xs ! i))) < 2147483647" "0 < snd (snd (snd (xs ! i)))" if "i < length xs" for i
  proof -
    obtain nm c w p where e: "xs ! i = (nm, c, w, p)" by (cases "xs ! i")
    have "c < 2147483648 \<and> w < 2147483647 \<and> 0 < p \<and> p < 2147483648"
      using x that e by (fastforce simp: runnable_def list_all_length)
    then show "unat (creation_quantum (pcbs s ! i)) = fst (snd (xs ! i))" "unat (workload (pcbs s ! i)) = fst (snd (snd (xs ! i)))"
      "unat (prio (pcbs s ! i)) = snd (snd (snd (xs ! i)))"
      "fst (snd (snd (xs ! i))) < 2147483647" "0 < snd (snd (snd (xs ! i)))"
      using s(2) that e by (simp_all add: spec_pcb_def unat_number)
  qed
  have "card {j. j < num s \<and> unat (creation_quantum (pcbs s ! j)) \<le> q} = length (filter (\<lambda>(_, c, _, _). c \<le> q) xs)" for q
    unfolding length_filter_conv_card s(1) using f(1) by (intro arg_cong [of _ _ card]) (auto simp: case_prod_beta)
  then show "steady_arrivals s" using x s(1) by (simp add: steady_arrivals_def runnable_def)
  show "\<forall>j < num s. small_workload (pcbs s ! j) \<and> has_priority (pcbs s ! j)"
  proof (intro allI impI)
    fix j assume "j < num s"
    then have j: "j < length xs" using s(1) by simp
    show "small_workload (pcbs s ! j) \<and> has_priority (pcbs s ! j)"
      using f [OF j] by (simp add: small_workload_def has_priority_def word_less_nat_alt INT_MAX_def)
  qed
  show "(\<Sum>j < num s. 22 * unat (workload (pcbs s ! j)) + 3) = (\<Sum>(_, _, w, _) \<leftarrow> xs. 22 * w + 3)"
    unfolding s(1) sum_list_sum_nth length_map atLeast0LessThan
    by (intro sum.cong) (auto simp: f(2) case_prod_beta)
qed

text \<open>
  C5: The scheduler on a file with comments and blank lines. Let it describe at most 100 processes,
  at least one, that arrive without a gap, each with a positive priority and less work than
  \<open>INT_MAX\<close>; let the speed of the machine be in the range in which the calibration returns, and
  let the random draws hit every process. Then every algorithm name leads to a run that
  completes and a summary with each process: on a clock that does not go back and stays in the
  range of \<open>int\<close>, the response times are not negative and at most
  the turnaround times, and the completion order lists each process once. Enough alarms or
  steps are 22 for each unit of work, three for each process and one; when the signals come makes no
  difference.
\<close>

theorem scheduler_runs_file:
  assumes "describes ls xs" "runnable xs" "fair_rnd env" "steady_clock env" "int_clock env"
    and "accurate clk v" "v < 16492000000" "length argv = 3"
    and "(\<Sum>(_, _, w, _) \<leftarrow> xs. 22 * w + 3) + 1 \<le> length alarms" "length alarms < 2 ^ 32"
  shows "\<exists>r. sched_main argv (Some (file_of ls)) clk env alarms = Some (Finished r)
    \<and> map fst (turnarounds r) = map fst xs \<and> map fst (responses r) = map fst xs
    \<and> (\<forall>i < length xs. 0 \<le> snd (responses r ! i) \<and> snd (responses r ! i) \<le> snd (turnarounds r ! i))
    \<and> mset (map snd (completions r)) = mset (map fst xs)"
proof -
  have x: "length xs \<le> 100" "xs \<noteq> []" using assms(2) by (auto simp: runnable_def)
  obtain msgs s where s: "read_spec (Some (file_of ls)) sched_init = Some (msgs, s)" "num s = length xs"
    "\<forall>i < length xs. pcbs s ! i = spec_pcb i (xs ! i)" "loaded s"
    using read_spec_described [OF assms(1) x] by blast
  note R = runnable_loaded [OF assms(2) s(2,3)]
  obtain s' where s': "sched_steps (select_algo (argv ! 1)) env alarms s = Some s'" "control s' = Done" "sched_inv s'"
    "num s' = num s" "\<forall>j < num s. static (pcbs s' ! j) = static (pcbs s ! j)" "\<forall>j < num s. state (pcbs s' ! j) = TERMINATED"
    using all_algorithms_complete [OF s(4) assms(3) R(1,2), of alarms "argv ! 1"] assms(9,10) R(3) by auto
  have t: "times_ok env s'"
    using all_algorithms_on_time [OF s(4) assms(3) R(1) assms(4,10) R(2), of "argv ! 1"] s'(1) by simp
  define ps where "ps = take (num s') (pcbs s')"
  have n: "procs s' = Some ps" "length ps = length xs" "\<And>i. i < length xs \<Longrightarrow> ps ! i = pcbs s' ! i"
    using inv_procs [OF s'(3)] s'(3,4) s(2) by (auto simp: ps_def inv_at_def table_ok_def)
  have e: "0 \<le> response (ps ! i)" "response (ps ! i) \<le> turnaround (ps ! i)"
    "0 \<le> completion_time (ps ! i)" "completion_time (ps ! i) < 2147483648" if "i < length xs" for i
    using ended_times [OF t assms(5), of i] that s'(4,6) s(2) n(3) by auto
  have names: "map name ps = map fst xs"
    using n s'(5) s(2,3) by (intro nth_equalityI) (auto simp: static_def spec_pcb_def split: prod.split)
  obtain w shown where "calibrate_workload clk = Some (w, shown)" using calibrates_below [OF assms(6,7)] by blast
  moreover have "\<forall>p \<in> set ps. 0 \<le> completion_time p \<and> completion_time p < 2147483648"
    using e(3,4) n(2) by (auto simp: in_set_conv_nth)
  moreover
  have "mset (completion_order ps) = mset (map fst xs)"
    unfolding completion_order_eq names [symmetric] by simp
  then have "image_mset snd (mset (enumerate 0 (completion_order ps))) = mset (map fst xs)"
    unfolding mset_map [symmetric] map_snd_enumerate by simp
  ultimately show ?thesis
    using s(1) s'(1,2) assms(8) summary_ok [OF n(1)] names e(1,2) n(2) by (simp add: sched_main_def comp_def)
qed

text \<open>The file LabWork/Lab7/processes1.txt of the repository.\<close>

definition processes1 :: "string list" where
  "processes1 =
    [''# Process Name, Creation Quantum, Workload Size, Priority'',
     ''# For this round of execution, three processes are run at quantums 1, 2, and 3.'',
     ''# Each of the processes has the same workload size and priority.'',
     ''Process_A, 0, 10, 60'',
     ''Process_B, 1, 3, 20'',
     ''Process_C, 1, 10, 40'',
     ''Process_D, 2, 5, 100'']"

lemma comment_line: "line_words (CHR ''#'' # l) = None"
  by (simp add: line_words_def)

lemma processes1_describes:
  "describes processes1 [(''Process_A'', 0, 10, 60), (''Process_B'', 1, 3, 20), (''Process_C'', 1, 10, 40), (''Process_D'', 2, 5, 100)]"
proof -
  have "line_words ''Process_A, 0, 10, 60'' = Some [''Process_A'', ''0'', ''10'', ''60'']"
    "line_words ''Process_B, 1, 3, 20'' = Some [''Process_B'', ''1'', ''3'', ''20'']"
    "line_words ''Process_C, 1, 10, 40'' = Some [''Process_C'', ''1'', ''10'', ''40'']"
    "line_words ''Process_D, 2, 5, 100'' = Some [''Process_D'', ''2'', ''5'', ''100'']"
    by (simp_all add: line_words_def delims_def words_of.simps)
  moreover have "atoi_int ''0'' = Some (int 0)" "atoi_int ''1'' = Some (int 1)" "atoi_int ''2'' = Some (int 2)"
    "atoi_int ''3'' = Some (int 3)" "atoi_int ''5'' = Some (int 5)" "atoi_int ''10'' = Some (int 10)"
    "atoi_int ''20'' = Some (int 20)" "atoi_int ''40'' = Some (int 40)" "atoi_int ''60'' = Some (int 60)"
    "atoi_int ''100'' = Some (int 100)"
    by (simp_all add: atoi_int_def atoi_def digits_val_def isdigit_def isspace_def digit_val_def INT_MAX_def)
  ultimately show ?thesis
    unfolding processes1_def
    by (intro skipped [OF _ _ comment_line] process no_lines) simp_all
qed

definition demo_alarms :: "bool list" where
  "demo_alarms = replicate 700 True"

lemma demo_alarms_length: "length demo_alarms = 700"
  unfolding demo_alarms_def by (rule length_replicate)

theorem scheduler_runs_file_witness:
  "\<exists>r. sched_main [''scheduler'', ''sctf'', ''processes1.txt''] (Some (file_of processes1)) (clock_of 1000000)
      \<lparr>clock = \<lambda>n. 1000, rnd = id\<rparr> demo_alarms = Some (Finished r)
    \<and> mset (map snd (completions r)) = {#''Process_A'', ''Process_B'', ''Process_C'', ''Process_D''#}"
proof -
  let ?env = "\<lparr>clock = \<lambda>n. 1000, rnd = id\<rparr>"
  have "fair_rnd ?env" using demo_rnd_fair by (simp add: fair_rnd_def demo_rnd_def)
  moreover have "steady_clock ?env" "int_clock ?env" by (simp_all add: steady_clock_def int_clock_def)
  moreover have "runnable [(''Process_A'', 0, 10, 60), (''Process_B'', 1, 3, 20), (''Process_C'', 1, 10, 40), (''Process_D'', 2, 5, 100)]"
    by (simp add: runnable_def All_less_Suc)
  ultimately show ?thesis
    using scheduler_runs_file [OF processes1_describes _ _ _ _ clock_of_accurate, of ?env 1000000
        "[''scheduler'', ''sctf'', ''processes1.txt'']" demo_alarms]
    by (auto simp: demo_alarms_length)
qed

end
