(* ===== verification/Spec2Isabelle.thy ===== *)
theory Spec2Isabelle
  imports Tokens Alloc_Tests Alloc_Free_Test Alloc_Locked Alloc_Scribble Sched_Props Process_Spec
    History Shell_Tokens Shell_Pipe Shell_Jobs Shell_Main Shell_Session Www_Main
    Inspector_Report Leetify Msg_Client Lab_Tools Dir_Wrappers Sched_Main
begin

text \<open>
  \<^bold>\<open>The repository.\<close> The coursework of an operating systems course: a system
  inspector (Project1), a shell (Project2), a memory allocator (Project3), a web server
  (Project4) and the exercises of the labs (LabWork). Each is a program of its own; what they
  share is the string tokenizer \<open>next_token\<close>, of which four of them carry a copy.

  \<^bold>\<open>Conventions.\<close> (C_Prelude) An operation of the C code is a function whose
  result \<open>None\<close> says that C gives it no meaning: a null or unmapped address, an
  index outside an array, a string without an end, an uninitialised variable, or a loop that does
  not end. A theorem that an operation returns \<open>Some r\<close> is therefore a statement of
  memory safety and of termination. Errors that the code detects are values inside the
  \<open>Some\<close>. Unsigned integers are machine words. Loops without an evident bound are
  \<open>partial_function (option)\<close>, those with one are proved to end; there is no fuel
  anywhere. System calls and library calls with effects are parameters (\<open>alloc_env\<close>,
  \<open>sched_env\<close>, \<open>os\<close>, \<open>fs\<close>, \<open>proc_env\<close>,
  \<open>net\<close>), or outputs of the model (the processes that the shell starts, what is
  printed or sent).

  \<^bold>\<open>The theories.\<close>
  \<^item> C_Prelude: integer types, buffers, C strings, \<open>strspn\<close>,
    \<open>strcspn\<close>, \<open>strcpy\<close> into a buffer of known size,
    \<open>fgets\<close>, \<open>atoi\<close>, decimal numbers.
  \<^item> Tokens: \<open>next_token\<close> (Project4/next_token.c, and its copies in
    Project1/inspector.c, Project4/www.c, LabWork/Lab7/file_format.c) on a mutable buffer; the
    abstract view \<open>words_of\<close>, and the locale \<open>token_stream\<close>, the
    interface through which the loader, the server and the shell use a tokenizer.
  \<^item> Allocator, Alloc_Heap, Alloc_Inv, Alloc_Write, Alloc_Malloc, Alloc_Free, Alloc_Client,
    Alloc_Props, Alloc_Spec, Alloc_Leak, Alloc_Tests, Alloc_Free_Test, Alloc_Threads,
    Alloc_Whole, Alloc_Locked, Alloc_Scribble: Project3/allocator.c and the programs that test it. Allocator
    is the code: the block headers are a map from addresses to records, the payload bytes
    another, the mapped areas a list. Alloc_Heap describes the chain of blocks as a list of
    regions, Alloc_Inv is the invariant, the next four prove that the operations keep it and what
    they do to the live payloads, Alloc_Client runs traces of client calls and writes, Alloc_Spec
    refines the allocator to a machine on lists of regions and blocks, and Alloc_Leak shows that
    no area stays mapped without a live payload. The programs of Project3/tests/progs follow:
    Alloc_Tests runs the deterministic ones on the list machine, Alloc_Free_Test is free.c for
    all random numbers. Alloc_Threads splits \<open>malloc\<close> in the search and the rest, and
    \<open>free\<close> in the mark, one step for each block of the scan, the unlinking and the
    unmapping, and runs the threads of thread-safety.c, which write and read one integer in a
    step, under schedules. Alloc_Whole has the invariant of the threads when each call is one
    step, Alloc_Locked carries it to the runs in which calls of \<open>malloc\<close> and
    \<open>free\<close> do not overlap while all other steps interleave. Alloc_Scribble is scribble.c with
    integers in memory (\<open>store_le\<close>, \<open>load_le\<close>) and output that stays
    printed when the program faults.
  \<^item> Scheduler, Sched_Inv, Sched_Run, Sched_Algos, Sched_Times, Sched_Props, Sched_Main:
    LabWork/Lab7/scheduler.c. A saved context is the program point at which it goes on; a step of
    the machine runs from one such point to the next, and the alarm is an input of every step.
    Sched_Run proves safety and partial correctness of the machine for every policy, in the
    locales \<open>sched_policy\<close> and \<open>idle_policy\<close>; Sched_Algos interprets
    them on the eight algorithms of the code. Sched_Times has the invariant of the recorded
    times, Sched_Main is \<open>main\<close> with the loader, the calibration and the summary,
    and the process file that comes with the program.
  \<^item> Workload: LabWork/Lab7/workload.c, the calibration of the scheduler's busy loop, and
    the clock that it shares with Project2/timer.c.
  \<^item> Process_Spec: LabWork/Lab7/file_format.c, the loader of process tables.
  \<^item> History: Project2/history.c, a ring of a hundred lines that refines the list of all
    commands.
  \<^item> Shell: Project2/shell.c and tokenizer.c. Shell_Tokens interprets
    \<open>token_stream\<close> on the quoting tokenizer, for lines without quotes, and states
    when a quoted argument is one token; Shell_Pipe verifies the parser of \<open>exec\<close>
    and \<open>execute_pipeline\<close> against a grammar of pipelines and the chain of processes
    that each denotes; Shell_Jobs refines the job table to a list; Shell_Main puts them together
    for a whole line, and holds the history substitution; Shell_Session is \<open>main\<close> as
    a machine that reads lines, ends of children and interrupts in any order, with the prompt,
    and with ends of children while a line runs.
  \<^item> Timestamp, Www, Www_Main: Project4/www.c. Timestamp is
    \<open>generate_timestamp\<close>, with the calendar of \<open>gmtime\<close>, and a decoder
    of the text; Www goes from the bytes of a connection to the bytes of the response, Www_Main
    is \<open>main\<close> with the process that it forks for each connection, whose child ends at
    \<open>accept\<close> on the socket that it has closed.
  \<^item> Inspector, Inspector_Props, Inspector_Report: Project1/inspector.c. Inspector is the
    code, as parts of \<open>main\<close> (\<open>'a run\<close>) that open files, append lines
    to the report and may return early; Inspector_Props has \<open>getNextTok\<close> on a reused
    buffer, the uptime, and a judgement \<open>typed\<close> under which every part only appends
    well-formed lines; Inspector_Report has the judgement \<open>yields\<close>, with which the
    sections are put together to the report of \<open>main\<close>.
  \<^item> Leetify: LabWork/Lab9/leetify.c, the pipeline from which that of the shell was made; the programs
    are functions from their input to their output, and what the stages write flows through the
    pipes to the file or the terminal.
  \<^item> Sockets, Msg_Server, Msg_Client: LabWork/Lab11. Msg_Server is \<open>read_len\<close>
    and the server of messages; Msg_Client is the client, relative to the memory that its
    uninitialised pointer happens to point at, and its composition with the server.
  \<^item> Lab_Tools: the small programs of LabWork (Lab3, Lab6, Lab8, Lab10); Dir_Wrappers: the
    two wrappers of \<open>readdir\<close> in Lab6.

  \<^bold>\<open>What the theorems show.\<close> For the allocator: the heap invariant survives
  every trace of client calls, no call diverges or touches an unmapped address, live payloads are
  disjoint, aligned and keep their bytes, a free gives back exactly its payload, each search
  strategy selects what its name says, every program of calls gives the layout that a machine on
  lists computes, no area is leaked, threads are safe when calls of \<open>malloc\<close> and
  \<open>free\<close> do not overlap and race otherwise, the report lists every block, and the
  fixed programs of the test suite and free.c print what the scripts expect, while scribble.c
  faults. For the scheduler: when the processes arrive without a gap, have positive
  priorities and work below the largest int, every algorithm drives them to completion without a
  dead context, from the file to the summary; each that has a key selects the best waiting
  process by it, except that psjf and sctf go on with the process that was interrupted. For the loader, the history and the tokenizers: round trips
  and refinement of lists. For the shell: from the characters of a line to the processes, the job
  table and the history, and through whole sessions with signals in between, whose job table is
  exactly what the events make of it. For the server: a
  well-formed request gets exactly one well-formed response, whatever the other clients send, and
  its time stamp can be read back. For the inspector: the report says what the files of /proc
  hold, with the formulas of the code, and is well-formed in every run. For the message server:
  when \<open>read_len\<close> ends and what it delivers; what is typed at the client is what the
  server prints. For the calibration: on which machines it returns, and how far its result is
  from a quarter of a second. For leetify: the output is that of the composed programs, and nothing comes out when a
  pipe, a process or the file cannot be made. Where the
  code does less than it should the theorems say so and on which inputs: the full job table, the
  8-byte buffer of the history substitution, the quoted argument behind several spaces, the
  missing preemption, the lost priority, the idle gap, the unchecked table size, the requests
  without carriage returns, \<open>realloc\<close> that never moves and the test that faults for
  it, the mutex that is never taken, sizes that wrap, the lost months of the uptime, the
  processor usage of an idle machine, the long user name, the message in several parts, the
  stream that ends, the short write of the client, the calibration of a fast machine.

  \<^bold>\<open>Not modelled.\<close> Terminal and log output beyond what is named above; signals at
  other points than while the shell waits for a line or while a line runs, so not between a
  \<open>fork\<close> and the entry of its process in the job table; the rounding of floating point
  numbers, which are rationals here; the heap that the C library allocates for its own streams,
  other than as payloads that are live at the start; the time that thread-safety.c measures;
  steps of \<open>malloc\<close> and \<open>free\<close> finer than those of Alloc_Threads; the constructors of the
  wrappers in LabWork/Lab6, which look up the functions of the C library; the headers of the C
  library in LabWork/Lab6.
\<close>

end
